(* ===== verification/Prelude.thy ===== *)
theory Prelude
  imports Main
begin

text \<open>
  What every component of the development shares: the result type of code that throws, the model
  of \<open>std::map\<close>, and the lemmas about them. Times on a steady clock, instance ids, epochs and
  counters are \<open>int\<close>; where the source narrows a value to 32 bits the range is written out.
\<close>

section \<open>Shared collections of facts\<close>

named_theorems lease_defs \<open>definitions of the lease classes that a proof unfolds together\<close>

named_theorems frame \<open>fields that an operation leaves alone\<close>

section \<open>Errors as values\<close>

text \<open>
  A precondition that does not hold throws \<open>PreconditionAssertion\<close>, a configuration that makes
  no sense throws \<open>ConfigurationException\<close>, and what the operating system or a file gets wrong throws
  \<open>PubSubItcException\<close> or \<open>std::runtime_error\<close>; the message text is dropped, the kind is kept.
\<close>

datatype error = PreconditionAssertion | ConfigurationException | PubSubItcException | RuntimeError

type_synonym 'a result = "error + 'a"

type_synonym time_point = int
type_synonym duration = int
type_synonym instance_id = int
type_synonym epoch = int

definition int32_max :: int where
  "int32_max = 2147483647"

definition in_int32 :: "int \<Rightarrow> bool" where
  "in_int32 x \<longleftrightarrow> - 2147483648 \<le> x \<and> x \<le> int32_max"

text \<open>Signed 32-bit arithmetic as the compilers the project builds with perform it.\<close>

definition wrap32 :: "int \<Rightarrow> int" where
  "wrap32 x = (x + 2147483648) mod 4294967296 - 2147483648"

lemma wrap32_id: "in_int32 x \<Longrightarrow> wrap32 x = x"
  by (simp add: wrap32_def in_int32_def int32_max_def)

lemma wrap32_range: "in_int32 (wrap32 x)"
  by (simp add: wrap32_def in_int32_def int32_max_def)

abbreviation is_ok :: "'a result \<Rightarrow> bool" where
  "is_ok r \<equiv> (\<exists>x. r = Inr x)"

definition bind_result :: "'a result \<Rightarrow> ('a \<Rightarrow> 'b result) \<Rightarrow> 'b result" where
  "bind_result r f = (case r of Inl e \<Rightarrow> Inl e | Inr x \<Rightarrow> f x)"

lemma bind_result_simps [simp]:
  "bind_result (Inl e) f = Inl e"
  "bind_result (Inr x) f = f x"
  by (simp_all add: bind_result_def)

lemma bind_result_eq_Inr:
  "bind_result r f = Inr y \<longleftrightarrow> (\<exists>x. r = Inr x \<and> f x = Inr y)"
  by (cases r) simp_all

section \<open>Lists and options\<close>

lemma list_update_image: "f x = f (xs ! i) \<Longrightarrow> f (xs[i := x] ! i) = f (xs ! i)"
  by (cases "i < length xs") (simp_all add: list_update_beyond)

lemma distinct_mapI: "distinct (map f xs) \<Longrightarrow> distinct xs"
  by (simp add: distinct_map)

lemma same_by_key:
  fixes key :: "'a \<Rightarrow> 'b::linorder"
  assumes "set xs = set ys" and "sorted (map key xs)" and "sorted (map key ys)" and "distinct xs" and "distinct ys"
    and "inj_on key (set ys)"
  shows "xs = ys"
proof -
  have "map key xs = map key ys"
    by (rule sorted_distinct_set_unique) (simp_all add: distinct_map assms)
  then show ?thesis by (rule map_inj_on) (simp add: assms(1,6))
qed

lemma option_eqI: "(\<And>e. x = Some e \<longleftrightarrow> y = Some e) \<Longrightarrow> x = y"
  by (metis not_Some_eq)

lemma map_filter_empty: "List.map_filter f xs = [] \<longleftrightarrow> (\<forall>x \<in> set xs. f x = None)"
  by (induction xs) (auto simp: List.map_filter_simps split: option.splits)

section \<open>The ordered map of the standard library\<close>

text \<open>
  \<open>std::map\<close> is a list of key and value pairs in ascending key order, which is the order in which
  the source iterates over it. \<open>sm_put\<close> is assignment through \<open>operator[]\<close>, \<open>sm_get\<close> is \<open>find\<close> and
  \<open>sm_erase\<close> is \<open>erase\<close>.
\<close>

type_synonym ('k, 'v) std_map = "('k \<times> 'v) list"

fun sm_put :: "'k::linorder \<Rightarrow> 'v \<Rightarrow> ('k, 'v) std_map \<Rightarrow> ('k, 'v) std_map" where
  "sm_put k v [] = [(k, v)]"
| "sm_put k v ((k', v') # m) =
     (if k < k' then (k, v) # (k', v') # m
      else if k = k' then (k, v) # m
      else (k', v') # sm_put k v m)"

definition sm_get :: "('k, 'v) std_map \<Rightarrow> 'k \<Rightarrow> 'v option" where
  "sm_get m k = map_of m k"

definition sm_erase :: "'k \<Rightarrow> ('k, 'v) std_map \<Rightarrow> ('k, 'v) std_map" where
  "sm_erase k m = filter (\<lambda>(k', v). k' \<noteq> k) m"

definition sm_keep :: "('v \<Rightarrow> bool) \<Rightarrow> ('k, 'v) std_map \<Rightarrow> ('k, 'v) std_map" where
  "sm_keep P m = filter (\<lambda>(k, v). P v) m"

definition sm_ok :: "('k::linorder, 'v) std_map \<Rightarrow> bool" where
  "sm_ok m \<longleftrightarrow> sorted_wrt (<) (map fst m)"

lemma set_fst_sm_put: "fst ` set (sm_put k v m) = insert k (fst ` set m)"
  by (induction k v m rule: sm_put.induct) auto

lemma sm_ok_Nil: "sm_ok []"
  by (simp add: sm_ok_def)

lemma sm_ok_Cons: "sm_ok ((k, v) # m) \<longleftrightarrow> (\<forall>k' \<in> fst ` set m. k < k') \<and> sm_ok m"
  by (auto simp: sm_ok_def)

lemma sm_ok_single [simp]: "sm_ok [(k, v)]"
  by (simp add: sm_ok_def)

lemma sm_ok_put: "sm_ok m \<Longrightarrow> sm_ok (sm_put k v m)"
proof (induction k v m rule: sm_put.induct)
  case (1 k v)
  then show ?case by (simp add: sm_ok_def)
next
  case (2 k v k' v' m)
  consider "k < k'" | "k = k'" | "k' < k" by (rule linorder_cases)
  then show ?case
  proof cases
    case 1
    with "2.prems" show ?thesis by (force simp: sm_ok_Cons)
  next
    case 2
    with "2.prems" show ?thesis by (simp add: sm_ok_Cons)
  next
    case 3
    with 2 show ?thesis by (auto simp: sm_ok_Cons set_fst_sm_put)
  qed
qed

lemma sm_ok_filter: "sm_ok m \<Longrightarrow> sm_ok (filter P m)"
  by (induction m) (auto simp: sm_ok_def)

lemma sm_ok_erase: "sm_ok m \<Longrightarrow> sm_ok (sm_erase k m)"
  by (simp add: sm_erase_def sm_ok_filter)

lemma sm_ok_keep: "sm_ok m \<Longrightarrow> sm_ok (sm_keep P m)"
  by (simp add: sm_keep_def sm_ok_filter)

lemma sm_get_Nil: "sm_get [] k = None"
  by (simp add: sm_get_def)

lemma sm_get_put: "sm_get (sm_put k v m) k' = (if k' = k then Some v else sm_get m k')"
  by (induction k v m rule: sm_put.induct) (auto simp: sm_get_def)

lemma sm_get_erase: "sm_get (sm_erase k m) k' = (if k' = k then None else sm_get m k')"
  by (induction m) (auto simp: sm_get_def sm_erase_def)

text \<open>Iterating over the map visits exactly the bindings that \<open>find\<close> finds.\<close>

lemma sm_get_iff_mem: "sm_ok m \<Longrightarrow> sm_get m k = Some v \<longleftrightarrow> (k, v) \<in> set m"
proof (induction m)
  case Nil
  then show ?case by (simp add: sm_get_def)
next
  case (Cons p m)
  obtain k' v' where p: "p = (k', v')" by (cases p)
  from Cons.prems p have "sm_ok m" and "\<forall>k'' \<in> fst ` set m. k' < k''"
    by (simp_all add: sm_ok_Cons)
  with Cons.IH p show ?case by (force simp: sm_get_def)
qed

lemma sm_get_keep_SomeD: "sm_get (sm_keep P m) k = Some v \<Longrightarrow> (k, v) \<in> set m \<and> P v"
  by (auto simp: sm_get_def sm_keep_def dest: map_of_SomeD)

text \<open>
  What the classes that keep a \<open>std::map\<close> rely on, as an interface: the laws of lookup after each
  operation, under the invariant that every operation keeps.
\<close>

locale keyed_map =
  fixes empty :: 'm
    and put :: "'k \<Rightarrow> 'v \<Rightarrow> 'm \<Rightarrow> 'm"
    and get :: "'m \<Rightarrow> 'k \<Rightarrow> 'v option"
    and erase :: "'k \<Rightarrow> 'm \<Rightarrow> 'm"
    and bindings :: "'m \<Rightarrow> ('k \<times> 'v) set"
    and invar :: "'m \<Rightarrow> bool"
  assumes get_empty: "get empty k = None"
    and get_put: "invar m \<Longrightarrow> get (put k v m) k' = (if k' = k then Some v else get m k')"
    and get_erase: "invar m \<Longrightarrow> get (erase k m) k' = (if k' = k then None else get m k')"
    and get_bindings: "invar m \<Longrightarrow> get m k = Some v \<longleftrightarrow> (k, v) \<in> bindings m"
    and invar_empty: "invar empty"
    and invar_put: "invar m \<Longrightarrow> invar (put k v m)"
    and invar_erase: "invar m \<Longrightarrow> invar (erase k m)"
begin

lemma bindings_empty: "bindings empty = {}"
  using get_bindings [OF invar_empty] get_empty by auto

lemma bindings_put:
  assumes "invar m"
  shows "bindings (put k v m) = insert (k, v) {p \<in> bindings m. fst p \<noteq> k}"
proof -
  have "(a, b) \<in> bindings (put k v m) \<longleftrightarrow> (a, b) \<in> insert (k, v) {p \<in> bindings m. fst p \<noteq> k}" for a b
    using get_bindings [OF invar_put [OF assms], of k v a b] get_put [OF assms, of k v a]
      get_bindings [OF assms, of a b] by (auto split: if_splits)
  then show ?thesis by auto
qed

lemma bindings_erase:
  assumes "invar m"
  shows "bindings (erase k m) = {p \<in> bindings m. fst p \<noteq> k}"
proof -
  have "(a, b) \<in> bindings (erase k m) \<longleftrightarrow> (a, b) \<in> {p \<in> bindings m. fst p \<noteq> k}" for a b
    using get_bindings [OF invar_erase [OF assms], of k a b] get_erase [OF assms, of k a]
      get_bindings [OF assms, of a b] by (auto split: if_splits)
  then show ?thesis by auto
qed

lemma get_put_erase: "invar m \<Longrightarrow> get (put k v (erase k m)) = get (put k v m)"
  by (rule ext) (simp add: get_put get_erase invar_erase)

end

interpretation std_map: keyed_map "[]" sm_put sm_get sm_erase set sm_ok
  by unfold_locales
    (simp_all add: sm_get_Nil sm_get_put sm_get_erase sm_get_iff_mem sm_ok_Nil sm_ok_put sm_ok_erase)

lemmas sm_simps [simp] = sm_get_Nil sm_get_put sm_get_erase sm_ok_Nil sm_ok_put sm_ok_erase sm_ok_keep

end
