(* ===== verification/LeaderIdentity.thy ===== *)
theory LeaderIdentity
  imports Prelude
begin

text \<open>
  How a leadership is named and what it says: \<open>LeaderEpoch.hpp\<close> chooses the epoch a new leadership
  takes, and \<open>LeaderStatement.hpp\<close> is what a leader says about whether its peer may lead.
\<close>

section \<open>LeaderEpoch\<close>

definition epoch_stride :: int where
  "epoch_stride = 4"

text \<open>
  The division is C++'s on a value already known not to be negative, so it agrees with \<open>div\<close>.
\<close>

definition next_for :: "epoch \<Rightarrow> instance_id \<Rightarrow> epoch result" where
  "next_for known leader_instance_id =
     (if leader_instance_id < 1 \<or> epoch_stride \<le> leader_instance_id then Inl PreconditionAssertion
      else if known < 0 \<or> int32_max - 2 * epoch_stride < known then Inl PreconditionAssertion
      else
        let leader = leader_instance_id;
            base = (known div epoch_stride) * epoch_stride
        in Inr (if known < base + leader then base + leader else base + epoch_stride + leader))"

lemma next_for_Inr:
  assumes "next_for known l = Inr e"
  shows "1 \<le> l" and "l < 4" and "0 \<le> known" and "known < e" and "e mod 4 = l" and "e \<le> known + 4"
    and "e \<le> int32_max"
proof -
  from assms show range: "1 \<le> l" "l < 4" "0 \<le> known"
    by (auto simp: next_for_def epoch_stride_def Let_def split: if_splits)
  define base where "base = (known div 4) * 4"
  have base: "base \<le> known" "known < base + 4" "base mod 4 = 0"
    unfolding base_def by auto
  from assms have e: "e = (if known < base + l then base + l else base + 4 + l)"
    and small: "known \<le> int32_max - 8"
    by (auto simp: next_for_def epoch_stride_def Let_def base_def split: if_splits)
  show "known < e" and "e \<le> known + 4" using e base range by auto
  from base(3) e range show "e mod 4 = l" by (auto simp: mod_add_left_eq [symmetric])
  from e base small range show "e \<le> int32_max" by (auto split: if_splits)
qed

lemma next_for_least:
  assumes "next_for known l = Inr e" and "known < e'" and "e' mod 4 = l"
  shows "e \<le> e'"
proof (rule ccontr)
  assume "\<not> e \<le> e'"
  with next_for_Inr [OF assms(1)] assms(2) have "e' < e" "e < e' + 4" by auto
  moreover have "e mod 4 = e' mod 4"
    using next_for_Inr(5) [OF assms(1)] assms(3) by simp
  ultimately show False by presburger
qed

lemma next_for_ok_iff:
  "is_ok (next_for known l) \<longleftrightarrow> 1 \<le> l \<and> l < 4 \<and> 0 \<le> known \<and> known \<le> int32_max - 8"
  by (auto simp: next_for_def epoch_stride_def Let_def)

section \<open>LeaderStatement\<close>

record leader_statement =
  ls_leader_id :: instance_id
  ls_epoch :: epoch
  ls_number :: int
  ls_peer_may_lead :: bool

text \<open>A statement as default constructed: it names no leader.\<close>

definition no_statement :: leader_statement where
  "no_statement = \<lparr>ls_leader_id = 0, ls_epoch = 0, ls_number = 0, ls_peer_may_lead = True\<rparr>"

definition newer_than :: "leader_statement \<Rightarrow> leader_statement \<Rightarrow> bool" where
  "newer_than s other \<longleftrightarrow>
     ls_epoch other < ls_epoch s \<or> (ls_epoch s = ls_epoch other \<and> ls_number other < ls_number s)"

definition same_as :: "leader_statement \<Rightarrow> leader_statement \<Rightarrow> bool" where
  "same_as s other \<longleftrightarrow>
     ls_leader_id s = ls_leader_id other \<and> ls_epoch s = ls_epoch other \<and> ls_number s = ls_number other"

definition instance_that_may_not_lead :: "leader_statement \<Rightarrow> instance_id" where
  "instance_that_may_not_lead s =
     (if ls_leader_id s = 0 \<or> ls_peer_may_lead s then 0 else if ls_leader_id s = 1 then 2 else 1)"

text \<open>
  What a store of the newest statement relies on: being newer is a strict order in which two
  statements neither of which is newer carry the same epoch and number.
\<close>

locale recency =
  fixes newer :: "'s \<Rightarrow> 's \<Rightarrow> bool"
  assumes newer_irrefl: "\<not> newer s s"
    and newer_trans: "newer s t \<Longrightarrow> newer t u \<Longrightarrow> newer s u"
    and newer_weak: "\<not> newer s t \<Longrightarrow> \<not> newer t u \<Longrightarrow> \<not> newer s u"
begin

lemma newer_asym: "newer s t \<Longrightarrow> \<not> newer t s"
  using newer_irrefl newer_trans by blast

text \<open>Keeping the newest of what arrives, in whatever order it arrives, ends with the newest of all.\<close>

lemma keep_newest_ge:
  "\<not> newer s (foldl (\<lambda>held t. if newer t held then t else held) h ss)"
  if "s = h \<or> s \<in> set ss"
  using that
proof (induction ss arbitrary: h s)
  case Nil
  then show ?case using newer_irrefl by simp
next
  case (Cons t ss)
  let ?f = "\<lambda>held t. if newer t held then t else held"
  have keep: "\<not> newer (?f h t) (foldl ?f (?f h t) ss)" using Cons.IH [of "?f h t" "?f h t"] by blast
  have h: "\<not> newer h (?f h t)" and t: "\<not> newer t (?f h t)"
    using newer_irrefl newer_asym by auto
  note newer_weak [OF h keep] newer_weak [OF t keep]
  with Cons.IH [of s "?f h t"] Cons.prems show ?case by auto
qed

lemma keep_newest_mem:
  "foldl (\<lambda>held t. if newer t held then t else held) h ss \<in> insert h (set ss)"
  by (induction ss arbitrary: h) auto

end

interpretation statement_order: recency newer_than
  by unfold_locales (auto simp: newer_than_def)

lemma not_newer_antisym:
  "\<not> newer_than s t \<Longrightarrow> \<not> newer_than t s \<Longrightarrow> ls_epoch s = ls_epoch t \<and> ls_number s = ls_number t"
  by (auto simp: newer_than_def)

lemma instance_that_may_not_lead_simps [simp]:
  "instance_that_may_not_lead no_statement = 0"
  "ls_peer_may_lead s \<Longrightarrow> instance_that_may_not_lead s = 0"
  "ls_leader_id s = 1 \<Longrightarrow> \<not> ls_peer_may_lead s \<Longrightarrow> instance_that_may_not_lead s = 2"
  "ls_leader_id s = 2 \<Longrightarrow> \<not> ls_peer_may_lead s \<Longrightarrow> instance_that_may_not_lead s = 1"
  by (auto simp: instance_that_may_not_lead_def no_statement_def)

end
