(* ===== verification/LeaseVoter.thy ===== *)
theory LeaseVoter
  imports LeaderIdentity
begin

text \<open>
  \<open>LeaseVoter.hpp\<close>: one voter's side of deciding which instance of a pair leads. The record holds
  the private members, and each member function is one definition. Time is an argument, as in the
  source.
\<close>

section \<open>State and operations\<close>

datatype verdict =
    Granted
  | RefusedWhileRestarting
  | RefusedPromisedElsewhere
  | RefusedEpochBehind
  | RefusedMayNotLead

record lease_answer =
  ans_verdict :: verdict
  ans_highest_epoch :: epoch

record lease_voter =
  lv_lease_period :: duration
  lv_quiet_until :: time_point
  lv_promised_to :: instance_id
  lv_promise_expires :: time_point
  lv_held_for_self :: bool
  lv_highest_epoch :: epoch
  lv_recorded_statement :: leader_statement

definition make_voter :: "duration \<Rightarrow> time_point \<Rightarrow> epoch \<Rightarrow> lease_voter" where
  "make_voter lease_period started_at highest_epoch_granted =
     \<lparr>lv_lease_period = lease_period, lv_quiet_until = started_at + lease_period, lv_promised_to = 0,
      lv_promise_expires = 0, lv_held_for_self = False, lv_highest_epoch = highest_epoch_granted,
      lv_recorded_statement = no_statement\<rparr>"

definition new_voter :: "duration \<Rightarrow> time_point \<Rightarrow> epoch \<Rightarrow> lease_voter result" where
  "new_voter lease_period started_at highest_epoch_granted =
     (if lease_period \<le> 0 then Inl PreconditionAssertion
      else if highest_epoch_granted < 0 then Inl PreconditionAssertion
      else Inr (make_voter lease_period started_at highest_epoch_granted))"

definition voter_restarting :: "lease_voter \<Rightarrow> time_point \<Rightarrow> bool" where
  "voter_restarting v now \<longleftrightarrow> now < lv_quiet_until v"

definition promise_live :: "lease_voter \<Rightarrow> time_point \<Rightarrow> bool" where
  "promise_live v now \<longleftrightarrow> lv_promised_to v \<noteq> 0 \<and> now < lv_promise_expires v"

definition voter_may_lead :: "lease_voter \<Rightarrow> instance_id \<Rightarrow> bool" where
  "voter_may_lead v instance_id \<longleftrightarrow>
     instance_that_may_not_lead (lv_recorded_statement v) \<noteq> instance_id"

definition voter_consider ::
  "lease_voter \<Rightarrow> instance_id \<Rightarrow> epoch \<Rightarrow> time_point \<Rightarrow> lease_answer \<times> lease_voter" where
  "voter_consider v candidate_id epoch now =
     (let refuse = (\<lambda>why. (\<lparr>ans_verdict = why, ans_highest_epoch = lv_highest_epoch v\<rparr>, v)) in
      if voter_restarting v now then refuse RefusedWhileRestarting
      else if lv_held_for_self v \<or> (promise_live v now \<and> lv_promised_to v \<noteq> candidate_id)
        then refuse RefusedPromisedElsewhere
      else if epoch < lv_highest_epoch v then refuse RefusedEpochBehind
      else if \<not> voter_may_lead v candidate_id then refuse RefusedMayNotLead
      else
        (\<lparr>ans_verdict = Granted, ans_highest_epoch = epoch\<rparr>,
         v\<lparr>lv_promised_to := candidate_id, lv_promise_expires := now + lv_lease_period v,
           lv_highest_epoch := epoch\<rparr>))"

definition hold_for_self :: "lease_voter \<Rightarrow> lease_voter" where
  "hold_for_self v = v\<lparr>lv_held_for_self := True\<rparr>"

definition release_self :: "lease_voter \<Rightarrow> lease_voter" where
  "release_self v = v\<lparr>lv_held_for_self := False\<rparr>"

definition promised_elsewhere :: "lease_voter \<Rightarrow> instance_id \<Rightarrow> time_point \<Rightarrow> bool" where
  "promised_elsewhere v self_id now \<longleftrightarrow> promise_live v now \<and> lv_promised_to v \<noteq> self_id"

definition voter_resume_with_kept_promise ::
  "lease_voter \<Rightarrow> instance_id \<Rightarrow> time_point \<Rightarrow> time_point \<Rightarrow> lease_voter" where
  "voter_resume_with_kept_promise v promised_to until now =
     v\<lparr>lv_quiet_until := now, lv_promised_to := promised_to, lv_promise_expires := until\<rparr>"

definition voter_record_statement :: "lease_voter \<Rightarrow> leader_statement \<Rightarrow> lease_voter result" where
  "voter_record_statement v statement =
     (if ls_leader_id statement < 1 \<or> 2 < ls_leader_id statement \<or> ls_number statement < 1
        then Inl PreconditionAssertion
      else if newer_than statement (lv_recorded_statement v)
        then Inr (v\<lparr>lv_recorded_statement := statement\<rparr>)
      else Inr v)"

definition voter_holds_statement :: "lease_voter \<Rightarrow> leader_statement \<Rightarrow> bool" where
  "voter_holds_statement v statement \<longleftrightarrow> same_as (lv_recorded_statement v) statement"

definition voter_restore_recorded_statement ::
  "lease_voter \<Rightarrow> leader_statement \<Rightarrow> lease_voter" where
  "voter_restore_recorded_statement v statement = v\<lparr>lv_recorded_statement := statement\<rparr>"

definition voter_learn_epoch :: "lease_voter \<Rightarrow> epoch \<Rightarrow> lease_voter" where
  "voter_learn_epoch v epoch =
     (if lv_highest_epoch v < epoch then v\<lparr>lv_highest_epoch := epoch\<rparr> else v)"

lemmas voter_defs [lease_defs] =
  voter_restarting_def promise_live_def voter_may_lead_def hold_for_self_def release_self_def
  promised_elsewhere_def voter_resume_with_kept_promise_def voter_restore_recorded_statement_def
  voter_learn_epoch_def voter_holds_statement_def

text \<open>A statement names a leader and has been numbered: what \<open>record_statement\<close> demands.\<close>

definition valid_statement :: "leader_statement \<Rightarrow> bool" where
  "valid_statement s \<longleftrightarrow> 1 \<le> ls_leader_id s \<and> ls_leader_id s \<le> 2 \<and> 1 \<le> ls_number s"

section \<open>What one decision does\<close>

lemma consider_granted_iff:
  "ans_verdict (fst (voter_consider v c e now)) = Granted \<longleftrightarrow>
     \<not> voter_restarting v now \<and> \<not> lv_held_for_self v \<and>
     (promise_live v now \<longrightarrow> lv_promised_to v = c) \<and> lv_highest_epoch v \<le> e \<and> voter_may_lead v c"
  by (auto simp: voter_consider_def Let_def)

lemma consider_granted_state:
  assumes "ans_verdict (fst (voter_consider v c e now)) = Granted"
  shows "snd (voter_consider v c e now) =
    v\<lparr>lv_promised_to := c, lv_promise_expires := now + lv_lease_period v, lv_highest_epoch := e\<rparr>"
  using assms by (auto simp: voter_consider_def Let_def split: if_splits)

lemma consider_refused_state:
  assumes "ans_verdict (fst (voter_consider v c e now)) \<noteq> Granted"
  shows "snd (voter_consider v c e now) = v"
  using assms by (auto simp: voter_consider_def Let_def)

lemma consider_frame [frame, simp]:
  "lv_lease_period (snd (voter_consider v c e now)) = lv_lease_period v"
  "lv_quiet_until (snd (voter_consider v c e now)) = lv_quiet_until v"
  "lv_held_for_self (snd (voter_consider v c e now)) = lv_held_for_self v"
  "lv_recorded_statement (snd (voter_consider v c e now)) = lv_recorded_statement v"
  by (simp_all add: voter_consider_def Let_def)

lemma consider_answer_epoch:
  "ans_highest_epoch (fst (voter_consider v c e now)) = lv_highest_epoch (snd (voter_consider v c e now))"
  by (simp add: voter_consider_def Let_def)

lemma consider_epoch_mono: "lv_highest_epoch v \<le> lv_highest_epoch (snd (voter_consider v c e now))"
  by (simp add: voter_consider_def Let_def)

lemma record_statement_Inr:
  "voter_record_statement v s = Inr v' \<longleftrightarrow>
     valid_statement s \<and>
     v' = (if newer_than s (lv_recorded_statement v) then v\<lparr>lv_recorded_statement := s\<rparr> else v)"
  by (auto simp: voter_record_statement_def valid_statement_def)

lemma record_statement_frame [frame]:
  assumes "voter_record_statement v s = Inr v'"
  shows "lv_lease_period v' = lv_lease_period v" "lv_quiet_until v' = lv_quiet_until v"
    "lv_promised_to v' = lv_promised_to v" "lv_promise_expires v' = lv_promise_expires v"
    "lv_held_for_self v' = lv_held_for_self v" "lv_highest_epoch v' = lv_highest_epoch v"
  using assms by (simp_all add: record_statement_Inr)

section \<open>The promise a voter is bound by\<close>

text \<open>
  The voter is bound to instance \<open>i\<close> up to the time \<open>x\<close> on its own clock: before \<open>x\<close> it either grants
  nothing, because it is waiting out a lease period after starting, or its vote is promised to \<open>i\<close>.
\<close>

definition voter_bound_to :: "lease_voter \<Rightarrow> instance_id \<Rightarrow> time_point \<Rightarrow> bool" where
  "voter_bound_to v i x \<longleftrightarrow>
     x \<le> lv_quiet_until v \<or> (i \<noteq> 0 \<and> lv_promised_to v = i \<and> x \<le> lv_promise_expires v)"

text \<open>
  What the holder of a lease relies on, as an interface. It is provided by a \<open>LeaseVoter\<close> on its own,
  which is what the witness keeps, and by the vote of the arbiter pool. \<open>decide\<close> is \<open>None\<close> when the voter
  does not answer at all.
\<close>

locale voting =
  fixes period :: duration
    and decide :: "'v \<Rightarrow> instance_id \<Rightarrow> epoch \<Rightarrow> time_point \<Rightarrow> (lease_answer \<times> 'v) option"
    and bound_to :: "'v \<Rightarrow> instance_id \<Rightarrow> time_point \<Rightarrow> bool"
    and restarted :: "'v \<Rightarrow> time_point \<Rightarrow> 'v \<Rightarrow> bool"
    and tended :: "'v \<Rightarrow> 'v \<Rightarrow> bool"
    and ok :: "'v \<Rightarrow> bool"
  assumes refuses_others:
      "ok v \<Longrightarrow> bound_to v i x \<Longrightarrow> now < x \<Longrightarrow> c \<noteq> i \<Longrightarrow> decide v c e now = Some (a, v') \<Longrightarrow>
       ans_verdict a \<noteq> Granted"
    and binds_itself:
      "ok v \<Longrightarrow> c \<noteq> 0 \<Longrightarrow> decide v c e now = Some (a, v') \<Longrightarrow> ans_verdict a = Granted \<Longrightarrow>
       bound_to v' c (now + period)"
    and stays_bound:
      "ok v \<Longrightarrow> bound_to v i x \<Longrightarrow> x \<le> now + period \<Longrightarrow> decide v c e now = Some (a, v') \<Longrightarrow>
       bound_to v' i x \<or> x \<le> now"
    and restart_binds: "ok v \<Longrightarrow> restarted v now v' \<Longrightarrow> bound_to v' i (now + period)"
    and tending_keeps: "ok v \<Longrightarrow> tended v v' \<Longrightarrow> bound_to v i x \<Longrightarrow> bound_to v' i x"
    and bound_earlier: "bound_to v i x \<Longrightarrow> y \<le> x \<Longrightarrow> bound_to v i y"
    and ok_decide: "ok v \<Longrightarrow> decide v c e now = Some (a, v') \<Longrightarrow> ok v'"
    and ok_restarted: "ok v \<Longrightarrow> restarted v now v' \<Longrightarrow> ok v'"
    and ok_tended: "ok v \<Longrightarrow> tended v v' \<Longrightarrow> ok v'"
begin

text \<open>
  A voter that has granted one instance grants no other before the lease period it promised has passed.
\<close>

lemma one_grant_at_a_time:
  assumes "ok v" and "decide v c e now = Some (a, v')" and "ans_verdict a = Granted" and "c \<noteq> 0"
    and "decide v' d e' now' = Some (b, v'')" and "ans_verdict b = Granted" and "now' < now + period"
  shows "d = c"
  using refuses_others [of v' c "now + period" now' d e' b v''] binds_itself [of v c e now a v']
    ok_decide [of v c e now a v'] assms
  by blast

end

lemma voter_refuses_others:
  assumes "voter_bound_to v i x" and "now < x" and "c \<noteq> i"
  shows "ans_verdict (fst (voter_consider v c e now)) \<noteq> Granted"
  using assms
  by (auto simp: consider_granted_iff voter_bound_to_def voter_restarting_def promise_live_def)

lemma voter_binds_itself:
  assumes "ans_verdict (fst (voter_consider v c e now)) = Granted" and "c \<noteq> 0"
  shows "voter_bound_to (snd (voter_consider v c e now)) c (now + lv_lease_period v)"
  using assms by (simp add: consider_granted_state voter_bound_to_def)

lemma voter_stays_bound:
  assumes "voter_bound_to v i x" and "x \<le> now + lv_lease_period v"
  shows "voter_bound_to (snd (voter_consider v c e now)) i x \<or> x \<le> now"
proof (cases "ans_verdict (fst (voter_consider v c e now)) = Granted")
  case True
  then have quiet: "lv_quiet_until v \<le> now"
    by (simp add: consider_granted_iff voter_restarting_def)
  show ?thesis
  proof (cases "c = i")
    case True
    with \<open>ans_verdict _ = Granted\<close> assms quiet show ?thesis
      by (auto simp: consider_granted_state voter_bound_to_def)
  next
    case False
    with True assms voter_refuses_others [of v i x now c e] show ?thesis by force
  qed
next
  case False
  with assms show ?thesis by (simp add: consider_refused_state)
qed

text \<open>
  Everything else the owner of a voter may do to it while it runs: hold or release its own vote,
  learn an epoch, and record or restore a statement. None of it weakens a promise.
\<close>

inductive voter_tended :: "lease_voter \<Rightarrow> lease_voter \<Rightarrow> bool" where
  tend_hold: "voter_tended v (hold_for_self v)"
| tend_release: "voter_tended v (release_self v)"
| tend_learn: "voter_tended v (voter_learn_epoch v e)"
| tend_record: "voter_record_statement v s = Inr v' \<Longrightarrow> voter_tended v v'"
| tend_restore: "voter_tended v (voter_restore_recorded_statement v s)"

lemma tended_frame [frame]:
  assumes "voter_tended v v'"
  shows "lv_lease_period v' = lv_lease_period v" "lv_quiet_until v' = lv_quiet_until v"
    "lv_promised_to v' = lv_promised_to v" "lv_promise_expires v' = lv_promise_expires v"
  using assms by (auto elim!: voter_tended.cases simp: voter_defs record_statement_Inr)

lemma tended_bound:
  "voter_tended v v' \<Longrightarrow> voter_bound_to v' i x = voter_bound_to v i x"
  by (simp add: voter_bound_to_def tended_frame)

inductive voter_restarted :: "duration \<Rightarrow> lease_voter \<Rightarrow> time_point \<Rightarrow> lease_voter \<Rightarrow> bool" where
  "new_voter period now e = Inr v' \<Longrightarrow> voter_restarted period v now v'"

inductive_cases voter_restartedE: "voter_restarted period v now v'"

interpretation lone_voter: voting period
  "\<lambda>v c e now. Some (voter_consider v c e now)" voter_bound_to
  "voter_restarted period" voter_tended "\<lambda>v. lv_lease_period v = period"
  for period
proof unfold_locales
  fix v v' :: lease_voter and i c :: instance_id and x now :: time_point and e :: epoch and a
  show "lv_lease_period v = period \<Longrightarrow> voter_bound_to v i x \<Longrightarrow> now < x \<Longrightarrow> c \<noteq> i \<Longrightarrow>
      Some (voter_consider v c e now) = Some (a, v') \<Longrightarrow> ans_verdict a \<noteq> Granted"
    by (metis fst_conv option.inject voter_refuses_others)
  show "lv_lease_period v = period \<Longrightarrow> c \<noteq> 0 \<Longrightarrow> Some (voter_consider v c e now) = Some (a, v') \<Longrightarrow>
      ans_verdict a = Granted \<Longrightarrow> voter_bound_to v' c (now + period)"
    by (metis fst_conv option.inject snd_conv voter_binds_itself)
  show "lv_lease_period v = period \<Longrightarrow> voter_bound_to v i x \<Longrightarrow> x \<le> now + period \<Longrightarrow>
      Some (voter_consider v c e now) = Some (a, v') \<Longrightarrow> voter_bound_to v' i x \<or> x \<le> now"
    by (metis option.inject snd_conv voter_stays_bound)
  show "voter_restarted period v now v' \<Longrightarrow> voter_bound_to v' i (now + period)"
    by (elim voter_restartedE)
      (auto simp: new_voter_def make_voter_def voter_bound_to_def split: if_splits)
  show "voter_tended v v' \<Longrightarrow> voter_bound_to v i x \<Longrightarrow> voter_bound_to v' i x"
    by (simp add: tended_bound)
  show "voter_bound_to v i x \<Longrightarrow> y \<le> x \<Longrightarrow> voter_bound_to v i y" for y
    by (auto simp: voter_bound_to_def)
  show "lv_lease_period v = period \<Longrightarrow> Some (voter_consider v c e now) = Some (a, v') \<Longrightarrow>
      lv_lease_period v' = period"
    by (metis consider_frame(1) option.inject snd_conv)
  show "voter_restarted period v now v' \<Longrightarrow> lv_lease_period v' = period"
    by (elim voter_restartedE) (auto simp: new_voter_def make_voter_def split: if_splits)
  show "lv_lease_period v = period \<Longrightarrow> voter_tended v v' \<Longrightarrow> lv_lease_period v' = period"
    by (simp add: tended_frame)
qed

end
