(* ===== verification/LeaseHolder.thy ===== *)
theory LeaseHolder
  imports Prelude
begin

text \<open>
  \<open>LeaseHolder.hpp\<close>: an instance's own record of the leases it holds, and so whether it may act as
  leader. The two \<open>std::map\<close> members are ordered lists of bindings.
\<close>

section \<open>State and operations\<close>

datatype holder_state = Idle | Candidate | Leading

datatype holder_event = EventNothing | EventBecameLeader | EventLeaseExtended | EventNewerEpochKnown

record outstanding =
  out_voter_id :: instance_id
  out_sent_at :: time_point

record lease_holder =
  lh_lease_period :: duration
  lh_drift_allowance :: duration
  lh_state :: holder_state
  lh_epoch :: epoch
  lh_last_request_id :: int
  lh_outstanding :: "(int, outstanding) std_map"
  lh_expiries :: "(instance_id, time_point) std_map"

definition make_holder :: "duration \<Rightarrow> duration \<Rightarrow> lease_holder" where
  "make_holder lease_period drift_allowance =
     \<lparr>lh_lease_period = lease_period, lh_drift_allowance = drift_allowance, lh_state = Idle,
      lh_epoch = 0, lh_last_request_id = 0, lh_outstanding = [], lh_expiries = []\<rparr>"

definition new_holder :: "duration \<Rightarrow> duration \<Rightarrow> lease_holder result" where
  "new_holder lease_period drift_allowance =
     (if drift_allowance < 0 \<or> lease_period \<le> drift_allowance then Inl PreconditionAssertion
      else Inr (make_holder lease_period drift_allowance))"

definition begin_candidacy :: "lease_holder \<Rightarrow> epoch \<Rightarrow> lease_holder" where
  "begin_candidacy h epoch =
     h\<lparr>lh_state := Candidate, lh_epoch := epoch, lh_expiries := [], lh_outstanding := []\<rparr>"

definition holder_record_request ::
  "lease_holder \<Rightarrow> instance_id \<Rightarrow> time_point \<Rightarrow> int \<times> lease_holder" where
  "holder_record_request h voter_id now =
     (let kept = sm_keep (\<lambda>r. \<not> lh_lease_period h < now - out_sent_at r) (lh_outstanding h);
          request_id = lh_last_request_id h + 1
      in (request_id,
          h\<lparr>lh_last_request_id := request_id,
            lh_outstanding := sm_put request_id \<lparr>out_voter_id = voter_id, out_sent_at = now\<rparr> kept\<rparr>))"

definition holder_on_grant ::
  "lease_holder \<Rightarrow> instance_id \<Rightarrow> int \<Rightarrow> epoch \<Rightarrow> time_point \<Rightarrow> holder_event \<times> lease_holder" where
  "holder_on_grant h voter_id request_id epoch now =
     (case sm_get (lh_outstanding h) request_id of
        None \<Rightarrow> (EventNothing, h)
      | Some request \<Rightarrow>
          if out_voter_id request \<noteq> voter_id then (EventNothing, h)
          else
            let expires = out_sent_at request + lh_lease_period h - lh_drift_allowance h;
                h1 = h\<lparr>lh_outstanding := sm_erase request_id (lh_outstanding h)\<rparr>
            in if epoch \<noteq> lh_epoch h \<or> lh_state h = Idle \<or> expires \<le> now then (EventNothing, h1)
               else
                 let held = (case sm_get (lh_expiries h) voter_id of None \<Rightarrow> 0 | Some x \<Rightarrow> x);
                     h2 = h1\<lparr>lh_expiries :=
                       sm_put voter_id (if held < expires then expires else held) (lh_expiries h)\<rparr>
                 in if lh_state h = Candidate then (EventBecameLeader, h2\<lparr>lh_state := Leading\<rparr>)
                    else (EventLeaseExtended, h2))"

definition holder_on_refusal :: "lease_holder \<Rightarrow> int \<Rightarrow> epoch \<Rightarrow> holder_event \<times> lease_holder" where
  "holder_on_refusal h request_id highest_epoch =
     (let h1 = h\<lparr>lh_outstanding := sm_erase request_id (lh_outstanding h)\<rparr>
      in (if lh_state h \<noteq> Idle \<and> lh_epoch h < highest_epoch then EventNewerEpochKnown else EventNothing, h1))"

definition holder_lease_expires_at :: "lease_holder \<Rightarrow> time_point" where
  "holder_lease_expires_at h =
     foldl (\<lambda>latest entry. if latest < snd entry then snd entry else latest) 0 (lh_expiries h)"

definition holder_acting :: "lease_holder \<Rightarrow> time_point \<Rightarrow> bool" where
  "holder_acting h now \<longleftrightarrow> lh_state h = Leading \<and> now < holder_lease_expires_at h"

definition holder_stop :: "lease_holder \<Rightarrow> lease_holder" where
  "holder_stop h = h\<lparr>lh_state := Idle, lh_expiries := [], lh_outstanding := []\<rparr>"

section \<open>When the latest lease runs out\<close>

lemma latest_of_less:
  "t < foldl (\<lambda>latest entry. if latest < snd entry then snd entry else latest) z m \<longleftrightarrow>
     t < z \<or> (\<exists>p \<in> set m. t < snd p)"
  for t :: int
  by (induction m arbitrary: z) auto

lemma lease_expires_at_less:
  "t < holder_lease_expires_at h \<longleftrightarrow> t < 0 \<or> (\<exists>v x. (v, x) \<in> set (lh_expiries h) \<and> t < x)"
  by (force simp: holder_lease_expires_at_def latest_of_less)

section \<open>The invariant and what each operation does to it\<close>

text \<open>
  Both maps are well formed, every outstanding request has an id already issued, and an instance
  holds leases exactly while it leads.
\<close>

definition holder_ok :: "lease_holder \<Rightarrow> bool" where
  "holder_ok h \<longleftrightarrow>
     sm_ok (lh_outstanding h) \<and> sm_ok (lh_expiries h) \<and>
     (\<forall>r \<in> fst ` set (lh_outstanding h). r \<le> lh_last_request_id h) \<and>
     (lh_expiries h = [] \<longleftrightarrow> lh_state h \<noteq> Leading)"

lemma sm_put_not_Nil [simp]: "sm_put k v m \<noteq> []"
  by (cases m) (auto split: if_splits)

lemma keep_subset: "set (sm_keep P m) \<subseteq> set m"
  by (auto simp: sm_keep_def)

lemma erase_subset: "set (sm_erase k m) \<subseteq> set m"
  by (auto simp: sm_erase_def)

lemma put_subset: "set (sm_put k v m) \<subseteq> insert (k, v) (set m)"
  by (induction k v m rule: sm_put.induct) auto

lemma holder_ok_make: "holder_ok (make_holder p d)"
  by (simp add: holder_ok_def make_holder_def)

lemma holder_ok_begin: "holder_ok (begin_candidacy h e)"
  by (simp add: holder_ok_def begin_candidacy_def)

lemma holder_ok_stop: "holder_ok (holder_stop h)"
  by (simp add: holder_ok_def holder_stop_def)

lemma holder_ok_request:
  assumes "holder_ok h"
  shows "holder_ok (snd (holder_record_request h v now))"
proof -
  let ?id = "lh_last_request_id h + 1"
  have ids: "\<forall>r \<in> fst ` set (lh_outstanding h). r \<le> ?id"
    using assms by (force simp: holder_ok_def)
  have "set (sm_put ?id rec (sm_keep P (lh_outstanding h))) \<subseteq> insert (?id, rec) (set (lh_outstanding h))"
    for rec P using put_subset keep_subset by (meson insert_mono order_trans)
  with ids have "\<forall>r \<in> fst ` set (sm_put ?id rec (sm_keep P (lh_outstanding h))). r \<le> ?id" for rec P
    by fastforce
  with assms show ?thesis
    by (simp add: holder_ok_def holder_record_request_def Let_def)
qed

lemma holder_ok_grant: "holder_ok h \<Longrightarrow> holder_ok (snd (holder_on_grant h v r e now))"
  using erase_subset [of r "lh_outstanding h"]
  by (cases "lh_state h") (auto simp: holder_ok_def holder_on_grant_def Let_def split: option.splits)

lemma holder_ok_refusal: "holder_ok h \<Longrightarrow> holder_ok (snd (holder_on_refusal h r e))"
  using erase_subset [of r "lh_outstanding h"]
  by (auto simp: holder_ok_def holder_on_refusal_def Let_def)

lemmas holder_ok_intros [intro] =
  holder_ok_make holder_ok_begin holder_ok_stop holder_ok_request holder_ok_grant holder_ok_refusal

lemma holder_frame [frame, simp]:
  "lh_lease_period (begin_candidacy h e) = lh_lease_period h"
  "lh_drift_allowance (begin_candidacy h e) = lh_drift_allowance h"
  "lh_lease_period (snd (holder_record_request h v now)) = lh_lease_period h"
  "lh_drift_allowance (snd (holder_record_request h v now)) = lh_drift_allowance h"
  "lh_state (snd (holder_record_request h v now)) = lh_state h"
  "lh_epoch (snd (holder_record_request h v now)) = lh_epoch h"
  "lh_expiries (snd (holder_record_request h v now)) = lh_expiries h"
  "lh_lease_period (snd (holder_on_grant h v r e now)) = lh_lease_period h"
  "lh_drift_allowance (snd (holder_on_grant h v r e now)) = lh_drift_allowance h"
  "lh_epoch (snd (holder_on_grant h v r e now)) = lh_epoch h"
  "lh_last_request_id (snd (holder_on_grant h v r e now)) = lh_last_request_id h"
  "lh_lease_period (snd (holder_on_refusal h r e)) = lh_lease_period h"
  "lh_drift_allowance (snd (holder_on_refusal h r e)) = lh_drift_allowance h"
  "lh_state (snd (holder_on_refusal h r e)) = lh_state h"
  "lh_epoch (snd (holder_on_refusal h r e)) = lh_epoch h"
  "lh_expiries (snd (holder_on_refusal h r e)) = lh_expiries h"
  "lh_last_request_id (snd (holder_on_refusal h r e)) = lh_last_request_id h"
  "lh_lease_period (holder_stop h) = lh_lease_period h"
  "lh_drift_allowance (holder_stop h) = lh_drift_allowance h"
  "lh_last_request_id (holder_stop h) = lh_last_request_id h"
  "lh_epoch (holder_stop h) = lh_epoch h"
  "lh_state (holder_stop h) = Idle"
  "lh_state (begin_candidacy h e) = Candidate"
  "lh_epoch (begin_candidacy h e) = e"
  "lh_last_request_id (begin_candidacy h e) = lh_last_request_id h"
  by (simp_all add: begin_candidacy_def holder_record_request_def holder_on_grant_def
      holder_on_refusal_def holder_stop_def Let_def split: option.split)

text \<open>
  A grant changes what the holder believes in one way only: it matches an outstanding request to
  that voter, it is for the present epoch, and the lease it gives is counted from the moment the
  request was sent.
\<close>

lemma on_grant_cases:
  obtains (ignored) "snd (holder_on_grant h v r e now) = h" "fst (holder_on_grant h v r e now) = EventNothing"
  | (late) "snd (holder_on_grant h v r e now) = h\<lparr>lh_outstanding := sm_erase r (lh_outstanding h)\<rparr>"
      "fst (holder_on_grant h v r e now) = EventNothing"
  | (taken) req x where "sm_get (lh_outstanding h) r = Some req" "out_voter_id req = v" "e = lh_epoch h"
      "lh_state h \<noteq> Idle" "now < out_sent_at req + lh_lease_period h - lh_drift_allowance h"
      "x = max (case sm_get (lh_expiries h) v of None \<Rightarrow> 0 | Some y \<Rightarrow> y)
             (out_sent_at req + lh_lease_period h - lh_drift_allowance h)"
      "snd (holder_on_grant h v r e now) =
         h\<lparr>lh_outstanding := sm_erase r (lh_outstanding h), lh_expiries := sm_put v x (lh_expiries h),
           lh_state := Leading\<rparr>"
      "fst (holder_on_grant h v r e now) =
         (if lh_state h = Candidate then EventBecameLeader else EventLeaseExtended)"
proof (cases "sm_get (lh_outstanding h) r")
  case None
  with ignored show ?thesis by (simp add: holder_on_grant_def)
next
  case (Some req)
  let ?expires = "out_sent_at req + lh_lease_period h - lh_drift_allowance h"
  consider "out_voter_id req \<noteq> v"
    | "out_voter_id req = v" "e \<noteq> lh_epoch h \<or> lh_state h = Idle \<or> ?expires \<le> now"
    | "out_voter_id req = v" "e = lh_epoch h" "lh_state h \<noteq> Idle" "now < ?expires"
    by force
  then show ?thesis
  proof cases
    case 1
    with Some ignored show ?thesis by (simp add: holder_on_grant_def)
  next
    case 2
    with Some late show ?thesis by (simp add: holder_on_grant_def Let_def)
  next
    case 3
    define held where "held = (case sm_get (lh_expiries h) v of None \<Rightarrow> 0 | Some y \<Rightarrow> y)"
    have m: "(if held < ?expires then ?expires else held) = max held ?expires" by (simp add: max_def)
    from 3 have st: "lh_state h = Candidate \<or> lh_state h = Leading" by (cases "lh_state h") auto
    have s: "snd (holder_on_grant h v r e now) =
         h\<lparr>lh_outstanding := sm_erase r (lh_outstanding h),
           lh_expiries := sm_put v (max held ?expires) (lh_expiries h), lh_state := Leading\<rparr>"
      using Some 3 st m by (auto simp: holder_on_grant_def Let_def held_def)
    have f: "fst (holder_on_grant h v r e now) =
         (if lh_state h = Candidate then EventBecameLeader else EventLeaseExtended)"
      using Some 3 by (auto simp: holder_on_grant_def Let_def)
    show ?thesis by (rule taken [OF Some 3 refl]) (use s f in \<open>simp_all add: held_def\<close>)
  qed
qed

end
