(* ===== verification/LeaseParticipant.thy ===== *)
theory LeaseParticipant
  imports LeaseVoter LeaseHolder
begin

text \<open>
  \<open>LeaseParticipant.hpp\<close>: one instance of a pair, which both votes and may lead, and the rules that
  join its voter to its lease holder. An operation that can throw returns a \<open>result\<close>; the others
  are total.
\<close>

section \<open>State and operations\<close>

datatype peer_statements = PeerAlwaysMayLead | SayWhetherPeerMayLead | SayWhenPeerMayNotLead

record lease_participant =
  lp_self_id :: instance_id
  lp_voter :: lease_voter
  lp_holder :: lease_holder
  lp_wait_until :: time_point
  lp_peer_statements :: peer_statements
  lp_statement :: leader_statement
  lp_echoed_by_peer :: int
  lp_held_by_arbiter :: "int \<times> int"
  lp_held_alone :: int

record peer_request_outcome =
  pro_answer :: lease_answer
  pro_gave_up_asking_to_lead :: bool

definition make_participant ::
  "instance_id \<Rightarrow> duration \<Rightarrow> duration \<Rightarrow> time_point \<Rightarrow> epoch \<Rightarrow> peer_statements \<Rightarrow> lease_participant" where
  "make_participant self_id lease_period drift_allowance started_at persisted_epoch peer_statements =
     \<lparr>lp_self_id = self_id, lp_voter = make_voter lease_period started_at persisted_epoch,
      lp_holder = make_holder lease_period drift_allowance, lp_wait_until = 0,
      lp_peer_statements = peer_statements, lp_statement = no_statement, lp_echoed_by_peer = 0,
      lp_held_by_arbiter = (0, 0), lp_held_alone = 0\<rparr>"

definition new_participant ::
  "instance_id \<Rightarrow> duration \<Rightarrow> duration \<Rightarrow> time_point \<Rightarrow> epoch \<Rightarrow> peer_statements \<Rightarrow>
   lease_participant result" where
  "new_participant self_id lease_period drift_allowance started_at persisted_epoch peer_statements =
     bind_result (new_voter lease_period started_at persisted_epoch) (\<lambda>_.
     bind_result (new_holder lease_period drift_allowance) (\<lambda>_.
       Inr (make_participant self_id lease_period drift_allowance started_at persisted_epoch peer_statements)))"

definition on_peer_request ::
  "lease_participant \<Rightarrow> instance_id \<Rightarrow> epoch \<Rightarrow> time_point \<Rightarrow> peer_request_outcome \<times> lease_participant" where
  "on_peer_request p candidate_id epoch now =
     (let give_up = lh_state (lp_holder p) = Candidate \<and> lh_epoch (lp_holder p) < epoch \<and>
                    \<not> voter_restarting (lp_voter p) now;
          p1 = (if give_up then p\<lparr>lp_holder := holder_stop (lp_holder p), lp_voter := release_self (lp_voter p)\<rparr>
                else p);
          (answer, v) = voter_consider (lp_voter p1) candidate_id epoch now
      in (\<lparr>pro_answer = answer, pro_gave_up_asking_to_lead = give_up\<rparr>, p1\<lparr>lp_voter := v\<rparr>))"

definition may_ask_to_lead :: "lease_participant \<Rightarrow> time_point \<Rightarrow> bool" where
  "may_ask_to_lead p now \<longleftrightarrow>
     lh_state (lp_holder p) = Idle \<and> \<not> voter_restarting (lp_voter p) now \<and>
     \<not> promised_elsewhere (lp_voter p) (lp_self_id p) now \<and> lp_wait_until p \<le> now \<and>
     voter_may_lead (lp_voter p) (lp_self_id p)"

definition begin_asking_to_lead :: "lease_participant \<Rightarrow> (epoch \<times> lease_participant) result" where
  "begin_asking_to_lead p =
     bind_result (next_for (lv_highest_epoch (lp_voter p)) (lp_self_id p)) (\<lambda>epoch.
       Inr (epoch, p\<lparr>lp_holder := begin_candidacy (lp_holder p) epoch, lp_voter := hold_for_self (lp_voter p)\<rparr>))"

definition record_request :: "lease_participant \<Rightarrow> instance_id \<Rightarrow> time_point \<Rightarrow> int \<times> lease_participant" where
  "record_request p voter_id now =
     (let (request_id, h) = holder_record_request (lp_holder p) voter_id now
      in (request_id, p\<lparr>lp_holder := h\<rparr>))"

definition participant_on_grant ::
  "lease_participant \<Rightarrow> instance_id \<Rightarrow> int \<Rightarrow> epoch \<Rightarrow> time_point \<Rightarrow> (holder_event \<times> lease_participant) result" where
  "participant_on_grant p voter_id request_id epoch now =
     (let (event, h) = holder_on_grant (lp_holder p) voter_id request_id epoch now;
          p1 = p\<lparr>lp_holder := h\<rparr>
      in if event = EventBecameLeader then
           let p2 = p1\<lparr>lp_voter := voter_learn_epoch (lp_voter p1) epoch\<rparr>
           in if lp_peer_statements p \<noteq> PeerAlwaysMayLead then
                let statement = \<lparr>ls_leader_id = lp_self_id p, ls_epoch = epoch, ls_number = 1,
                                 ls_peer_may_lead = (lp_peer_statements p = SayWhenPeerMayNotLead)\<rparr>
                in bind_result (voter_record_statement (lp_voter p2) statement) (\<lambda>v.
                     Inr (event, p2\<lparr>lp_statement := statement, lp_echoed_by_peer := 0,
                                   lp_held_by_arbiter := (0, 0), lp_held_alone := 0, lp_voter := v\<rparr>))
              else Inr (event, p2)
         else Inr (event, p1))"

definition note_echo_from_peer :: "lease_participant \<Rightarrow> epoch \<Rightarrow> int \<Rightarrow> lease_participant" where
  "note_echo_from_peer p epoch number =
     (if lh_state (lp_holder p) = Leading \<and> epoch = lh_epoch (lp_holder p) \<and> lp_echoed_by_peer p < number
      then p\<lparr>lp_echoed_by_peer := number\<rparr> else p)"

definition note_held_by_arbiter ::
  "lease_participant \<Rightarrow> instance_id \<Rightarrow> leader_statement \<Rightarrow> bool \<Rightarrow> lease_participant" where
  "note_held_by_arbiter p arbiter_instance_id held alone =
     (if arbiter_instance_id \<noteq> 1 \<and> arbiter_instance_id \<noteq> 2 then p
      else if lh_state (lp_holder p) \<noteq> Leading \<or> ls_leader_id held \<noteq> lp_self_id p \<or>
              ls_epoch held \<noteq> lh_epoch (lp_holder p) then p
      else
        let (first, second) = lp_held_by_arbiter p;
            p1 = (if arbiter_instance_id = 1
                  then p\<lparr>lp_held_by_arbiter := (max first (ls_number held), second)\<rparr>
                  else p\<lparr>lp_held_by_arbiter := (first, max second (ls_number held))\<rparr>)
        in if alone \<and> lp_held_alone p1 < ls_number held then p1\<lparr>lp_held_alone := ls_number held\<rparr> else p1)"

definition require_leading :: "lease_participant \<Rightarrow> lease_participant result" where
  "require_leading p =
     (if lp_peer_statements p = PeerAlwaysMayLead then Inl PreconditionAssertion
      else if lh_state (lp_holder p) \<noteq> Leading then Inl PreconditionAssertion
      else Inr p)"

text \<open>The part shared by the two calls that change what a leader says: the next number, recorded at once.\<close>

definition change_statement :: "lease_participant \<Rightarrow> bool \<Rightarrow> lease_participant result" where
  "change_statement p peer_may_lead =
     (let statement = (lp_statement p)\<lparr>ls_number := ls_number (lp_statement p) + 1,
                                       ls_peer_may_lead := peer_may_lead\<rparr>
      in bind_result (voter_record_statement (lp_voter p) statement) (\<lambda>v.
           Inr (p\<lparr>lp_statement := statement, lp_voter := v\<rparr>)))"

definition say_peer_may_not_lead :: "lease_participant \<Rightarrow> lease_participant result" where
  "say_peer_may_not_lead p =
     bind_result (require_leading p) (\<lambda>p.
       if \<not> ls_peer_may_lead (lp_statement p) then Inr p else change_statement p False)"

definition say_peer_may_lead :: "lease_participant \<Rightarrow> lease_participant result" where
  "say_peer_may_lead p =
     bind_result (require_leading p) (\<lambda>p.
       if ls_peer_may_lead (lp_statement p) then Inr p else change_statement p True)"

definition begin_running_without_peer :: "lease_participant \<Rightarrow> lease_participant result" where
  "begin_running_without_peer p = bind_result (require_leading p) say_peer_may_not_lead"

definition peer_holds_everything :: "lease_participant \<Rightarrow> lease_participant result" where
  "peer_holds_everything p = bind_result (require_leading p) say_peer_may_lead"

definition may_act_without_peer :: "lease_participant \<Rightarrow> bool" where
  "may_act_without_peer p \<longleftrightarrow>
     (let number = ls_number (lp_statement p);
          held_elsewhere = number \<le> lp_echoed_by_peer p \<or>
            (number \<le> fst (lp_held_by_arbiter p) \<and> number \<le> snd (lp_held_by_arbiter p)) \<or>
            number \<le> lp_held_alone p
      in lh_state (lp_holder p) = Leading \<and> \<not> ls_peer_may_lead (lp_statement p) \<and> held_elsewhere \<and>
         voter_holds_statement (lp_voter p) (lp_statement p))"

definition record_peer_statement :: "lease_participant \<Rightarrow> leader_statement \<Rightarrow> (int \<times> lease_participant) result" where
  "record_peer_statement p statement =
     bind_result (voter_record_statement (lp_voter p) statement) (\<lambda>v.
       Inr (if voter_holds_statement v statement then ls_number statement else 0, p\<lparr>lp_voter := v\<rparr>))"

definition restore_recorded_statement :: "lease_participant \<Rightarrow> leader_statement \<Rightarrow> lease_participant" where
  "restore_recorded_statement p statement =
     p\<lparr>lp_voter := voter_restore_recorded_statement (lp_voter p) statement\<rparr>"

definition participant_stop :: "lease_participant \<Rightarrow> time_point \<Rightarrow> duration \<Rightarrow> lease_participant" where
  "participant_stop p now wait_before_asking_again =
     p\<lparr>lp_holder := holder_stop (lp_holder p), lp_voter := release_self (lp_voter p),
       lp_wait_until := now + wait_before_asking_again\<rparr>"

definition participant_on_refusal ::
  "lease_participant \<Rightarrow> int \<Rightarrow> epoch \<Rightarrow> time_point \<Rightarrow> duration \<Rightarrow> holder_event \<times> lease_participant" where
  "participant_on_refusal p request_id highest_epoch now wait_before_asking_again =
     (let (event, h) = holder_on_refusal (lp_holder p) request_id highest_epoch;
          p1 = p\<lparr>lp_holder := h, lp_voter := voter_learn_epoch (lp_voter p) highest_epoch\<rparr>
      in (event, if event = EventNewerEpochKnown then participant_stop p1 now wait_before_asking_again else p1))"

definition participant_acting :: "lease_participant \<Rightarrow> time_point \<Rightarrow> bool" where
  "participant_acting p now \<longleftrightarrow> holder_acting (lp_holder p) now"

definition stop_if_lease_ran_out :: "lease_participant \<Rightarrow> time_point \<Rightarrow> bool \<times> lease_participant" where
  "stop_if_lease_ran_out p now =
     (if lh_state (lp_holder p) \<noteq> Leading \<or> holder_acting (lp_holder p) now then (False, p)
      else (True, p\<lparr>lp_holder := holder_stop (lp_holder p), lp_voter := release_self (lp_voter p)\<rparr>))"

definition resume_with_kept_promise ::
  "lease_participant \<Rightarrow> instance_id \<Rightarrow> time_point \<Rightarrow> time_point \<Rightarrow> lease_participant" where
  "resume_with_kept_promise p promised_to until now =
     p\<lparr>lp_voter := voter_resume_with_kept_promise (lp_voter p) promised_to until now\<rparr>"

section \<open>The invariant that joins voter and holder\<close>

text \<open>
  An instance that leads or asks to lead has voted for itself, its epoch records its own id, and its
  voter and its holder count the same lease period.
\<close>

definition participant_ok :: "lease_participant \<Rightarrow> bool" where
  "participant_ok p \<longleftrightarrow>
     holder_ok (lp_holder p) \<and> lv_lease_period (lp_voter p) = lh_lease_period (lp_holder p) \<and>
     (lp_self_id p = 1 \<or> lp_self_id p = 2) \<and>
     (lv_held_for_self (lp_voter p) \<longleftrightarrow> lh_state (lp_holder p) \<noteq> Idle) \<and>
     (lh_state (lp_holder p) \<noteq> Idle \<longrightarrow> lh_epoch (lp_holder p) mod 4 = lp_self_id p)"

text \<open>
  What an instance does between messages that carry a lease, on its own clock at \<open>now\<close>: it starts
  asking when it may, changes or records what is said about which instance may lead, takes a refusal,
  gives up, or finds its lease has run out.
\<close>

inductive participant_local :: "time_point \<Rightarrow> lease_participant \<Rightarrow> lease_participant \<Rightarrow> bool" for now where
  local_ask: "may_ask_to_lead p now \<Longrightarrow> begin_asking_to_lead p = Inr (e, p') \<Longrightarrow> participant_local now p p'"
| local_echo: "participant_local now p (note_echo_from_peer p e n)"
| local_held: "participant_local now p (note_held_by_arbiter p a st alone)"
| local_say_not: "say_peer_may_not_lead p = Inr p' \<Longrightarrow> participant_local now p p'"
| local_say: "say_peer_may_lead p = Inr p' \<Longrightarrow> participant_local now p p'"
| local_record: "record_peer_statement p st = Inr (n, p') \<Longrightarrow> participant_local now p p'"
| local_refusal: "participant_on_refusal p r e now w = (ev, p') \<Longrightarrow> participant_local now p p'"
| local_stop: "participant_local now p (participant_stop p now w)"
| local_ran_out: "stop_if_lease_ran_out p now = (b, p') \<Longrightarrow> participant_local now p p'"

text \<open>The promise is the same and no lease or outstanding request has been gained.\<close>

definition gains_nothing :: "lease_participant \<Rightarrow> lease_participant \<Rightarrow> bool" where
  "gains_nothing p p' \<longleftrightarrow>
     lp_self_id p' = lp_self_id p \<and>
     lh_lease_period (lp_holder p') = lh_lease_period (lp_holder p) \<and>
     lh_drift_allowance (lp_holder p') = lh_drift_allowance (lp_holder p) \<and>
     lh_last_request_id (lp_holder p') = lh_last_request_id (lp_holder p) \<and>
     lv_lease_period (lp_voter p') = lv_lease_period (lp_voter p) \<and>
     lv_quiet_until (lp_voter p') = lv_quiet_until (lp_voter p) \<and>
     lv_promised_to (lp_voter p') = lv_promised_to (lp_voter p) \<and>
     lv_promise_expires (lp_voter p') = lv_promise_expires (lp_voter p) \<and>
     set (lh_outstanding (lp_holder p')) \<subseteq> set (lh_outstanding (lp_holder p)) \<and>
     set (lh_expiries (lp_holder p')) \<subseteq> set (lh_expiries (lp_holder p))"

lemma gains_nothing_refl: "gains_nothing p p"
  by (simp add: gains_nothing_def)

lemma gains_nothing_bound:
  "gains_nothing p p' \<Longrightarrow> voter_bound_to (lp_voter p') i x = voter_bound_to (lp_voter p) i x"
  by (simp add: gains_nothing_def voter_bound_to_def)

text \<open>Changing a statement touches the statement and what the voter has recorded, nothing else.\<close>

lemma record_statement_participant:
  assumes "voter_record_statement (lp_voter p) st = Inr v"
  shows "gains_nothing p (p\<lparr>lp_voter := v\<rparr>)" and "participant_ok (p\<lparr>lp_voter := v\<rparr>) = participant_ok p"
  using record_statement_frame [OF assms] by (simp_all add: gains_nothing_def participant_ok_def)

lemma statement_irrelevant [simp]:
  "gains_nothing p (q\<lparr>lp_statement := st\<rparr>) = gains_nothing p q"
  "gains_nothing p (q\<lparr>lp_echoed_by_peer := n\<rparr>) = gains_nothing p q"
  "gains_nothing p (q\<lparr>lp_held_by_arbiter := ns\<rparr>) = gains_nothing p q"
  "gains_nothing p (q\<lparr>lp_held_alone := n\<rparr>) = gains_nothing p q"
  "gains_nothing p (q\<lparr>lp_wait_until := w\<rparr>) = gains_nothing p q"
  "participant_ok (q\<lparr>lp_statement := st\<rparr>) = participant_ok q"
  "participant_ok (q\<lparr>lp_echoed_by_peer := n\<rparr>) = participant_ok q"
  "participant_ok (q\<lparr>lp_held_by_arbiter := ns\<rparr>) = participant_ok q"
  "participant_ok (q\<lparr>lp_held_alone := n\<rparr>) = participant_ok q"
  "participant_ok (q\<lparr>lp_wait_until := w\<rparr>) = participant_ok q"
  by (simp_all add: gains_nothing_def participant_ok_def)

lemma change_statement_ok:
  assumes "change_statement p b = Inr p'"
  shows "gains_nothing p p' \<and> participant_ok p' = participant_ok p \<and>
    lh_state (lp_holder p') = lh_state (lp_holder p)"
proof -
  obtain st v where v: "voter_record_statement (lp_voter p) st = Inr v"
    and p': "p' = (p\<lparr>lp_voter := v\<rparr>)\<lparr>lp_statement := st\<rparr>"
    using assms by (auto simp: change_statement_def Let_def bind_result_eq_Inr)
  show ?thesis unfolding p' using record_statement_participant [OF v] by simp
qed

lemma stopped_participant:
  assumes "participant_ok p"
  shows "gains_nothing p (p\<lparr>lp_holder := holder_stop (lp_holder p), lp_voter := release_self (lp_voter p)\<rparr>)"
    and "participant_ok (p\<lparr>lp_holder := holder_stop (lp_holder p), lp_voter := release_self (lp_voter p)\<rparr>)"
  using assms
  by (auto simp: gains_nothing_def participant_ok_def release_self_def holder_stop_def holder_ok_def)

lemma participant_stop_ok:
  assumes "participant_ok p"
  shows "gains_nothing p (participant_stop p now w) \<and> participant_ok (participant_stop p now w) \<and>
    lh_state (lp_holder (participant_stop p now w)) = Idle"
  using stopped_participant [OF assms] by (simp add: participant_stop_def)

lemma on_refusal_ok:
  assumes "participant_ok p"
  shows "gains_nothing p (snd (participant_on_refusal p r e now w)) \<and>
    participant_ok (snd (participant_on_refusal p r e now w)) \<and>
    (lh_state (lp_holder (snd (participant_on_refusal p r e now w))) \<noteq> Idle \<longrightarrow> lh_state (lp_holder p) \<noteq> Idle)"
proof -
  define q where "q = p\<lparr>lp_holder := snd (holder_on_refusal (lp_holder p) r e),
    lp_voter := voter_learn_epoch (lp_voter p) e\<rparr>"
  have out: "lh_outstanding (snd (holder_on_refusal (lp_holder p) r e)) = sm_erase r (lh_outstanding (lp_holder p))"
    by (simp add: holder_on_refusal_def Let_def)
  have "gains_nothing p q"
    using erase_subset [of r "lh_outstanding (lp_holder p)"] out
    by (simp add: q_def gains_nothing_def voter_learn_epoch_def)
  moreover have "participant_ok q"
    using assms holder_ok_refusal [of "lp_holder p" r e]
    by (simp add: q_def participant_ok_def voter_learn_epoch_def)
  moreover have "lh_state (lp_holder q) = lh_state (lp_holder p)" by (simp add: q_def)
  ultimately have q: "gains_nothing p q" "participant_ok q" "lh_state (lp_holder q) = lh_state (lp_holder p)"
    by blast+
  have "snd (participant_on_refusal p r e now w) =
      (if fst (holder_on_refusal (lp_holder p) r e) = EventNewerEpochKnown then participant_stop q now w else q)"
    by (simp add: participant_on_refusal_def q_def split_beta)
  moreover have "gains_nothing p (participant_stop q now w)"
    using q(1) participant_stop_ok [OF q(2), of now w] by (auto simp: gains_nothing_def)
  ultimately show ?thesis using q participant_stop_ok [OF q(2), of now w] by auto
qed

lemma begin_asking_ok:
  assumes "participant_ok p" and "begin_asking_to_lead p = Inr (e, p')"
  shows "gains_nothing p p'" and "participant_ok p'" and "lh_state (lp_holder p') = Candidate"
proof -
  from assms(2) have nx: "next_for (lv_highest_epoch (lp_voter p)) (lp_self_id p) = Inr e"
    and p': "p' = p\<lparr>lp_holder := begin_candidacy (lp_holder p) e, lp_voter := hold_for_self (lp_voter p)\<rparr>"
    by (auto simp: begin_asking_to_lead_def bind_result_eq_Inr)
  show "gains_nothing p p'" by (simp add: p' gains_nothing_def hold_for_self_def begin_candidacy_def)
  show "participant_ok p'"
    using assms(1) next_for_Inr(5) [OF nx] holder_ok_begin
    by (simp add: p' participant_ok_def hold_for_self_def)
  show "lh_state (lp_holder p') = Candidate" by (simp add: p')
qed

text \<open>
  Every local step keeps the invariant and gains nothing, and only asking when it may leads an idle
  instance to stop being idle.
\<close>

lemma participant_local_ok:
  assumes "participant_local now p p'" and "participant_ok p"
  shows "gains_nothing p p' \<and> participant_ok p' \<and>
    (lh_state (lp_holder p') \<noteq> Idle \<longrightarrow> lh_state (lp_holder p) \<noteq> Idle \<or> may_ask_to_lead p now)"
  using assms(1)
proof cases
  case (local_ask e)
  with begin_asking_ok [OF assms(2)] show ?thesis by blast
next
  case (local_echo e n)
  with assms(2) show ?thesis by (auto simp: note_echo_from_peer_def gains_nothing_refl)
next
  case (local_held a st alone)
  with assms(2) show ?thesis
    by (cases "lp_held_by_arbiter p") (auto simp: note_held_by_arbiter_def Let_def gains_nothing_refl)
next
  case local_say_not
  with assms(2) show ?thesis
    by (auto simp: say_peer_may_not_lead_def require_leading_def gains_nothing_refl
        split: if_splits dest: change_statement_ok)
next
  case local_say
  with assms(2) show ?thesis
    by (auto simp: say_peer_may_lead_def require_leading_def gains_nothing_refl
        split: if_splits dest: change_statement_ok)
next
  case (local_record st n)
  then obtain v where "voter_record_statement (lp_voter p) st = Inr v" "p' = p\<lparr>lp_voter := v\<rparr>"
    by (auto simp: record_peer_statement_def bind_result_eq_Inr)
  with assms(2) show ?thesis by (simp add: record_statement_participant)
next
  case (local_refusal r e w ev)
  with on_refusal_ok [OF assms(2), of r e now w] show ?thesis by auto
next
  case (local_stop w)
  with participant_stop_ok [OF assms(2)] show ?thesis by auto
next
  case (local_ran_out b)
  with stopped_participant [OF assms(2)] assms(2) show ?thesis
    by (auto simp: stop_if_lease_ran_out_def gains_nothing_refl split: if_splits)
qed

section \<open>The three operations that carry leases\<close>

lemma gains_nothing_trans: "gains_nothing p q \<Longrightarrow> gains_nothing q r \<Longrightarrow> gains_nothing p r"
  by (auto simp: gains_nothing_def)

text \<open>The instance as it stands when its voter decides the peer's request: it may have given up asking first.\<close>

definition gave_way :: "lease_participant \<Rightarrow> epoch \<Rightarrow> time_point \<Rightarrow> lease_participant" where
  "gave_way p epoch now =
     (if lh_state (lp_holder p) = Candidate \<and> lh_epoch (lp_holder p) < epoch \<and> \<not> voter_restarting (lp_voter p) now
      then p\<lparr>lp_holder := holder_stop (lp_holder p), lp_voter := release_self (lp_voter p)\<rparr> else p)"

lemma on_peer_request_alt:
  "on_peer_request p c e now =
     (\<lparr>pro_answer = fst (voter_consider (lp_voter (gave_way p e now)) c e now),
       pro_gave_up_asking_to_lead =
         (lh_state (lp_holder p) = Candidate \<and> lh_epoch (lp_holder p) < e \<and> \<not> voter_restarting (lp_voter p) now)\<rparr>,
      (gave_way p e now)\<lparr>lp_voter := snd (voter_consider (lp_voter (gave_way p e now)) c e now)\<rparr>)"
  by (simp add: on_peer_request_def gave_way_def Let_def split_beta)

lemma gave_way_ok:
  assumes "participant_ok p"
  shows "gains_nothing p (gave_way p e now)" and "participant_ok (gave_way p e now)"
    and "lh_state (lp_holder (gave_way p e now)) \<noteq> Idle \<Longrightarrow> lh_state (lp_holder p) \<noteq> Idle"
  using stopped_participant [OF assms] assms by (auto simp: gave_way_def gains_nothing_refl)

lemma on_peer_request_ok:
  assumes "participant_ok p" and "on_peer_request p c e now = (outcome, p')"
  shows "participant_ok p'" and "lp_self_id p' = lp_self_id p"
    and "lh_lease_period (lp_holder p') = lh_lease_period (lp_holder p)"
    and "lh_drift_allowance (lp_holder p') = lh_drift_allowance (lp_holder p)"
    and "lh_last_request_id (lp_holder p') = lh_last_request_id (lp_holder p)"
    and "set (lh_outstanding (lp_holder p')) \<subseteq> set (lh_outstanding (lp_holder p))"
    and "set (lh_expiries (lp_holder p')) \<subseteq> set (lh_expiries (lp_holder p))"
    and "lh_state (lp_holder p') \<noteq> Idle \<Longrightarrow> lh_state (lp_holder p) \<noteq> Idle"
  using gave_way_ok [OF assms(1), of e now] assms(2)
  by (auto simp: on_peer_request_alt gains_nothing_def participant_ok_def)

lemma on_peer_request_bound:
  assumes "participant_ok p" and "on_peer_request p c e now = (outcome, p')"
    and "voter_bound_to (lp_voter p) i x" and "x \<le> now + lh_lease_period (lp_holder p)"
  shows "voter_bound_to (lp_voter p') i x \<or> x \<le> now"
proof -
  let ?q = "gave_way p e now"
  note q = gave_way_ok [OF assms(1), of e now]
  have b: "voter_bound_to (lp_voter ?q) i x" using assms(3) gains_nothing_bound [OF q(1)] by simp
  have "x \<le> now + lv_lease_period (lp_voter ?q)"
    using assms(1,4) q(1) by (simp add: gains_nothing_def participant_ok_def)
  from voter_stays_bound [OF b this] assms(2) show ?thesis
    by (auto simp: on_peer_request_alt)
qed

text \<open>
  A grant to the peer is made only by an instance that neither leads nor asks to lead, whose vote is
  not bound to anyone else, and it binds the vote for a lease period.
\<close>

lemma on_peer_request_granted:
  assumes "participant_ok p" and "on_peer_request p c e now = (outcome, p')"
    and "ans_verdict (pro_answer outcome) = Granted" and "c \<noteq> 0"
  shows "lh_state (lp_holder p') = Idle"
    and "voter_bound_to (lp_voter p') c (now + lh_lease_period (lp_holder p))"
    and "voter_bound_to (lp_voter p) i x \<Longrightarrow> now < x \<Longrightarrow> i = c"
proof -
  let ?q = "gave_way p e now"
  note q = gave_way_ok [OF assms(1), of e now]
  from assms(2,3) have g: "ans_verdict (fst (voter_consider (lp_voter ?q) c e now)) = Granted"
    and p': "p' = ?q\<lparr>lp_voter := snd (voter_consider (lp_voter ?q) c e now)\<rparr>"
    by (auto simp: on_peer_request_alt)
  from g have "\<not> lv_held_for_self (lp_voter ?q)" by (simp add: consider_granted_iff)
  with q(2) p' show "lh_state (lp_holder p') = Idle" by (simp add: participant_ok_def)
  have "lv_lease_period (lp_voter ?q) = lh_lease_period (lp_holder p)"
    using q assms(1) by (simp add: participant_ok_def gains_nothing_def)
  with voter_binds_itself [OF g assms(4)] p'
  show "voter_bound_to (lp_voter p') c (now + lh_lease_period (lp_holder p))" by simp
  show "voter_bound_to (lp_voter p) i x \<Longrightarrow> now < x \<Longrightarrow> i = c"
    using voter_refuses_others [of "lp_voter ?q" i x now c e] g gains_nothing_bound [OF q(1)] by blast
qed

lemma record_request_ok:
  assumes "participant_ok p" and "record_request p v now = (r, p')"
  shows "participant_ok p'" and "lp_voter p' = lp_voter p" and "lp_self_id p' = lp_self_id p"
    and "lh_lease_period (lp_holder p') = lh_lease_period (lp_holder p)"
    and "lh_drift_allowance (lp_holder p') = lh_drift_allowance (lp_holder p)"
    and "lh_state (lp_holder p') = lh_state (lp_holder p)"
    and "lh_epoch (lp_holder p') = lh_epoch (lp_holder p)"
    and "lh_expiries (lp_holder p') = lh_expiries (lp_holder p)"
    and "r = lh_last_request_id (lp_holder p) + 1" and "lh_last_request_id (lp_holder p') = r"
  using assms holder_ok_request [of "lp_holder p" v now]
  by (auto simp: record_request_def participant_ok_def split_beta)
    (auto simp: holder_record_request_def Let_def)

lemma record_request_outstanding:
  assumes "participant_ok p" and "record_request p v now = (r, p')"
    and "sm_get (lh_outstanding (lp_holder p')) r' = Some out"
  shows "(r' = r \<and> out = \<lparr>out_voter_id = v, out_sent_at = now\<rparr>) \<or>
    sm_get (lh_outstanding (lp_holder p)) r' = Some out"
proof -
  have ok: "sm_ok (lh_outstanding (lp_holder p))"
    using assms(1) by (simp add: participant_ok_def holder_ok_def)
  let ?kept = "sm_keep (\<lambda>r. \<not> lh_lease_period (lp_holder p) < now - out_sent_at r) (lh_outstanding (lp_holder p))"
  have out: "lh_outstanding (lp_holder p') = sm_put r \<lparr>out_voter_id = v, out_sent_at = now\<rparr> ?kept"
    using assms(2) by (auto simp: record_request_def holder_record_request_def Let_def)
  show ?thesis
  proof (cases "r' = r")
    case True
    with assms(3) out show ?thesis by simp
  next
    case False
    with assms(3) out have "sm_get ?kept r' = Some out" by simp
    from sm_get_keep_SomeD [OF this] sm_get_iff_mem [OF ok] show ?thesis by simp
  qed
qed

definition same_promise :: "lease_voter \<Rightarrow> lease_voter \<Rightarrow> bool" where
  "same_promise v w \<longleftrightarrow>
     lv_lease_period w = lv_lease_period v \<and> lv_quiet_until w = lv_quiet_until v \<and>
     lv_promised_to w = lv_promised_to v \<and> lv_promise_expires w = lv_promise_expires v \<and>
     lv_held_for_self w = lv_held_for_self v"

lemma same_promise_trans: "same_promise u v \<Longrightarrow> same_promise v w \<Longrightarrow> same_promise u w"
  by (simp add: same_promise_def)

text \<open>Taking a grant changes the holder as \<open>holder_on_grant\<close> does and leaves the promise of the vote alone.\<close>

lemma participant_on_grant_ok:
  assumes "participant_ok p" and "participant_on_grant p v r e now = Inr (ev, p')"
  shows "participant_ok p'" and "lp_holder p' = snd (holder_on_grant (lp_holder p) v r e now)"
    and "lp_self_id p' = lp_self_id p"
    and "voter_bound_to (lp_voter p') i x = voter_bound_to (lp_voter p) i x"
    and "lh_state (lp_holder p') \<noteq> Idle \<Longrightarrow> lh_state (lp_holder p) \<noteq> Idle"
proof -
  let ?h = "snd (holder_on_grant (lp_holder p) v r e now)"
  have learn: "same_promise w (voter_learn_epoch w e)" for w
    by (simp add: same_promise_def voter_learn_epoch_def)
  have recorded: "voter_record_statement w st = Inr w' \<Longrightarrow> same_promise w w'" for w w' st
    by (simp add: same_promise_def record_statement_frame)
  have "lp_holder p' = ?h \<and> lp_self_id p' = lp_self_id p \<and> same_promise (lp_voter p) (lp_voter p')"
  proof (cases "fst (holder_on_grant (lp_holder p) v r e now) = EventBecameLeader")
    case True
    then show ?thesis
    proof (cases "lp_peer_statements p = PeerAlwaysMayLead")
      case True
      with assms(2) learn \<open>fst _ = EventBecameLeader\<close> show ?thesis
        by (auto simp: participant_on_grant_def Let_def split_beta)
    next
      case False
      with assms(2) True obtain st w where
        w: "voter_record_statement (voter_learn_epoch (lp_voter p) e) st = Inr w"
        and "lp_holder p' = ?h" "lp_self_id p' = lp_self_id p" "lp_voter p' = w"
        by (auto simp: participant_on_grant_def Let_def split_beta bind_result_eq_Inr)
      with same_promise_trans [OF learn recorded [OF w]] show ?thesis by simp
    qed
  next
    case False
    with assms(2) show ?thesis by (auto simp: participant_on_grant_def Let_def split_beta same_promise_def)
  qed
  then have h: "lp_holder p' = ?h" and s: "lp_self_id p' = lp_self_id p"
    and sp: "same_promise (lp_voter p) (lp_voter p')" by blast+
  have st: "lh_state ?h \<noteq> Idle \<longleftrightarrow> lh_state (lp_holder p) \<noteq> Idle"
    by (cases rule: on_grant_cases [of "lp_holder p" v r e now]) auto
  show "lp_holder p' = ?h" and "lp_self_id p' = lp_self_id p" by (rule h, rule s)
  show "voter_bound_to (lp_voter p') i x = voter_bound_to (lp_voter p) i x"
    using sp by (simp add: same_promise_def voter_bound_to_def)
  show "lh_state (lp_holder p') \<noteq> Idle \<Longrightarrow> lh_state (lp_holder p) \<noteq> Idle" using h st by simp
  show "participant_ok p'"
    using assms(1) h s sp st holder_ok_grant [of "lp_holder p" v r e now]
    by (simp add: participant_ok_def same_promise_def)
qed

text \<open>An instance whose vote is bound to its peer may not ask to lead.\<close>

lemma bound_blocks_asking:
  assumes "voter_bound_to (lp_voter p) j x" and "now < x" and "j \<noteq> lp_self_id p"
  shows "\<not> may_ask_to_lead p now"
  using assms
  by (auto simp: may_ask_to_lead_def voter_bound_to_def voter_restarting_def promised_elsewhere_def promise_live_def)

section \<open>Starting and restarting\<close>

lemma make_participant_ok:
  assumes "i = 1 \<or> i = 2"
  shows "participant_ok (make_participant i period drift started e flag)"
  using assms
  by (auto simp: participant_ok_def make_participant_def make_voter_def make_holder_def holder_ok_def)

lemma new_participant_Inr:
  "new_participant i period drift started e flag = Inr p \<longleftrightarrow>
     p = make_participant i period drift started e flag \<and> 0 < period \<and> 0 \<le> e \<and> 0 \<le> drift \<and> drift < period"
  by (auto simp: new_participant_def new_voter_def new_holder_def bind_result_def)

end
