(* ===== verification/LeaseSystem.thy ===== *)
theory LeaseSystem
  imports LeaseParticipant
begin

text \<open>
  A pair of instances, the third voter and the messages between them: the system that the rules of
  \<open>LeaseVoter.hpp\<close>, \<open>LeaseHolder.hpp\<close> and \<open>LeaseParticipant.hpp\<close> are meant to make safe. Messages may be
  lost, delayed, repeated and reordered; processes and machines may restart; each machine has a clock
  of its own.
\<close>

section \<open>The system and its steps\<close>

text \<open>
  \<open>sys_time\<close> is real time, which no program reads. A machine is named by the clock it runs:
  \<open>clk m t\<close> is what machine \<open>m\<close>'s steady clock shows at real time \<open>t\<close>, and \<open>sys_machine\<close> says which machine an
  instance (1 or 2) or the third voter (3) runs on now. \<open>sys_incarnation\<close> counts the starts of an
  instance's process: a connection does not outlive the process, so a grant reaches only the
  incarnation that asked for it. A grant also carries the real time at which it was made; no program
  reads that either.
\<close>

datatype lease_msg =
    RequestMsg (msg_voter: instance_id) (msg_candidate: instance_id) (msg_incarnation: nat)
      (msg_epoch: epoch) (msg_request_id: int)
  | GrantMsg (msg_voter: instance_id) (msg_candidate: instance_id) (msg_incarnation: nat)
      (msg_epoch: epoch) (msg_request_id: int) (msg_granted_at: int)

record 'v lease_sys =
  sys_time :: int
  sys_participant :: "instance_id \<Rightarrow> lease_participant"
  sys_incarnation :: "instance_id \<Rightarrow> nat"
  sys_machine :: "instance_id \<Rightarrow> nat"
  sys_third :: 'v
  sys_net :: "lease_msg set"

type_synonym clocks = "nat \<Rightarrow> int \<Rightarrow> time_point"

definition third_voter_id :: instance_id where
  "third_voter_id = 3"

definition peer_of :: "instance_id \<Rightarrow> instance_id" where
  "peer_of i = 3 - i"

definition is_instance :: "instance_id \<Rightarrow> bool" where
  "is_instance i \<longleftrightarrow> i = 1 \<or> i = 2"

definition now_of :: "clocks \<Rightarrow> 'v lease_sys \<Rightarrow> instance_id \<Rightarrow> time_point" where
  "now_of clk s i = clk (sys_machine s i) (sys_time s)"

text \<open>
  The clocks count forwards from nothing below zero, and run at rates close enough that while one
  counts less than the period less the allowance, no other counts a whole period.
\<close>

definition clocks_agree :: "clocks \<Rightarrow> duration \<Rightarrow> duration \<Rightarrow> bool" where
  "clocks_agree clk period allowance \<longleftrightarrow>
     (\<forall>m t. 0 \<le> clk m t) \<and> (\<forall>m t t'. t \<le> t' \<longrightarrow> clk m t \<le> clk m t') \<and>
     (\<forall>m m' t t'. t \<le> t' \<longrightarrow> clk m t' - clk m t < period - allowance \<longrightarrow> clk m' t' - clk m' t < period)"

text \<open>
  What the record kept on disk must say for a restart to resume with it: every grant this instance made
  that has not run out on its own clock is to the peer, and the record promises the vote to the peer
  until no earlier time.
\<close>

definition grants_covered :: "clocks \<Rightarrow> duration \<Rightarrow> 'v lease_sys \<Rightarrow> instance_id \<Rightarrow> instance_id \<Rightarrow> time_point \<Rightarrow> bool" where
  "grants_covered clk period s i promised_to until \<longleftrightarrow>
     (\<forall>inc e r g. GrantMsg i (peer_of i) inc e r g \<in> sys_net s \<longrightarrow> now_of clk s i < clk (sys_machine s i) g + period \<longrightarrow>
        promised_to = peer_of i \<and> clk (sys_machine s i) g + period \<le> until)"

text \<open>
  How an instance restarts, as \<open>PairLeaseAgent::keep_promises_in\<close> does it: the statement is taken back in
  any case; with a record from this boot the promise is too, unless it was a vote for itself.
\<close>

definition restarted_participant ::
  "lease_participant \<Rightarrow> leader_statement \<Rightarrow> (instance_id \<times> time_point) option \<Rightarrow> time_point \<Rightarrow> lease_participant" where
  "restarted_participant p kept_statement kept now =
     (let p1 = restore_recorded_statement p kept_statement in
      case kept of
        None \<Rightarrow> p1
      | Some (promised_to, until) \<Rightarrow>
          let was_leading = promised_to = lp_self_id p \<and> now < until
          in resume_with_kept_promise p1 (if was_leading then 0 else promised_to)
               (if was_leading then now else until) now)"

inductive lease_step ::
  "clocks \<Rightarrow> ('v \<Rightarrow> instance_id \<Rightarrow> epoch \<Rightarrow> time_point \<Rightarrow> (lease_answer \<times> 'v) option) \<Rightarrow>
   ('v \<Rightarrow> time_point \<Rightarrow> 'v \<Rightarrow> bool) \<Rightarrow> ('v \<Rightarrow> 'v \<Rightarrow> bool) \<Rightarrow> duration \<Rightarrow> duration \<Rightarrow>
   'v lease_sys \<Rightarrow> 'v lease_sys \<Rightarrow> bool"
  for clk decide restarted tended period drift where
  time_passes:
    "sys_time s \<le> t \<Longrightarrow>
     lease_step clk decide restarted tended period drift s (s\<lparr>sys_time := t\<rparr>)"
| instance_acts:
    "is_instance i \<Longrightarrow> participant_local (now_of clk s i) (sys_participant s i) p \<Longrightarrow>
     lease_step clk decide restarted tended period drift s
       (s\<lparr>sys_participant := (sys_participant s)(i := p)\<rparr>)"
| instance_asks:
    "is_instance i \<Longrightarrow> v = peer_of i \<or> v = third_voter_id \<Longrightarrow>
     lh_state (lp_holder (sys_participant s i)) \<noteq> Idle \<Longrightarrow> sent_at \<le> now_of clk s i \<Longrightarrow>
     record_request (sys_participant s i) v sent_at = (r, p) \<Longrightarrow>
     lease_step clk decide restarted tended period drift s
       (s\<lparr>sys_participant := (sys_participant s)(i := p),
         sys_net := insert (RequestMsg v i (sys_incarnation s i) (lh_epoch (lp_holder p)) r) (sys_net s)\<rparr>)"
| peer_answers:
    "RequestMsg j i inc e r \<in> sys_net s \<Longrightarrow> j = peer_of i \<Longrightarrow> is_instance i \<Longrightarrow>
     on_peer_request (sys_participant s j) i e (now_of clk s j) = (outcome, p) \<Longrightarrow>
     sent \<longrightarrow> ans_verdict (pro_answer outcome) = Granted \<Longrightarrow>
     lease_step clk decide restarted tended period drift s
       (s\<lparr>sys_participant := (sys_participant s)(j := p),
         sys_net := (if sent then insert (GrantMsg j i inc e r (sys_time s)) (sys_net s) else sys_net s)\<rparr>)"
| third_answers:
    "RequestMsg third_voter_id i inc e r \<in> sys_net s \<Longrightarrow>
     decide (sys_third s) i e (now_of clk s third_voter_id) = Some (a, v) \<Longrightarrow>
     sent \<longrightarrow> ans_verdict a = Granted \<Longrightarrow>
     lease_step clk decide restarted tended period drift s
       (s\<lparr>sys_third := v,
         sys_net := (if sent then insert (GrantMsg third_voter_id i inc e r (sys_time s)) (sys_net s) else sys_net s)\<rparr>)"
| grant_arrives:
    "GrantMsg v i (sys_incarnation s i) e r g \<in> sys_net s \<Longrightarrow> is_instance i \<Longrightarrow>
     participant_on_grant (sys_participant s i) v r e (now_of clk s i) = Inr (ev, p) \<Longrightarrow>
     lease_step clk decide restarted tended period drift s
       (s\<lparr>sys_participant := (sys_participant s)(i := p)\<rparr>)"
| third_restarts:
    "restarted (sys_third s) (clk m (sys_time s)) v \<Longrightarrow>
     lease_step clk decide restarted tended period drift s
       (s\<lparr>sys_third := v, sys_machine := (sys_machine s)(third_voter_id := m)\<rparr>)"
| third_tended:
    "tended (sys_third s) v \<Longrightarrow>
     lease_step clk decide restarted tended period drift s (s\<lparr>sys_third := v\<rparr>)"
| instance_restarts:
    "is_instance i \<Longrightarrow> new_participant i period drift (clk m (sys_time s)) e flag = Inr p \<Longrightarrow>
     lease_step clk decide restarted tended period drift s
       (s\<lparr>sys_participant := (sys_participant s)(i := restarted_participant p st None (clk m (sys_time s))),
         sys_incarnation := (sys_incarnation s)(i := Suc (sys_incarnation s i)),
         sys_machine := (sys_machine s)(i := m)\<rparr>)"
| instance_resumes:
    "is_instance i \<Longrightarrow> new_participant i period drift (now_of clk s i) e flag = Inr p \<Longrightarrow>
     grants_covered clk period s i promised_to until \<Longrightarrow>
     lease_step clk decide restarted tended period drift s
       (s\<lparr>sys_participant := (sys_participant s)
            (i := restarted_participant p st (Some (promised_to, until)) (now_of clk s i)),
         sys_incarnation := (sys_incarnation s)(i := Suc (sys_incarnation s i))\<rparr>)"

text \<open>
  At the start both instances and the third voter have just started, the instances with the statement
  each kept on disk, and nothing has been sent.
\<close>

inductive lease_init ::
  "clocks \<Rightarrow> ('v \<Rightarrow> time_point \<Rightarrow> 'v \<Rightarrow> bool) \<Rightarrow> ('v \<Rightarrow> bool) \<Rightarrow> duration \<Rightarrow> duration \<Rightarrow> 'v lease_sys \<Rightarrow> bool"
  for clk restarted ok period drift where
  "ok v \<Longrightarrow> restarted v (clk (machine third_voter_id) t) third \<Longrightarrow>
   new_participant 1 period drift (clk (machine 1) t) e1 flag = Inr p1 \<Longrightarrow>
   new_participant 2 period drift (clk (machine 2) t) e2 flag = Inr p2 \<Longrightarrow>
   P 1 = restarted_participant p1 st1 None (clk (machine 1) t) \<Longrightarrow>
   P 2 = restarted_participant p2 st2 None (clk (machine 2) t) \<Longrightarrow>
   lease_init clk restarted ok period drift
     \<lparr>sys_time = t, sys_participant = P, sys_incarnation = (\<lambda>_. 0),
      sys_machine = machine, sys_third = third, sys_net = {}\<rparr>"

inductive lease_reachable ::
  "clocks \<Rightarrow> ('v \<Rightarrow> instance_id \<Rightarrow> epoch \<Rightarrow> time_point \<Rightarrow> (lease_answer \<times> 'v) option) \<Rightarrow>
   ('v \<Rightarrow> time_point \<Rightarrow> 'v \<Rightarrow> bool) \<Rightarrow> ('v \<Rightarrow> 'v \<Rightarrow> bool) \<Rightarrow> ('v \<Rightarrow> bool) \<Rightarrow> duration \<Rightarrow> duration \<Rightarrow>
   'v lease_sys \<Rightarrow> bool"
  for clk decide restarted tended ok period drift where
  starts: "lease_init clk restarted ok period drift s \<Longrightarrow>
     lease_reachable clk decide restarted tended ok period drift s"
| steps: "lease_reachable clk decide restarted tended ok period drift s \<Longrightarrow>
     lease_step clk decide restarted tended period drift s s' \<Longrightarrow>
     lease_reachable clk decide restarted tended ok period drift s'"

text \<open>
  An instance acts as leader until it notices that its lease has run out, which may be up to \<open>late\<close>
  after it has: it applies the rules once every tick. With \<open>late\<close> zero this is \<open>acting()\<close>.
\<close>

definition acts_as_leader :: "clocks \<Rightarrow> duration \<Rightarrow> 'v lease_sys \<Rightarrow> instance_id \<Rightarrow> bool" where
  "acts_as_leader clk late s i \<longleftrightarrow>
     lh_state (lp_holder (sys_participant s i)) = Leading \<and>
     now_of clk s i < holder_lease_expires_at (lp_holder (sys_participant s i)) + late"

lemma acts_as_leader_0:
  "acts_as_leader clk 0 s i = participant_acting (sys_participant s i) (now_of clk s i)"
  by (simp add: acts_as_leader_def participant_acting_def holder_acting_def)

section \<open>The invariant\<close>

text \<open>
  A grant made to instance \<open>i\<close> at real time \<open>g\<close> is one its present process can still be relying on.
\<close>

definition relied_on :: "clocks \<Rightarrow> duration \<Rightarrow> duration \<Rightarrow> duration \<Rightarrow> 'v lease_sys \<Rightarrow> instance_id \<Rightarrow> int \<Rightarrow> bool" where
  "relied_on clk period drift late s i g \<longleftrightarrow> now_of clk s i < clk (sys_machine s i) g + period - drift + late"

definition granted :: "'v lease_sys \<Rightarrow> instance_id \<Rightarrow> instance_id \<Rightarrow> int \<Rightarrow> bool" where
  "granted s v i g \<longleftrightarrow> (\<exists>e r. GrantMsg v i (sys_incarnation s i) e r g \<in> sys_net s)"

definition vote_bound ::
  "('v \<Rightarrow> instance_id \<Rightarrow> time_point \<Rightarrow> bool) \<Rightarrow> 'v lease_sys \<Rightarrow> instance_id \<Rightarrow> instance_id \<Rightarrow> time_point \<Rightarrow> bool" where
  "vote_bound bound_to s v i x \<longleftrightarrow>
     (if v = third_voter_id then bound_to (sys_third s) i x
      else voter_bound_to (lp_voter (sys_participant s v)) i x)"

abbreviation holder_of :: "'v lease_sys \<Rightarrow> instance_id \<Rightarrow> lease_holder" where
  "holder_of s i \<equiv> lp_holder (sys_participant s i)"

definition inv_participants :: "duration \<Rightarrow> duration \<Rightarrow> 'v lease_sys \<Rightarrow> bool" where
  "inv_participants period drift s \<longleftrightarrow>
     (\<forall>i. is_instance i \<longrightarrow>
        participant_ok (sys_participant s i) \<and> lp_self_id (sys_participant s i) = i \<and>
        lh_lease_period (holder_of s i) = period \<and> lh_drift_allowance (holder_of s i) = drift)"

definition msg_ok :: "'v lease_sys \<Rightarrow> lease_msg \<Rightarrow> bool" where
  "msg_ok s m \<longleftrightarrow>
     is_instance (msg_candidate m) \<and>
     (msg_voter m = peer_of (msg_candidate m) \<or> msg_voter m = third_voter_id) \<and>
     msg_incarnation m \<le> sys_incarnation s (msg_candidate m) \<and>
     (msg_incarnation m = sys_incarnation s (msg_candidate m) \<longrightarrow>
        msg_request_id m \<le> lh_last_request_id (holder_of s (msg_candidate m))) \<and>
     (case m of RequestMsg _ _ _ _ _ \<Rightarrow> True | GrantMsg _ _ _ _ _ g \<Rightarrow> g \<le> sys_time s)"

definition inv_net :: "'v lease_sys \<Rightarrow> bool" where
  "inv_net s \<longleftrightarrow> (\<forall>m \<in> sys_net s. msg_ok s m)"

text \<open>A request was sent before it was answered, on the clock of the instance that sent it.\<close>

definition inv_sent :: "clocks \<Rightarrow> 'v lease_sys \<Rightarrow> bool" where
  "inv_sent clk s \<longleftrightarrow>
     (\<forall>i r out. is_instance i \<longrightarrow> sm_get (lh_outstanding (holder_of s i)) r = Some out \<longrightarrow>
        out_sent_at out \<le> now_of clk s i \<and>
        (\<forall>v e g. GrantMsg v i (sys_incarnation s i) e r g \<in> sys_net s \<longrightarrow>
           out_sent_at out \<le> clk (sys_machine s i) g))"

text \<open>A lease held comes from a grant, and runs out no later than the lease period after it, less the allowance.\<close>

definition inv_leases :: "clocks \<Rightarrow> duration \<Rightarrow> duration \<Rightarrow> 'v lease_sys \<Rightarrow> bool" where
  "inv_leases clk period drift s \<longleftrightarrow>
     (\<forall>i v x. is_instance i \<longrightarrow> (v, x) \<in> set (lh_expiries (holder_of s i)) \<longrightarrow>
        0 < x \<and> (\<exists>g. granted s v i g \<and> x \<le> clk (sys_machine s i) g + period - drift))"

text \<open>A voter whose grant is still relied on is bound to the instance it granted.\<close>

definition inv_votes ::
  "clocks \<Rightarrow> ('v \<Rightarrow> instance_id \<Rightarrow> time_point \<Rightarrow> bool) \<Rightarrow> duration \<Rightarrow> duration \<Rightarrow> duration \<Rightarrow> 'v lease_sys \<Rightarrow> bool" where
  "inv_votes clk bound_to period drift late s \<longleftrightarrow>
     (\<forall>v i g. granted s v i g \<longrightarrow> relied_on clk period drift late s i g \<longrightarrow>
        vote_bound bound_to s v i (clk (sys_machine s v) g + period))"

text \<open>The third voter's grants to the two instances are never both relied on.\<close>

definition inv_third :: "clocks \<Rightarrow> duration \<Rightarrow> duration \<Rightarrow> duration \<Rightarrow> 'v lease_sys \<Rightarrow> bool" where
  "inv_third clk period drift late s \<longleftrightarrow>
     (\<forall>i j g g'. granted s third_voter_id i g \<longrightarrow> granted s third_voter_id j g' \<longrightarrow>
        relied_on clk period drift late s i g \<longrightarrow> relied_on clk period drift late s j g' \<longrightarrow> i = j)"

text \<open>An instance that leads or asks to lead has made no grant its peer still relies on.\<close>

definition inv_peer :: "clocks \<Rightarrow> duration \<Rightarrow> duration \<Rightarrow> duration \<Rightarrow> 'v lease_sys \<Rightarrow> bool" where
  "inv_peer clk period drift late s \<longleftrightarrow>
     (\<forall>i g. is_instance i \<longrightarrow> granted s (peer_of i) i g \<longrightarrow> relied_on clk period drift late s i g \<longrightarrow>
        lh_state (holder_of s (peer_of i)) = Idle)"

definition lease_inv ::
  "clocks \<Rightarrow> ('v \<Rightarrow> instance_id \<Rightarrow> time_point \<Rightarrow> bool) \<Rightarrow> ('v \<Rightarrow> bool) \<Rightarrow> duration \<Rightarrow> duration \<Rightarrow> duration \<Rightarrow>
   'v lease_sys \<Rightarrow> bool" where
  "lease_inv clk bound_to ok period drift late s \<longleftrightarrow>
     ok (sys_third s) \<and> inv_participants period drift s \<and> inv_net s \<and> inv_sent clk s \<and>
     inv_leases clk period drift s \<and> inv_votes clk bound_to period drift late s \<and>
     inv_third clk period drift late s \<and> inv_peer clk period drift late s"

lemmas inv_defs =
  inv_participants_def inv_net_def inv_sent_def inv_leases_def inv_votes_def inv_third_def inv_peer_def

lemma is_instance_simps [simp]:
  "is_instance 1" "is_instance 2" "\<not> is_instance third_voter_id"
  "is_instance (peer_of i) = is_instance i" "peer_of (peer_of i) = i"
  by (auto simp: is_instance_def peer_of_def third_voter_id_def)

lemma peer_of_neq [simp]: "is_instance i \<Longrightarrow> peer_of i \<noteq> i" "is_instance i \<Longrightarrow> i \<noteq> peer_of i"
  "is_instance i \<Longrightarrow> i \<noteq> third_voter_id" "is_instance i \<Longrightarrow> peer_of i \<noteq> third_voter_id" "is_instance i \<Longrightarrow> i \<noteq> 0"
  by (auto simp: is_instance_def peer_of_def third_voter_id_def)

lemma instance_cases: "is_instance i \<Longrightarrow> is_instance j \<Longrightarrow> j = i \<or> j = peer_of i"
  by (auto simp: is_instance_def peer_of_def)

lemma clocks_agreeD:
  assumes "clocks_agree clk period allowance"
  shows "0 \<le> clk m t" and "t \<le> t' \<Longrightarrow> clk m t \<le> clk m t'"
    and "t \<le> t' \<Longrightarrow> clk m t' - clk m t < period - allowance \<Longrightarrow> clk m' t' - clk m' t < period"
  using assms by (auto simp: clocks_agree_def)

lemma granted_net:
  assumes "inv_net s" and "granted s v i g"
  shows "is_instance i" and "v = peer_of i \<or> v = third_voter_id" and "g \<le> sys_time s"
  using assms by (force simp: inv_net_def granted_def msg_ok_def)+

lemma inv_net_grant:
  assumes "inv_net s" and "GrantMsg v i inc e r g \<in> sys_net s"
  shows "is_instance i" and "v = peer_of i \<or> v = third_voter_id" and "g \<le> sys_time s"
    and "inc = sys_incarnation s i \<Longrightarrow> r \<le> lh_last_request_id (holder_of s i)"
  using assms by (force simp: inv_net_def msg_ok_def)+

lemma msg_ok_later:
  assumes "msg_ok s m" and "sys_time s \<le> sys_time s'"
    and "\<And>i. sys_incarnation s i < sys_incarnation s' i \<or>
      (sys_incarnation s' i = sys_incarnation s i \<and>
       lh_last_request_id (holder_of s i) \<le> lh_last_request_id (holder_of s' i))"
  shows "msg_ok s' m"
  using assms(1,2) assms(3) [of "msg_candidate m"]
  by (auto simp: msg_ok_def split: lease_msg.splits)

lemma msg_ok_net [simp]: "msg_ok (s\<lparr>sys_net := n\<rparr>) m = msg_ok s m"
  by (cases m) (simp_all add: msg_ok_def)

lemma inv_net_later:
  assumes "inv_net s" and "sys_net s' = sys_net s" and "sys_time s \<le> sys_time s'"
    and "\<And>i. sys_incarnation s i < sys_incarnation s' i \<or>
      (sys_incarnation s' i = sys_incarnation s i \<and>
       lh_last_request_id (holder_of s i) \<le> lh_last_request_id (holder_of s' i))"
  shows "inv_net s'"
  using assms(1,2) msg_ok_later [OF _ assms(3,4)] by (auto simp: inv_net_def)

text \<open>While a grant is relied on, no clock has counted a lease period since it was made.\<close>

lemma relied_on_within_period:
  assumes "clocks_agree clk period (drift - late)" and "g \<le> sys_time s" and "relied_on clk period drift late s i g"
  shows "now_of clk s v < clk (sys_machine s v) g + period"
  using clocks_agreeD(3) [OF assms(1,2), of "sys_machine s i" "sys_machine s v"] assms(3)
  by (simp add: relied_on_def now_of_def)

section \<open>Leadership follows from the invariant\<close>

lemma acts_as_leader_relies:
  assumes "lease_inv clk bound_to ok period drift late s" and "clocks_agree clk period (drift - late)"
    and "is_instance i" and "0 \<le> late" and "acts_as_leader clk late s i"
  obtains v g where "granted s v i g" "relied_on clk period drift late s i g" "v = peer_of i \<or> v = third_voter_id"
proof -
  let ?h = "holder_of s i" and ?T = "now_of clk s i"
  from assms(1,3) have h: "holder_ok ?h" and leases: "inv_leases clk period drift s" and net: "inv_net s"
    by (auto simp: lease_inv_def inv_participants_def participant_ok_def)
  from assms(5) have lead: "lh_state ?h = Leading" and t: "?T - late < holder_lease_expires_at ?h"
    by (auto simp: acts_as_leader_def)
  from h lead have "lh_expiries ?h \<noteq> []" by (auto simp: holder_ok_def)
  then obtain v\<^sub>0 x\<^sub>0 m where "lh_expiries ?h = (v\<^sub>0, x\<^sub>0) # m" by (metis neq_Nil_conv surj_pair)
  then have p: "(v\<^sub>0, x\<^sub>0) \<in> set (lh_expiries ?h)" by simp
  obtain v x where vx: "(v, x) \<in> set (lh_expiries ?h)" "?T - late < x"
    using t p leases assms(3) unfolding lease_expires_at_less inv_leases_def by (meson less_trans)
  with leases assms(3) obtain g where g: "granted s v i g" "x \<le> clk (sys_machine s i) g + period - drift"
    unfolding inv_leases_def by blast
  moreover have "relied_on clk period drift late s i g" using g vx by (simp add: relied_on_def)
  moreover have "v = peer_of i \<or> v = third_voter_id" using granted_net(2) [OF net g(1)] .
  ultimately show thesis using that by blast
qed

lemma lease_inv_one_leader:
  assumes inv: "lease_inv clk bound_to ok period drift late s" and "clocks_agree clk period (drift - late)"
    and "0 \<le> late" and "is_instance i" "is_instance j"
    and "acts_as_leader clk late s i" and "acts_as_leader clk late s j"
  shows "i = j"
proof (rule ccontr)
  assume "i \<noteq> j"
  with assms instance_cases have j: "j = peer_of i" and i: "i = peer_of j" by fastforce+
  obtain v g where v: "granted s v i g" "relied_on clk period drift late s i g" "v = j \<or> v = third_voter_id"
    using acts_as_leader_relies [OF assms(1,2,4,3,6)] j by blast
  obtain w k where w: "granted s w j k" "relied_on clk period drift late s j k" "w = i \<or> w = third_voter_id"
    using acts_as_leader_relies [OF assms(1,2,5,3,7)] i by blast
  have lead: "lh_state (holder_of s i) = Leading" "lh_state (holder_of s j) = Leading"
    using assms(6,7) by (auto simp: acts_as_leader_def)
  have "v \<noteq> j" using inv v(1,2) lead(2) assms(4) j by (force simp: lease_inv_def inv_peer_def)
  moreover have "w \<noteq> i" using inv w(1,2) lead(1) assms(5) i by (force simp: lease_inv_def inv_peer_def)
  ultimately have "v = third_voter_id" "w = third_voter_id" using v(3) w(3) by auto
  with inv v(1,2) w(1,2) \<open>i \<noteq> j\<close> show False unfolding lease_inv_def inv_third_def by blast
qed

section \<open>Every step keeps the invariant\<close>

lemma with_participant_simps [simp]:
  "now_of clk (s\<lparr>sys_participant := ps\<rparr>) i = now_of clk s i"
  "granted (s\<lparr>sys_participant := ps\<rparr>) v i g = granted s v i g"
  "relied_on clk period drift late (s\<lparr>sys_participant := ps\<rparr>) i g = relied_on clk period drift late s i g"
  "now_of clk (s\<lparr>sys_net := n\<rparr>) i = now_of clk s i"
  "relied_on clk period drift late (s\<lparr>sys_net := n\<rparr>) i g = relied_on clk period drift late s i g"
  "vote_bound b (s\<lparr>sys_net := n\<rparr>) v i x = vote_bound b s v i x"
  "now_of clk (s\<lparr>sys_third := w\<rparr>) i = now_of clk s i"
  "granted (s\<lparr>sys_third := w\<rparr>) v i g = granted s v i g"
  "relied_on clk period drift late (s\<lparr>sys_third := w\<rparr>) i g = relied_on clk period drift late s i g"
  by (simp_all add: now_of_def granted_def relied_on_def vote_bound_def)

text \<open>
  Replacing an instance's state keeps the invariant when the new state issues only fresh requests,
  holds only leases the invariant allows, is bound to whatever it was bound to, and leaves the idle
  state only where no grant to the peer is relied on.
\<close>

lemma lease_inv_participant:
  assumes inv: "lease_inv clk bound_to ok period drift late s" and clocks: "clocks_agree clk period (drift - late)"
    and i: "is_instance i"
    and ok: "participant_ok p" "lp_self_id p = i" "lh_lease_period (lp_holder p) = period"
      "lh_drift_allowance (lp_holder p) = drift"
    and last: "lh_last_request_id (holder_of s i) \<le> lh_last_request_id (lp_holder p)"
    and sent: "\<And>r out. sm_get (lh_outstanding (lp_holder p)) r = Some out \<Longrightarrow>
        sm_get (lh_outstanding (holder_of s i)) r = Some out \<or>
        (lh_last_request_id (holder_of s i) < r \<and> out_sent_at out \<le> now_of clk s i)"
    and leases: "\<And>v x. (v, x) \<in> set (lh_expiries (lp_holder p)) \<Longrightarrow>
        (v, x) \<in> set (lh_expiries (holder_of s i)) \<or>
        (0 < x \<and> (\<exists>g. granted s v i g \<and> x \<le> clk (sys_machine s i) g + period - drift))"
    and bound: "\<And>j x. voter_bound_to (lp_voter (sys_participant s i)) j x \<Longrightarrow> now_of clk s i < x \<Longrightarrow>
        x \<le> now_of clk s i + period \<Longrightarrow> voter_bound_to (lp_voter p) j x"
    and idle: "\<And>g. lh_state (lp_holder p) \<noteq> Idle \<Longrightarrow> granted s i (peer_of i) g \<Longrightarrow>
        relied_on clk period drift late s (peer_of i) g \<Longrightarrow> lh_state (holder_of s i) \<noteq> Idle"
  shows "lease_inv clk bound_to ok period drift late (s\<lparr>sys_participant := (sys_participant s)(i := p)\<rparr>)"
proof -
  let ?s = "s\<lparr>sys_participant := (sys_participant s)(i := p)\<rparr>"
  note I = inv [unfolded lease_inv_def]
  have "inv_participants period drift ?s"
    using I ok by (simp add: inv_participants_def)
  moreover have "inv_net ?s"
    by (rule inv_net_later [of s]) (use I last in simp_all)
  moreover have "inv_sent clk ?s"
  proof -
    have "out_sent_at out \<le> now_of clk s i \<and>
        (\<forall>v e g. GrantMsg v i (sys_incarnation s i) e r g \<in> sys_net s \<longrightarrow> out_sent_at out \<le> clk (sys_machine s i) g)"
      if "sm_get (lh_outstanding (lp_holder p)) r = Some out" for r out
      using sent [OF that] I i inv_net_grant(4) [of s _ i "sys_incarnation s i" _ r]
      unfolding inv_sent_def by fastforce
    then show ?thesis using I by (simp add: inv_sent_def)
  qed
  moreover have "inv_leases clk period drift ?s"
  proof -
    have "0 < x \<and> (\<exists>g. granted s v i g \<and> x \<le> clk (sys_machine s i) g + period - drift)"
      if "(v, x) \<in> set (lh_expiries (lp_holder p))" for v x
      using leases [OF that] I i by (auto simp: inv_leases_def)
    then show ?thesis using I by (simp add: inv_leases_def)
  qed
  moreover have "inv_votes clk bound_to period drift late ?s"
    unfolding inv_votes_def
  proof (intro allI impI)
    fix v j g
    assume "granted ?s v j g" and "relied_on clk period drift late ?s j g"
    then have g: "granted s v j g" "relied_on clk period drift late s j g" by simp_all
    with I have vb: "vote_bound bound_to s v j (clk (sys_machine s v) g + period)" by (auto simp: inv_votes_def)
    have gt: "g \<le> sys_time s" using granted_net(3) [OF _ g(1)] I by blast
    note live = relied_on_within_period [OF clocks gt g(2), of v]
    have upper: "clk (sys_machine s v) g + period \<le> now_of clk s v + period"
      using clocks_agreeD(2) [OF clocks gt] by (simp add: now_of_def)
    show "vote_bound bound_to ?s v j (clk (sys_machine ?s v) g + period)"
      using vb bound live upper i by (auto simp: vote_bound_def)
  qed
  moreover have "inv_third clk period drift late ?s" using I by (simp add: inv_third_def)
  moreover have "inv_peer clk period drift late ?s"
    unfolding inv_peer_def
  proof (intro allI impI)
    fix j g
    assume j: "is_instance j" and "granted ?s (peer_of j) j g" and "relied_on clk period drift late ?s j g"
    then have g: "granted s (peer_of j) j g" "relied_on clk period drift late s j g" by simp_all
    with I j have "lh_state (holder_of s (peer_of j)) = Idle" by (auto simp: inv_peer_def)
    with g idle [of g] show "lh_state (holder_of ?s (peer_of j)) = Idle" by (auto; metis is_instance_simps(5))
  qed
  ultimately show ?thesis using I by (simp add: lease_inv_def)
qed

text \<open>Time passing only ends reliance.\<close>

lemma lease_inv_time:
  assumes inv: "lease_inv clk bound_to ok period drift late s" and clocks: "clocks_agree clk period (drift - late)"
    and t: "sys_time s \<le> t"
  shows "lease_inv clk bound_to ok period drift late (s\<lparr>sys_time := t\<rparr>)"
proof -
  let ?s = "s\<lparr>sys_time := t\<rparr>"
  note I = inv [unfolded lease_inv_def]
  have later: "now_of clk s i \<le> now_of clk ?s i" for i
    using clocks_agreeD(2) [OF clocks t] by (simp add: now_of_def)
  have rely: "relied_on clk period drift late ?s i g \<Longrightarrow> relied_on clk period drift late s i g" for i g
    using later [of i] by (simp add: relied_on_def)
  have same: "granted ?s v i g = granted s v i g" "vote_bound bound_to ?s v i x = vote_bound bound_to s v i x" for v i g x
    by (simp_all add: granted_def vote_bound_def)
  have "inv_net ?s" by (rule inv_net_later [of s]) (use I t in simp_all)
  moreover have "inv_sent clk ?s" using I later unfolding inv_sent_def by (fastforce intro: order_trans)
  moreover have "inv_leases clk period drift ?s" using I by (simp add: inv_leases_def granted_def)
  moreover have "inv_votes clk bound_to period drift late ?s" using I rely by (simp add: inv_votes_def same)
  moreover have "inv_third clk period drift late ?s" using I rely by (simp add: inv_third_def same; blast)
  moreover have "inv_peer clk period drift late ?s" using I rely by (simp add: inv_peer_def same; blast)
  ultimately show ?thesis using I by (simp add: lease_inv_def inv_participants_def)
qed

text \<open>A request in the net changes nothing about grants.\<close>

lemma lease_inv_request:
  assumes inv: "lease_inv clk bound_to ok period drift late s"
    and "is_instance i" and "v = peer_of i \<or> v = third_voter_id" and "r \<le> lh_last_request_id (holder_of s i)"
  shows "lease_inv clk bound_to ok period drift late
    (s\<lparr>sys_net := insert (RequestMsg v i (sys_incarnation s i) e r) (sys_net s)\<rparr>)"
proof -
  let ?s = "s\<lparr>sys_net := insert (RequestMsg v i (sys_incarnation s i) e r) (sys_net s)\<rparr>"
  note I = inv [unfolded lease_inv_def]
  have same: "granted ?s w j g = granted s w j g" for w j g by (simp add: granted_def)
  have "inv_net ?s" using I assms(2-4) by (simp add: inv_net_def) (simp add: msg_ok_def)
  moreover have "inv_sent clk ?s" using I by (simp add: inv_sent_def)
  ultimately show ?thesis
    using I by (simp add: lease_inv_def inv_participants_def inv_leases_def inv_votes_def inv_third_def inv_peer_def same)
qed

text \<open>
  A grant in the net keeps the invariant when it answers a request made, its voter is bound by it,
  no other instance relies on that voter, and, if the voter is the peer, it is idle.
\<close>

lemma lease_inv_grant:
  assumes inv: "lease_inv clk bound_to ok period drift late s" and clocks: "clocks_agree clk period (drift - late)"
    and req: "RequestMsg v i inc e r \<in> sys_net s"
    and binds: "vote_bound bound_to s v i (now_of clk s v + period)"
    and alone: "\<And>j g. v = third_voter_id \<Longrightarrow> granted s v j g \<Longrightarrow> relied_on clk period drift late s j g \<Longrightarrow> j = i"
    and idle: "v = peer_of i \<Longrightarrow> lh_state (holder_of s v) = Idle"
  shows "lease_inv clk bound_to ok period drift late
    (s\<lparr>sys_net := insert (GrantMsg v i inc e r (sys_time s)) (sys_net s)\<rparr>)"
proof -
  let ?s = "s\<lparr>sys_net := insert (GrantMsg v i inc e r (sys_time s)) (sys_net s)\<rparr>"
  note I = inv [unfolded lease_inv_def]
  have g: "granted ?s w j g \<longleftrightarrow> granted s w j g \<or> (w = v \<and> j = i \<and> inc = sys_incarnation s i \<and> g = sys_time s)"
    for w j g by (auto simp: granted_def)
  from req I have "msg_ok s (RequestMsg v i inc e r)" by (simp add: inv_net_def)
  then have "msg_ok s (GrantMsg v i inc e r (sys_time s))" by (simp add: msg_ok_def)
  then have net: "inv_net ?s" using I by (simp add: inv_net_def)
  have sent: "inv_sent clk ?s" using I unfolding inv_sent_def by (auto simp: now_of_def)
  have "inv_leases clk period drift ?s" using I unfolding inv_leases_def g by fastforce
  moreover have "inv_votes clk bound_to period drift late ?s"
    using I binds unfolding inv_votes_def g by (auto simp: now_of_def)
  moreover have "inv_third clk period drift late ?s"
    using I alone unfolding inv_third_def g by (auto; metis)
  moreover have "inv_peer clk period drift late ?s"
    using I idle unfolding inv_peer_def g by auto
  ultimately show ?thesis using I net sent by (simp add: lease_inv_def inv_participants_def)
qed

text \<open>An instance acting on its own.\<close>

lemma lease_inv_acts:
  assumes inv: "lease_inv clk bound_to ok period drift late s" and clocks: "clocks_agree clk period (drift - late)"
    and i: "is_instance i" and loc: "participant_local (now_of clk s i) (sys_participant s i) p"
  shows "lease_inv clk bound_to ok period drift late (s\<lparr>sys_participant := (sys_participant s)(i := p)\<rparr>)"
proof -
  note I = inv [unfolded lease_inv_def]
  have ok: "participant_ok (sys_participant s i)" and self: "lp_self_id (sys_participant s i) = i"
    using I i by (auto simp: inv_participants_def)
  note L = participant_local_ok [OF loc ok]
  then have gn: "gains_nothing (sys_participant s i) p" and okp: "participant_ok p" by blast+
  have wf: "sm_ok (lh_outstanding (lp_holder p))" "sm_ok (lh_outstanding (holder_of s i))"
    using ok okp by (auto simp: participant_ok_def holder_ok_def)
  show ?thesis
  proof (rule lease_inv_participant [OF inv clocks i okp])
    show "lp_self_id p = i" "lh_lease_period (lp_holder p) = period" "lh_drift_allowance (lp_holder p) = drift"
      "lh_last_request_id (holder_of s i) \<le> lh_last_request_id (lp_holder p)"
      using gn I i by (auto simp: gains_nothing_def inv_participants_def)
  next
    fix r out assume "sm_get (lh_outstanding (lp_holder p)) r = Some out"
    then show "sm_get (lh_outstanding (holder_of s i)) r = Some out \<or>
        (lh_last_request_id (holder_of s i) < r \<and> out_sent_at out \<le> now_of clk s i)"
      using gn wf by (auto simp: sm_get_iff_mem gains_nothing_def)
  next
    fix v x assume "(v, x) \<in> set (lh_expiries (lp_holder p))"
    with gn show "(v, x) \<in> set (lh_expiries (holder_of s i)) \<or>
        (0 < x \<and> (\<exists>g. granted s v i g \<and> x \<le> clk (sys_machine s i) g + period - drift))"
      by (auto simp: gains_nothing_def)
  next
    fix j x assume "voter_bound_to (lp_voter (sys_participant s i)) j x"
    with gains_nothing_bound [OF gn] show "voter_bound_to (lp_voter p) j x" by simp
  next
    fix g assume p: "lh_state (lp_holder p) \<noteq> Idle"
      and g: "granted s i (peer_of i) g" "relied_on clk period drift late s (peer_of i) g"
    have gt: "g \<le> sys_time s" using granted_net(3) [OF _ g(1)] I by blast
    have "voter_bound_to (lp_voter (sys_participant s i)) (peer_of i) (clk (sys_machine s i) g + period)"
      using I g i by (auto simp: inv_votes_def vote_bound_def)
    from bound_blocks_asking [OF this relied_on_within_period [OF clocks gt g(2), of i]] self i
    have "\<not> may_ask_to_lead (sys_participant s i) (now_of clk s i)" by simp
    with L p show "lh_state (holder_of s i) \<noteq> Idle" by blast
  qed
qed

text \<open>An instance sending a request.\<close>

lemma lease_inv_asks:
  assumes inv: "lease_inv clk bound_to ok period drift late s" and clocks: "clocks_agree clk period (drift - late)"
    and i: "is_instance i" and v: "v = peer_of i \<or> v = third_voter_id" and t: "sent_at \<le> now_of clk s i"
    and req: "record_request (sys_participant s i) v sent_at = (r, p)"
  shows "lease_inv clk bound_to ok period drift late
    (s\<lparr>sys_participant := (sys_participant s)(i := p),
      sys_net := insert (RequestMsg v i (sys_incarnation s i) e r) (sys_net s)\<rparr>)"
proof -
  let ?s = "s\<lparr>sys_participant := (sys_participant s)(i := p)\<rparr>"
  note I = inv [unfolded lease_inv_def]
  have ok: "participant_ok (sys_participant s i)" using I i by (auto simp: inv_participants_def)
  note R = record_request_ok [OF ok req]
  have "lease_inv clk bound_to ok period drift late ?s"
  proof (rule lease_inv_participant [OF inv clocks i R(1)])
    fix r' out assume "sm_get (lh_outstanding (lp_holder p)) r' = Some out"
    from record_request_outstanding [OF ok req this] R(9) t
    show "sm_get (lh_outstanding (holder_of s i)) r' = Some out \<or>
        (lh_last_request_id (holder_of s i) < r' \<and> out_sent_at out \<le> now_of clk s i)"
      by auto
  qed (use R I i in \<open>auto simp: inv_participants_def\<close>)
  from lease_inv_request [OF this i v, of r e] R show ?thesis by simp
qed

text \<open>An instance answering its peer.\<close>

lemma lease_inv_peer_answers:
  assumes inv: "lease_inv clk bound_to ok period drift late s" and clocks: "clocks_agree clk period (drift - late)"
    and req: "RequestMsg j i inc e r \<in> sys_net s" and j: "j = peer_of i" and i: "is_instance i"
    and ans: "on_peer_request (sys_participant s j) i e (now_of clk s j) = (outcome, p)"
    and sent: "sent \<longrightarrow> ans_verdict (pro_answer outcome) = Granted"
  shows "lease_inv clk bound_to ok period drift late
    (s\<lparr>sys_participant := (sys_participant s)(j := p),
      sys_net := (if sent then insert (GrantMsg j i inc e r (sys_time s)) (sys_net s) else sys_net s)\<rparr>)"
proof -
  let ?s = "s\<lparr>sys_participant := (sys_participant s)(j := p)\<rparr>"
  note I = inv [unfolded lease_inv_def]
  have ij: "is_instance j" using i j by simp
  have ok: "participant_ok (sys_participant s j)" and per: "lh_lease_period (holder_of s j) = period"
    using I ij by (auto simp: inv_participants_def)
  note R = on_peer_request_ok [OF ok ans]
  have wf: "sm_ok (lh_outstanding (lp_holder p))" "sm_ok (lh_outstanding (holder_of s j))"
    using ok R(1) by (auto simp: participant_ok_def holder_ok_def)
  have inv': "lease_inv clk bound_to ok period drift late ?s"
  proof (rule lease_inv_participant [OF inv clocks ij R(1)])
    fix k x assume "voter_bound_to (lp_voter (sys_participant s j)) k x" "now_of clk s j < x"
      "x \<le> now_of clk s j + period"
    with on_peer_request_bound [OF ok ans, of k x] per show "voter_bound_to (lp_voter p) k x" by simp
  next
    fix r' out assume "sm_get (lh_outstanding (lp_holder p)) r' = Some out"
    with R(6) wf show "sm_get (lh_outstanding (holder_of s j)) r' = Some out \<or>
        (lh_last_request_id (holder_of s j) < r' \<and> out_sent_at out \<le> now_of clk s j)"
      by (auto simp: sm_get_iff_mem)
  qed (use R I ij in \<open>auto simp: inv_participants_def\<close>)
  show ?thesis
  proof (cases sent)
    case True
    with sent have g: "ans_verdict (pro_answer outcome) = Granted" by simp
    note G = on_peer_request_granted [OF ok ans g]
    from i have "i \<noteq> 0" by (auto simp: is_instance_def)
    note G = G [OF this]
    have "lease_inv clk bound_to ok period drift late
        (?s\<lparr>sys_net := insert (GrantMsg j i inc e r (sys_time ?s)) (sys_net ?s)\<rparr>)"
      by (rule lease_inv_grant [OF inv' clocks])
        (use req G per ij in \<open>auto simp: vote_bound_def\<close>)
    with True show ?thesis by simp
  next
    case False
    with inv' show ?thesis by simp
  qed
qed

text \<open>An instance receiving a grant: the lease it takes is counted from the moment it sent the request.\<close>

lemma lease_inv_grant_arrives:
  assumes inv: "lease_inv clk bound_to ok period drift late s" and clocks: "clocks_agree clk period (drift - late)"
    and i: "is_instance i" and msg: "GrantMsg v i (sys_incarnation s i) e r g \<in> sys_net s"
    and gr: "participant_on_grant (sys_participant s i) v r e (now_of clk s i) = Inr (ev, p)"
  shows "lease_inv clk bound_to ok period drift late (s\<lparr>sys_participant := (sys_participant s)(i := p)\<rparr>)"
proof -
  note I = inv [unfolded lease_inv_def]
  let ?h = "holder_of s i"
  have ok: "participant_ok (sys_participant s i)" and per: "lh_lease_period ?h = period" "lh_drift_allowance ?h = drift"
    using I i by (auto simp: inv_participants_def)
  note R = participant_on_grant_ok [OF ok gr]
  have wf: "sm_ok (lh_outstanding ?h)" "sm_ok (lh_expiries ?h)" "sm_ok (lh_outstanding (lp_holder p))"
    using ok R(1) by (auto simp: participant_ok_def holder_ok_def)
  have out: "set (lh_outstanding (lp_holder p)) \<subseteq> set (lh_outstanding ?h)"
    unfolding R(2) by (cases rule: on_grant_cases [of ?h v r e "now_of clk s i"]) (auto dest: subsetD [OF erase_subset])
  have new: "(w, x) \<in> set (lh_expiries ?h) \<or>
      (0 < x \<and> (\<exists>g. granted s w i g \<and> x \<le> clk (sys_machine s i) g + period - drift))"
    if w: "(w, x) \<in> set (lh_expiries (lp_holder p))" for w x
  proof (cases rule: on_grant_cases [of ?h v r e "now_of clk s i"])
    case (taken req y)
    then have sent: "out_sent_at req \<le> clk (sys_machine s i) g" using I i msg by (auto simp: inv_sent_def)
    have "0 \<le> now_of clk s i" using clocks_agreeD(1) [OF clocks] by (simp add: now_of_def)
    with taken(5) have pos: "0 < out_sent_at req + period - drift" by (simp add: per)
    from w taken(7) R(2) have wx: "(w, x) = (v, y) \<or> (w, x) \<in> set (lh_expiries ?h)"
      using put_subset [of v y "lh_expiries ?h"] by auto
    have y: "(v, y) \<in> set (lh_expiries ?h) \<or> y = out_sent_at req + period - drift"
      using taken(6) pos per sm_get_iff_mem [OF wf(2)]
      by (auto simp: max_def split: option.splits if_splits)
    have "granted s v i g" using msg by (auto simp: granted_def)
    with wx y pos sent show ?thesis by fastforce
  qed (use w R(2) in auto)
  show ?thesis
  proof (rule lease_inv_participant [OF inv clocks i R(1)])
    fix r' out' assume "sm_get (lh_outstanding (lp_holder p)) r' = Some out'"
    with out wf show "sm_get (lh_outstanding ?h) r' = Some out' \<or>
        (lh_last_request_id ?h < r' \<and> out_sent_at out' \<le> now_of clk s i)"
      by (auto simp: sm_get_iff_mem)
  qed (use R I i new in \<open>auto simp: inv_participants_def\<close>)
qed

text \<open>An instance restarting: its leases go with its process, and its vote stays bound.\<close>

lemma lease_inv_restart:
  assumes inv: "lease_inv clk bound_to ok period drift late s" and i: "is_instance i"
    and p: "participant_ok p" "lp_self_id p = i" "lp_holder p = make_holder period drift"
    and bound: "\<And>g. granted s i (peer_of i) g \<Longrightarrow> relied_on clk period drift late s (peer_of i) g \<Longrightarrow>
      voter_bound_to (lp_voter p) (peer_of i) (clk m g + period)"
  shows "lease_inv clk bound_to ok period drift late
    (s\<lparr>sys_participant := (sys_participant s)(i := p),
      sys_incarnation := (sys_incarnation s)(i := Suc (sys_incarnation s i)),
      sys_machine := (sys_machine s)(i := m)\<rparr>)"
    (is "lease_inv _ _ _ _ _ _ ?s")
proof -
  note I = inv [unfolded lease_inv_def]
  have empty: "lh_outstanding (lp_holder p) = []" "lh_expiries (lp_holder p) = []"
    "lh_state (lp_holder p) = Idle" "lh_lease_period (lp_holder p) = period" "lh_drift_allowance (lp_holder p) = drift"
    by (simp_all add: p(3) make_holder_def)
  have none: "\<not> granted ?s v i g" for v g
  proof
    assume "granted ?s v i g"
    then obtain e r where "GrantMsg v i (Suc (sys_incarnation s i)) e r g \<in> sys_net s" by (auto simp: granted_def)
    with I have "msg_ok s (GrantMsg v i (Suc (sys_incarnation s i)) e r g)" by (auto simp: inv_net_def)
    then show False by (simp add: msg_ok_def)
  qed
  have same: "granted ?s v j g = granted s v j g" "relied_on clk period drift late ?s j g = relied_on clk period drift late s j g"
    if "j \<noteq> i" for v j g using that by (simp_all add: granted_def relied_on_def now_of_def)
  have "inv_participants period drift ?s" using I p(1,2) empty by (simp add: inv_participants_def)
  moreover have net: "inv_net ?s" by (rule inv_net_later [of s]) (use I in auto)
  moreover have "inv_sent clk ?s" using I empty by (auto simp: inv_sent_def now_of_def)
  moreover have "inv_leases clk period drift ?s" using I empty by (auto simp: inv_leases_def same)
  moreover have "inv_votes clk bound_to period drift late ?s"
    unfolding inv_votes_def
  proof (intro allI impI)
    fix v j g assume g: "granted ?s v j g" "relied_on clk period drift late ?s j g"
    then have "j \<noteq> i" using none by blast
    with g have g': "granted s v j g" "relied_on clk period drift late s j g" by (simp_all add: same)
    with granted_net [OF _ g'(1)] I instance_cases [OF i] \<open>j \<noteq> i\<close> have j: "j = peer_of i" by blast
    show "vote_bound bound_to ?s v j (clk (sys_machine ?s v) g + period)"
      using I g' bound [of g] i j by (auto simp: inv_votes_def vote_bound_def)
  qed
  moreover have "inv_third clk period drift late ?s"
    using I none by (auto simp: inv_third_def; metis same)
  moreover have "inv_peer clk period drift late ?s"
    unfolding inv_peer_def
  proof (intro allI impI)
    fix j g assume "is_instance j" "granted ?s (peer_of j) j g" "relied_on clk period drift late ?s j g"
    moreover from this have "j \<noteq> i" using none by blast
    ultimately show "lh_state (holder_of ?s (peer_of j)) = Idle"
      using I empty by (auto simp: inv_peer_def same)
  qed
  ultimately show ?thesis using I by (simp add: lease_inv_def)
qed

lemma restarted_participant_simps:
  "lp_self_id (restarted_participant p st kept now) = lp_self_id p"
  "lp_holder (restarted_participant p st kept now) = lp_holder p"
  "participant_ok (restarted_participant p st kept now) = participant_ok p"
  "lv_quiet_until (lp_voter (restarted_participant p st None now)) = lv_quiet_until (lp_voter p)"
  by (auto simp: restarted_participant_def Let_def participant_ok_def resume_with_kept_promise_def
      restore_recorded_statement_def voter_resume_with_kept_promise_def voter_restore_recorded_statement_def
      split: option.splits prod.splits)

lemma restarted_without_statement:
  "lv_recorded_statement (lp_voter p) = no_statement \<Longrightarrow> restarted_participant p no_statement None now = p"
  by (cases p) (simp add: restarted_participant_def restore_recorded_statement_def voter_restore_recorded_statement_def)

lemma lease_inv_restarts:
  assumes inv: "lease_inv clk bound_to ok period drift late s" and clocks: "clocks_agree clk period (drift - late)"
    and i: "is_instance i" and p: "new_participant i period drift (clk m (sys_time s)) e flag = Inr p"
  shows "lease_inv clk bound_to ok period drift late
    (s\<lparr>sys_participant := (sys_participant s)(i := restarted_participant p st None (clk m (sys_time s))),
      sys_incarnation := (sys_incarnation s)(i := Suc (sys_incarnation s i)),
      sys_machine := (sys_machine s)(i := m)\<rparr>)"
proof (rule lease_inv_restart [OF inv i])
  from p have p: "p = make_participant i period drift (clk m (sys_time s)) e flag"
    and dom: "0 < period" "0 \<le> drift" "drift < period" by (simp_all add: new_participant_Inr)
  show "participant_ok (restarted_participant p st None (clk m (sys_time s)))"
    unfolding restarted_participant_simps p using i dom by (intro make_participant_ok) (auto simp: is_instance_def)
  show "lp_self_id (restarted_participant p st None (clk m (sys_time s))) = i"
    "lp_holder (restarted_participant p st None (clk m (sys_time s))) = make_holder period drift"
    by (simp_all add: restarted_participant_simps p make_participant_def)
  fix g assume "granted s i (peer_of i) g"
  with granted_net(3) [of s] inv have "g \<le> sys_time s" by (auto simp: lease_inv_def)
  then have "clk m g \<le> clk m (sys_time s)" by (rule clocks_agreeD(2) [OF clocks])
  then show "voter_bound_to (lp_voter (restarted_participant p st None (clk m (sys_time s)))) (peer_of i)
      (clk m g + period)"
    by (simp add: voter_bound_to_def restarted_participant_simps) (simp add: p make_participant_def make_voter_def)
qed

lemma lease_inv_resumes:
  assumes inv: "lease_inv clk bound_to ok period drift late s" and clocks: "clocks_agree clk period (drift - late)"
    and i: "is_instance i" and p: "new_participant i period drift (now_of clk s i) e flag = Inr p"
    and kept: "grants_covered clk period s i promised_to until"
  shows "lease_inv clk bound_to ok period drift late
    (s\<lparr>sys_participant := (sys_participant s)
         (i := restarted_participant p st (Some (promised_to, until)) (now_of clk s i)),
      sys_incarnation := (sys_incarnation s)(i := Suc (sys_incarnation s i))\<rparr>)"
proof -
  let ?p = "restarted_participant p st (Some (promised_to, until)) (now_of clk s i)"
  from p have p: "p = make_participant i period drift (now_of clk s i) e flag"
    and dom: "0 < period" "0 \<le> drift" "drift < period" by (simp_all add: new_participant_Inr)
  have "participant_ok ?p"
    unfolding restarted_participant_simps p using i dom by (intro make_participant_ok) (auto simp: is_instance_def)
  moreover have "lp_self_id ?p = i" "lp_holder ?p = make_holder period drift"
    by (simp_all add: restarted_participant_simps p make_participant_def)
  moreover have "voter_bound_to (lp_voter ?p) (peer_of i) (clk (sys_machine s i) g + period)"
    if g: "granted s i (peer_of i) g" and r: "relied_on clk period drift late s (peer_of i) g" for g
  proof -
    let ?x = "clk (sys_machine s i) g + period"
    from g inv have "g \<le> sys_time s" using granted_net(3) [of s] by (auto simp: lease_inv_def)
    from relied_on_within_period [OF clocks this r, of i] have x: "now_of clk s i < ?x" .
    with kept g have "promised_to = peer_of i" "?x \<le> until" by (auto simp: grants_covered_def granted_def)
    with i show ?thesis
      by (simp add: restarted_participant_def p make_participant_def resume_with_kept_promise_def Let_def
          restore_recorded_statement_def voter_resume_with_kept_promise_def voter_bound_to_def)
  qed
  ultimately show ?thesis using lease_inv_restart [OF inv i, of ?p "sys_machine s i"] by simp
qed

text \<open>The third voter answering, restarting, or otherwise changing while it keeps the promises relied on.\<close>

lemma lease_inv_third:
  assumes inv: "lease_inv clk bound_to ok period drift late s" and ok: "ok v"
    and bound: "\<And>i g. granted s third_voter_id i g \<Longrightarrow> relied_on clk period drift late s i g \<Longrightarrow>
      bound_to (sys_third s) i (clk (sys_machine s third_voter_id) g + period) \<Longrightarrow>
      bound_to v i (clk m g + period)"
  shows "lease_inv clk bound_to ok period drift late
    (s\<lparr>sys_third := v, sys_machine := (sys_machine s)(third_voter_id := m)\<rparr>)"
    (is "lease_inv _ _ _ _ _ _ ?s")
proof -
  note I = inv [unfolded lease_inv_def]
  have g: "granted ?s = granted s" by (intro ext) (simp add: granted_def)
  have r: "relied_on clk period drift late ?s i x = relied_on clk period drift late s i x"
    and n: "now_of clk ?s i = now_of clk s i" "sys_machine ?s i = sys_machine s i"
    if "is_instance i" for i x using that by (auto simp: relied_on_def now_of_def third_voter_id_def is_instance_def)
  have inst: "is_instance i" if "granted s w i x" for w i x
    using granted_net(1) [OF _ that] I by simp
  have "inv_votes clk bound_to period drift late ?s"
    unfolding inv_votes_def
  proof (intro allI impI)
    fix w i x assume G: "granted ?s w i x" "relied_on clk period drift late ?s i x"
    with inst r g have G': "granted s w i x" "relied_on clk period drift late s i x" by auto
    with I have "vote_bound bound_to s w i (clk (sys_machine s w) x + period)" by (simp add: inv_votes_def)
    with bound [of i x] G' show "vote_bound bound_to ?s w i (clk (sys_machine ?s w) x + period)"
      by (cases "w = third_voter_id") (simp_all add: vote_bound_def)
  qed
  moreover have "inv_third clk period drift late ?s"
    using I inst r unfolding inv_third_def g by metis
  moreover have "inv_peer clk period drift late ?s"
    using I inst r unfolding inv_peer_def g by auto
  moreover have "inv_sent clk ?s" using I n by (auto simp: inv_sent_def)
  moreover have "inv_leases clk period drift ?s" using I n unfolding inv_leases_def g by auto
  moreover have "inv_net ?s" by (rule inv_net_later [of s]) (use I in auto)
  ultimately show ?thesis using I ok by (simp add: lease_inv_def inv_participants_def)
qed

context voting
begin

lemma lease_inv_third_answers:
  assumes inv: "lease_inv clk bound_to ok period drift late s" and clocks: "clocks_agree clk period (drift - late)"
    and req: "RequestMsg third_voter_id i inc e r \<in> sys_net s"
    and ans: "decide (sys_third s) i e (now_of clk s third_voter_id) = Some (a, v)"
    and sent: "sent \<longrightarrow> ans_verdict a = Granted"
  shows "lease_inv clk bound_to ok period drift late
    (s\<lparr>sys_third := v,
      sys_net := (if sent then insert (GrantMsg third_voter_id i inc e r (sys_time s)) (sys_net s) else sys_net s)\<rparr>)"
proof -
  let ?s = "s\<lparr>sys_third := v\<rparr>" and ?now = "now_of clk s third_voter_id"
  note I = inv [unfolded lease_inv_def]
  have within: "?now < clk (sys_machine s third_voter_id) g + period" "g \<le> sys_time s"
    if "granted s third_voter_id j g" "relied_on clk period drift late s j g" for j g
    using that I granted_net(3) [of s] relied_on_within_period [OF clocks] by blast+
  have mono: "clk (sys_machine s third_voter_id) g \<le> ?now" if "g \<le> sys_time s" for g
    using clocks_agreeD(2) [OF clocks that] by (simp add: now_of_def)
  have "lease_inv clk bound_to ok period drift late
      (s\<lparr>sys_third := v, sys_machine := (sys_machine s)(third_voter_id := sys_machine s third_voter_id)\<rparr>)"
  proof (rule lease_inv_third [OF inv])
    show "ok v" using I ok_decide ans by blast
    fix j g assume G: "granted s third_voter_id j g" "relied_on clk period drift late s j g"
      and b: "bound_to (sys_third s) j (clk (sys_machine s third_voter_id) g + period)"
    from stays_bound [OF _ b _ ans] within [OF G] mono [of g] I
    show "bound_to v j (clk (sys_machine s third_voter_id) g + period)" by force
  qed
  then have inv': "lease_inv clk bound_to ok period drift late ?s" by simp
  show ?thesis
  proof (cases sent)
    case True
    with sent have g: "ans_verdict a = Granted" by simp
    have i: "is_instance i" using req I by (auto simp: inv_net_def msg_ok_def)
    have "lease_inv clk bound_to ok period drift late
        (?s\<lparr>sys_net := insert (GrantMsg third_voter_id i inc e r (sys_time ?s)) (sys_net ?s)\<rparr>)"
    proof (rule lease_inv_grant [OF inv' clocks])
      from binds_itself [OF _ _ ans g] I i
      show "vote_bound bound_to ?s third_voter_id i (now_of clk ?s third_voter_id + period)"
        by (simp add: vote_bound_def now_of_def)
      fix j x assume "granted ?s third_voter_id j x" "relied_on clk period drift late ?s j x"
      then have G: "granted s third_voter_id j x" "relied_on clk period drift late s j x"
        by (simp_all add: granted_def relied_on_def now_of_def)
      with I have "bound_to (sys_third s) j (clk (sys_machine s third_voter_id) x + period)"
        by (force simp: inv_votes_def vote_bound_def)
      from refuses_others [OF _ this within(1) [OF G] _ ans] g I show "j = i" by blast
    qed (use req peer_of_neq(4) [OF i] in auto)
    with True show ?thesis by simp
  next
    case False
    with inv' show ?thesis by simp
  qed
qed

lemma lease_inv_third_restarts:
  assumes inv: "lease_inv clk bound_to ok period drift late s" and clocks: "clocks_agree clk period (drift - late)"
    and r: "restarted (sys_third s) (clk m (sys_time s)) v"
  shows "lease_inv clk bound_to ok period drift late
    (s\<lparr>sys_third := v, sys_machine := (sys_machine s)(third_voter_id := m)\<rparr>)"
proof (rule lease_inv_third [OF inv])
  note I = inv [unfolded lease_inv_def]
  show "ok v" using I ok_restarted r by blast
  fix j g assume "granted s third_voter_id j g"
  with granted_net(3) [of s] I have "clk m g \<le> clk m (sys_time s)" by (intro clocks_agreeD(2) [OF clocks]) auto
  with restart_binds [OF _ r, of j] I show "bound_to v j (clk m g + period)" by (auto intro: bound_earlier)
qed

lemma lease_inv_third_tended:
  assumes inv: "lease_inv clk bound_to ok period drift late s" and t: "tended (sys_third s) v"
  shows "lease_inv clk bound_to ok period drift late (s\<lparr>sys_third := v\<rparr>)"
proof -
  note I = inv [unfolded lease_inv_def]
  have "lease_inv clk bound_to ok period drift late
      (s\<lparr>sys_third := v, sys_machine := (sys_machine s)(third_voter_id := sys_machine s third_voter_id)\<rparr>)"
    by (rule lease_inv_third [OF inv]) (use I t ok_tended tending_keeps in blast)+
  then show ?thesis by simp
qed

lemma lease_inv_init:
  assumes "lease_init clk restarted ok period drift s"
  shows "lease_inv clk bound_to ok period drift late s"
  using assms
proof (cases rule: lease_init.cases)
  case (1 v machine t third e1 flag p1 e2 p2 P st1 st2)
  from 1(4,5) have p: "p1 = make_participant 1 period drift (clk (machine 1) t) e1 flag"
    "p2 = make_participant 2 period drift (clk (machine 2) t) e2 flag"
    and dom: "0 < period" "0 \<le> drift" "drift < period" by (simp_all add: new_participant_Inr)
  have ok': "participant_ok p1" "participant_ok p2" unfolding p by (intro make_participant_ok; use dom in simp)+
  have fresh: "lp_self_id p1 = 1" "lp_self_id p2 = 2" "lp_holder p1 = make_holder period drift"
    "lp_holder p2 = make_holder period drift" by (simp_all add: p make_participant_def)
  have "ok third" using 1 ok_restarted by blast
  with ok' fresh 1(6,7) show ?thesis
    unfolding 1(1) lease_inv_def inv_defs
    by (auto simp: granted_def make_holder_def is_instance_def restarted_participant_simps)
qed

lemma lease_step_inv:
  assumes "lease_step clk decide restarted tended period drift s s'"
    and "lease_inv clk bound_to ok period drift late s" and "clocks_agree clk period (drift - late)"
  shows "lease_inv clk bound_to ok period drift late s'"
  using assms
proof (induction rule: lease_step.induct)
  case time_passes then show ?case by (intro lease_inv_time)
next
  case instance_acts then show ?case by (intro lease_inv_acts)
next
  case instance_asks then show ?case by (intro lease_inv_asks)
next
  case peer_answers then show ?case by (intro lease_inv_peer_answers)
next
  case third_answers then show ?case by (intro lease_inv_third_answers)
next
  case grant_arrives then show ?case by (intro lease_inv_grant_arrives)
next
  case third_restarts then show ?case by (intro lease_inv_third_restarts)
next
  case third_tended then show ?case by (intro lease_inv_third_tended)
next
  case instance_restarts then show ?case by (intro lease_inv_restarts)
next
  case instance_resumes then show ?case by (intro lease_inv_resumes)
qed

lemma lease_reachable_inv:
  assumes "lease_reachable clk decide restarted tended ok period drift s"
    and "clocks_agree clk period (drift - late)"
  shows "lease_inv clk bound_to ok period drift late s"
  using assms by (induction rule: lease_reachable.induct) (auto intro: lease_inv_init lease_step_inv)

lemma epoch_names_its_candidate:
  assumes "lease_reachable clk decide restarted tended ok period drift s"
    and "clocks_agree clk period drift" and "is_instance i" and "lh_state (holder_of s i) \<noteq> Idle"
  shows "lh_epoch (holder_of s i) mod 4 = i"
  using lease_reachable_inv [of clk drift s 0] assms
  by (auto simp: lease_inv_def inv_participants_def participant_ok_def)

lemma one_leader_at_a_time:
  assumes "lease_reachable clk decide restarted tended ok period drift s"
    and "clocks_agree clk period (drift - late)" and "0 \<le> late" and "is_instance i" and "is_instance j"
    and "acts_as_leader clk late s i" and "acts_as_leader clk late s j"
  shows "i = j"
  using lease_inv_one_leader [OF lease_reachable_inv] assms by blast

end

end
