(* ===== verification/LeaseTiming.thy ===== *)
theory LeaseTiming
  imports Prelude
begin

text \<open>
  \<open>LeaseTiming.hpp\<close> and \<open>VotingPair.hpp\<close>: the timings of the lease rules and the pairs a voter votes
  for, as read from configuration. The configuration file is a parameter: a lookup that gives the
  value under a key, or nothing where \<open>get_required_except\<close> throws.
\<close>

section \<open>LeaseTiming\<close>

definition tick_interval :: int where
  "tick_interval = 100"

text \<open>The three timings are in milliseconds.\<close>

record lease_timing =
  lt_period :: int
  lt_drift_allowance :: int
  lt_renewal_interval :: int

definition get_required_except :: "(string \<Rightarrow> 'a option) \<Rightarrow> string \<Rightarrow> 'a result" where
  "get_required_except toml key = (case toml key of None \<Rightarrow> Inl ConfigurationException | Some x \<Rightarrow> Inr x)"

text \<open>
  \<open>2 * renewal_interval_milliseconds\<close> is computed in \<open>int32_t\<close>, so it wraps; the tick count it is not
  compared with is an \<open>int64_t\<close>.
\<close>

definition lease_timing_load :: "(string \<Rightarrow> int option) \<Rightarrow> lease_timing result" where
  "lease_timing_load toml =
     bind_result (get_required_except toml ''lease.period_milliseconds'') (\<lambda>period.
     bind_result (get_required_except toml ''lease.drift_allowance_milliseconds'') (\<lambda>drift_allowance.
     bind_result (get_required_except toml ''lease.renewal_interval_milliseconds'') (\<lambda>renewal_interval.
       if period \<le> 0 then Inl ConfigurationException
       else if drift_allowance < 2 * tick_interval \<or> period \<le> drift_allowance then Inl ConfigurationException
       else if renewal_interval \<le> 0 \<or> wrap32 (period - drift_allowance) < wrap32 (2 * renewal_interval)
         then Inl ConfigurationException
       else Inr \<lparr>lt_period = period, lt_drift_allowance = drift_allowance, lt_renewal_interval = renewal_interval\<rparr>)))"

text \<open>What the checks are there to ensure.\<close>

definition timing_ok :: "lease_timing \<Rightarrow> bool" where
  "timing_ok t \<longleftrightarrow>
     0 < lt_period t \<and> 2 * tick_interval \<le> lt_drift_allowance t \<and> lt_drift_allowance t < lt_period t \<and>
     0 < lt_renewal_interval t \<and> 2 * lt_renewal_interval t \<le> lt_period t - lt_drift_allowance t"

lemma lease_timing_load_Inr:
  "lease_timing_load toml = Inr t \<longleftrightarrow>
     toml ''lease.period_milliseconds'' = Some (lt_period t) \<and>
     toml ''lease.drift_allowance_milliseconds'' = Some (lt_drift_allowance t) \<and>
     toml ''lease.renewal_interval_milliseconds'' = Some (lt_renewal_interval t) \<and>
     0 < lt_period t \<and> 2 * tick_interval \<le> lt_drift_allowance t \<and> lt_drift_allowance t < lt_period t \<and>
     0 < lt_renewal_interval t \<and>
     wrap32 (2 * lt_renewal_interval t) \<le> wrap32 (lt_period t - lt_drift_allowance t)"
  by (cases t)
    (auto simp: lease_timing_load_def get_required_except_def bind_result_def
      split: option.splits sum.splits if_splits)

section \<open>VotingPair\<close>

record voting_pair =
  vp_pair_id :: int
  vp_name :: string

definition load_voting_pair :: "(string \<Rightarrow> int option) \<Rightarrow> (string \<Rightarrow> string option) \<Rightarrow> string \<Rightarrow> voting_pair result" where
  "load_voting_pair toml_int toml_string prefix =
     bind_result (get_required_except toml_int (prefix @ ''.pair_id'')) (\<lambda>pair_id.
     bind_result (get_required_except toml_string (prefix @ ''.name'')) (\<lambda>name.
       if pair_id \<le> 0 then Inl ConfigurationException
       else if name = '''' then Inl ConfigurationException
       else Inr \<lparr>vp_pair_id = pair_id, vp_name = name\<rparr>))"

text \<open>The inner loop over \<open>j\<close> for one \<open>i\<close>, and the outer loop.\<close>

fun repeats :: "voting_pair \<Rightarrow> voting_pair list \<Rightarrow> bool" where
  "repeats p [] = False"
| "repeats p (q # qs) = (if vp_pair_id p = vp_pair_id q then True else if vp_name p = vp_name q then True else repeats p qs)"

fun refuse_repeated_voting_pairs :: "voting_pair list \<Rightarrow> unit result" where
  "refuse_repeated_voting_pairs [] = Inr ()"
| "refuse_repeated_voting_pairs (p # ps) =
     (if repeats p ps then Inl ConfigurationException else refuse_repeated_voting_pairs ps)"

lemma repeats_iff: "repeats p qs \<longleftrightarrow> vp_pair_id p \<in> vp_pair_id ` set qs \<or> vp_name p \<in> vp_name ` set qs"
  by (induction qs) auto

lemma refuse_repeated_iff:
  "refuse_repeated_voting_pairs ps = Inr () \<longleftrightarrow> distinct (map vp_pair_id ps) \<and> distinct (map vp_name ps)"
  by (induction ps) (auto simp: repeats_iff)

section \<open>Properties\<close>

text \<open>
  C4. Lease timings that are read successfully satisfy what the checks are for, unless the renewal
  interval is so large that doubling it overflows: the drift allowance is at least two ticks and below the
  period, and a leader can renew twice within the part of the lease it relies on.
\<close>

theorem lease_timing_load_sound:
  assumes "lease_timing_load toml = Inr t" and "\<forall>key x. toml key = Some x \<longrightarrow> in_int32 x"
    and "lt_renewal_interval t < 1073741824"
  shows "timing_ok t"
proof -
  from assms(1) have load: "toml ''lease.period_milliseconds'' = Some (lt_period t)" "0 < lt_period t"
    "2 * tick_interval \<le> lt_drift_allowance t" "lt_drift_allowance t < lt_period t" "0 < lt_renewal_interval t"
    "wrap32 (2 * lt_renewal_interval t) \<le> wrap32 (lt_period t - lt_drift_allowance t)"
    by (simp_all add: lease_timing_load_Inr)
  with assms(2) have "in_int32 (lt_period t)" by blast
  with load(2-4) have "in_int32 (lt_period t - lt_drift_allowance t)" by (simp add: in_int32_def tick_interval_def)
  moreover have "in_int32 (2 * lt_renewal_interval t)" using assms(3) load(5) by (simp add: in_int32_def int32_max_def)
  ultimately show ?thesis using load by (simp add: timing_ok_def wrap32_id)
qed

definition timing_example :: "int \<Rightarrow> string \<Rightarrow> int option" where
  "timing_example renewal =
     map_of [(''lease.period_milliseconds'', 3000), (''lease.drift_allowance_milliseconds'', 250),
             (''lease.renewal_interval_milliseconds'', renewal)]"

lemma timing_example_load:
  "wrap32 (2 * r) \<le> 2750 \<Longrightarrow> 0 < r \<Longrightarrow>
     lease_timing_load (timing_example r) = Inr \<lparr>lt_period = 3000, lt_drift_allowance = 250, lt_renewal_interval = r\<rparr>"
  by (simp add: lease_timing_load_Inr timing_example_def tick_interval_def) (simp add: wrap32_def)

lemma timing_example_int32: "in_int32 r \<Longrightarrow> timing_example r key = Some x \<Longrightarrow> in_int32 x"
  by (auto simp: timing_example_def in_int32_def int32_max_def split: if_splits)

theorem lease_timing_load_sound_witness:
  "timing_ok \<lparr>lt_period = 3000, lt_drift_allowance = 250, lt_renewal_interval = 1000\<rparr>"
proof (rule lease_timing_load_sound)
  show "lease_timing_load (timing_example 1000) =
      Inr \<lparr>lt_period = 3000, lt_drift_allowance = 250, lt_renewal_interval = 1000\<rparr>"
    by (rule timing_example_load) (simp_all add: wrap32_def)
  show "\<forall>key x. timing_example 1000 key = Some x \<longrightarrow> in_int32 x"
    using timing_example_int32 [of 1000] by (simp add: in_int32_def int32_max_def)
qed simp


text \<open>
  C6. A list of voting pairs is accepted exactly when no two of them share a number or a name.
\<close>

theorem voting_pairs_accepted_iff_distinct:
  "refuse_repeated_voting_pairs ps = Inr () \<longleftrightarrow> distinct (map vp_pair_id ps) \<and> distinct (map vp_name ps)"
  by (rule refuse_repeated_iff)

end
