(* ===== verification/PromiseRecorder.thy ===== *)
theory PromiseRecorder
  imports LeaderIdentity
begin

text \<open>
  \<open>LeasePromiseRecord.hpp\<close> and \<open>BackgroundPromiseRecorder.hpp\<close>: the record an instance keeps of its
  promise, and the recorder that writes it on a thread of its own. The two threads share one slot and
  two counters; here a record holds what they share, what the lease thread keeps for itself, and what
  the disk says.
\<close>

section \<open>State and operations\<close>

record lease_promise_record =
  lpr_promised_to :: instance_id
  lpr_until :: time_point
  lpr_statement :: leader_statement

definition no_promise :: lease_promise_record where
  "no_promise = \<lparr>lpr_promised_to = 0, lpr_until = 0, lpr_statement = no_statement\<rparr>"

text \<open>
  The counters are \<open>uint64_t\<close> and go up by one per write, so they do not wrap in the life of a process.
  \<open>pr_writer\<close> is how far the writer thread has got: looking for work, holding a copy of the slot, or having
  renamed the new record over the old one. \<open>pr_disk\<close> is what a restart would read,
  and \<open>pr_this_boot\<close> whether this boot of the machine wrote it, without which only its statement is believed.
\<close>

datatype writer_phase = LookingForWork | CopiedSlot lease_promise_record | ReplacedRecord

record promise_recorder =
  pr_requests_started :: nat
  pr_requests_finished :: nat
  pr_last_write_succeeded :: bool
  pr_slot :: lease_promise_record
  pr_outcomes_read :: nat
  pr_writer :: writer_phase
  pr_disk :: lease_promise_record
  pr_this_boot :: bool

definition new_recorder :: "lease_promise_record \<Rightarrow> bool \<Rightarrow> promise_recorder" where
  "new_recorder disk this_boot =
     \<lparr>pr_requests_started = 0, pr_requests_finished = 0, pr_last_write_succeeded = False, pr_slot = no_promise,
      pr_outcomes_read = 0, pr_writer = LookingForWork, pr_disk = disk,
      pr_this_boot = this_boot\<rparr>"

definition record_in_background :: "promise_recorder \<Rightarrow> lease_promise_record \<Rightarrow> bool \<times> promise_recorder" where
  "record_in_background r rec =
     (if pr_requests_started r \<noteq> pr_requests_finished r then (False, r)
      else (True, r\<lparr>pr_slot := rec, pr_outcomes_read := pr_requests_finished r,
                    pr_requests_started := pr_requests_started r + 1\<rparr>))"

definition background_result :: "promise_recorder \<Rightarrow> bool option \<times> promise_recorder" where
  "background_result r =
     (if pr_requests_finished r = pr_outcomes_read r then (None, r)
      else (Some (pr_last_write_succeeded r), r\<lparr>pr_outcomes_read := pr_requests_finished r\<rparr>))"

text \<open>
  One turn of the loop in \<open>write_requests\<close>, in the steps another thread or a restart can see. The slot is
  copied; the store replaces the record on disk by a rename, or fails before it gets that far; then the
  outcome and the count are stored.
\<close>

inductive writer_step :: "promise_recorder \<Rightarrow> promise_recorder \<Rightarrow> bool" where
  writer_copies: "pr_requests_started r \<noteq> pr_requests_finished r \<Longrightarrow> pr_writer r = LookingForWork \<Longrightarrow>
    writer_step r (r\<lparr>pr_writer := CopiedSlot (pr_slot r)\<rparr>)"
| writer_replaces: "pr_writer r = CopiedSlot rec \<Longrightarrow> writer_step r (r\<lparr>pr_writer := ReplacedRecord, pr_disk := rec,
      pr_this_boot := True\<rparr>)"
| writer_succeeds: "pr_writer r = ReplacedRecord \<Longrightarrow>
    writer_step r (r\<lparr>pr_writer := LookingForWork, pr_last_write_succeeded := True,
      pr_requests_finished := pr_requests_finished r + 1\<rparr>)"
| writer_fails: "pr_writer r = CopiedSlot rec \<Longrightarrow>
    writer_step r (r\<lparr>pr_writer := LookingForWork, pr_last_write_succeeded := False,
      pr_requests_finished := pr_requests_finished r + 1\<rparr>)"

inductive_cases writer_stepE: "writer_step r r'"

text \<open>The promise a restart would read from disk.\<close>

definition kept_on_disk :: "promise_recorder \<Rightarrow> instance_id \<times> time_point" where
  "kept_on_disk r = (lpr_promised_to (pr_disk r), lpr_until (pr_disk r))"

section \<open>The protocol between the two threads\<close>

text \<open>
  At most one write is in progress; the writer reads the slot only while one is; an outcome is
  unread only when none is; and a write that is reported to have succeeded is on the disk.
\<close>

definition recorder_ok :: "promise_recorder \<Rightarrow> bool" where
  "recorder_ok r \<longleftrightarrow>
     (pr_requests_started r = pr_requests_finished r \<or> pr_requests_started r = pr_requests_finished r + 1) \<and>
     (pr_writer r \<noteq> LookingForWork \<longrightarrow> pr_requests_started r = pr_requests_finished r + 1) \<and>
     (\<forall>rec. pr_writer r = CopiedSlot rec \<longrightarrow> rec = pr_slot r) \<and>
     (pr_writer r = ReplacedRecord \<longrightarrow> pr_disk r = pr_slot r) \<and>
     (pr_outcomes_read r = pr_requests_finished r \<or>
        pr_requests_started r = pr_requests_finished r \<and> pr_outcomes_read r < pr_requests_finished r \<and>
        (pr_last_write_succeeded r \<longrightarrow> pr_disk r = pr_slot r))"

text \<open>A write has been asked for and its outcome has not been read.\<close>

definition write_pending :: "promise_recorder \<Rightarrow> bool" where
  "write_pending r \<longleftrightarrow> pr_requests_started r \<noteq> pr_outcomes_read r"

lemma recorder_ok_new: "recorder_ok (new_recorder d b)" "\<not> write_pending (new_recorder d b)"
  by (simp_all add: recorder_ok_def new_recorder_def write_pending_def)

lemma recorder_ok_record:
  "recorder_ok r \<Longrightarrow> recorder_ok (snd (record_in_background r rec))"
  by (auto simp: recorder_ok_def record_in_background_def)

lemma recorder_ok_result: "recorder_ok r \<Longrightarrow> recorder_ok (snd (background_result r))"
  by (auto simp: recorder_ok_def background_result_def)

lemma recorder_ok_writer: "writer_step r r' \<Longrightarrow> recorder_ok r \<Longrightarrow> recorder_ok r'"
  by (induction rule: writer_step.induct) (auto simp: recorder_ok_def)

text \<open>
  What the lease thread can count on, as an interface. A write it starts when none is pending is
  accepted; while it is pending the disk says what it said before or what is being written; and when
  the outcome is reported to be a success the disk says what was written.
\<close>

locale background_recording =
  fixes start :: "'r \<Rightarrow> lease_promise_record \<Rightarrow> bool \<times> 'r"
    and outcome :: "'r \<Rightarrow> bool option \<times> 'r"
    and writer :: "'r \<Rightarrow> 'r \<Rightarrow> bool"
    and disk :: "'r \<Rightarrow> lease_promise_record"
    and slot :: "'r \<Rightarrow> lease_promise_record"
    and pending :: "'r \<Rightarrow> bool"
    and invar :: "'r \<Rightarrow> bool"
  assumes start_accepted: "invar r \<Longrightarrow> \<not> pending r \<Longrightarrow>
      fst (start r rec) \<and> pending (snd (start r rec)) \<and> slot (snd (start r rec)) = rec"
    and start_disk: "invar r \<Longrightarrow> disk (snd (start r rec)) = disk r"
    and start_invar: "invar r \<Longrightarrow> invar (snd (start r rec))"
    and outcome_disk: "invar r \<Longrightarrow> disk (snd (outcome r)) = disk r"
    and outcome_invar: "invar r \<Longrightarrow> invar (snd (outcome r))"
    and outcome_done: "invar r \<Longrightarrow> pending r \<Longrightarrow> fst (outcome r) = Some ok \<Longrightarrow> \<not> pending (snd (outcome r))"
    and outcome_written: "invar r \<Longrightarrow> pending r \<Longrightarrow> fst (outcome r) = Some True \<Longrightarrow> disk r = slot r"
    and outcome_waiting: "invar r \<Longrightarrow> fst (outcome r) = None \<Longrightarrow> snd (outcome r) = r"
    and writer_invar: "invar r \<Longrightarrow> writer r r' \<Longrightarrow> invar r'"
    and writer_slot: "invar r \<Longrightarrow> writer r r' \<Longrightarrow> slot r' = slot r"
    and writer_pending: "invar r \<Longrightarrow> writer r r' \<Longrightarrow> pending r' = pending r"
    and writer_disk: "invar r \<Longrightarrow> writer r r' \<Longrightarrow> disk r' = disk r \<or> pending r \<and> disk r' = slot r"
begin

text \<open>However long the writer runs with no write pending, the disk stays as it is.\<close>

lemma quiet_disk:
  assumes "writer\<^sup>*\<^sup>* r r'" and "invar r" and "\<not> pending r"
  shows "disk r' = disk r \<and> invar r' \<and> \<not> pending r'"
  using assms by (induction rule: rtranclp_induct) (auto simp: writer_invar writer_pending dest: writer_disk)

text \<open>A write that is started, left to the writer and then reported a success is what the disk says.\<close>

lemma start_then_success:
  assumes "invar r" and "\<not> pending r" and "writer\<^sup>*\<^sup>* (snd (start r rec)) r'" and "fst (outcome r') = Some True"
  shows "disk (snd (outcome r')) = rec"
proof -
  have "invar r' \<and> pending r' \<and> slot r' = rec"
    using assms(3)
    by (induction rule: rtranclp_induct)
      (use assms(1,2) in \<open>auto simp: start_accepted start_invar writer_invar writer_pending writer_slot\<close>)
  with assms(4) show ?thesis by (metis outcome_disk outcome_written)
qed

end

interpretation promise_writer: background_recording
  record_in_background background_result writer_step pr_disk pr_slot write_pending recorder_ok
proof unfold_locales
  fix r r' :: promise_recorder and rec ok
  assume ok: "recorder_ok r"
  show "\<not> write_pending r \<Longrightarrow> fst (record_in_background r rec) \<and> write_pending (snd (record_in_background r rec)) \<and>
      pr_slot (snd (record_in_background r rec)) = rec"
    using ok by (auto simp: write_pending_def record_in_background_def recorder_ok_def)
  show "pr_disk (snd (record_in_background r rec)) = pr_disk r" "pr_disk (snd (background_result r)) = pr_disk r"
    by (simp_all add: record_in_background_def background_result_def)
  show "recorder_ok (snd (record_in_background r rec))" "recorder_ok (snd (background_result r))"
    using ok by (simp_all add: recorder_ok_record recorder_ok_result)
  show "write_pending r \<Longrightarrow> fst (background_result r) = Some ok \<Longrightarrow> \<not> write_pending (snd (background_result r))"
    "write_pending r \<Longrightarrow> fst (background_result r) = Some True \<Longrightarrow> pr_disk r = pr_slot r"
    "fst (background_result r) = None \<Longrightarrow> snd (background_result r) = r"
    using ok by (auto simp: background_result_def write_pending_def recorder_ok_def split: if_splits)
  show "writer_step r r' \<Longrightarrow> recorder_ok r'" using ok by (rule recorder_ok_writer [rotated])
  show "writer_step r r' \<Longrightarrow> pr_slot r' = pr_slot r"
    "writer_step r r' \<Longrightarrow> write_pending r' = write_pending r"
    "writer_step r r' \<Longrightarrow> pr_disk r' = pr_disk r \<or> write_pending r \<and> pr_disk r' = pr_slot r"
    using ok by (auto elim!: writer_stepE simp: write_pending_def recorder_ok_def)
qed

end
