(* ===== verification/PairLeaseAgent.thy ===== *)
theory PairLeaseAgent
  imports LeaseSystem LeaseTiming PromiseRecorder
begin

text \<open>
  \<open>PairLeaseAgent.hpp\<close>: the agent that runs the lease rules for one instance. Each handler returns the
  change the owner must act on and the messages it sends, in order. The links, the log, the metrics and
  the test events are output only; of them the messages are kept. What the agent asks of the outside is
  an argument: the random wait drawn (\<open>draw\<close>, in milliseconds) and the time the epoch's record took
  (\<open>took\<close>, zero when no recorder was given). Time is in nanoseconds, the timings are in milliseconds.
\<close>

section \<open>Messages and state\<close>

definition ms :: "int \<Rightarrow> duration" where
  "ms x = x * 1000000"

datatype refusal_reason =
  ReasonUnknown | ReasonRestarting | ReasonPromisedElsewhere | ReasonEpochBehind | ReasonMayNotLead | ReasonRecordingPromise

text \<open>A request carries a statement only while its sender leads; otherwise those fields are left unset.\<close>

record lease_request =
  lrq_candidate :: instance_id
  lrq_pair_id :: int
  lrq_epoch :: epoch
  lrq_request_id :: int
  lrq_statement :: "leader_statement option"

record lease_grant =
  lgr_voter :: instance_id
  lgr_pair_id :: int
  lgr_epoch :: epoch
  lgr_request_id :: int
  lgr_echoed :: int

record lease_refusal =
  lrf_voter :: instance_id
  lrf_pair_id :: int
  lrf_highest_epoch :: epoch
  lrf_request_id :: int
  lrf_reason :: refusal_reason

datatype lease_send =
    ToPeer lease_request
  | ToThirdVoter lease_request
  | GrantOn int lease_grant
  | RefusalOn int lease_refusal

datatype change = NoChange | BecameLeader | StoppedLeading | AgreedPeerLeads

record pair_lease_agent =
  pa_pair_id :: int
  pa_self_id :: instance_id
  pa_peer_id :: instance_id
  pa_third_voter_id :: instance_id
  pa_timing :: lease_timing
  pa_participant :: lease_participant
  pa_last_tick_at :: time_point
  pa_last_renewal :: time_point
  pa_asked_at :: time_point
  pa_recorder :: "promise_recorder option"
  pa_recorded_to :: instance_id
  pa_recorded_until :: time_point
  pa_recorded_statement :: leader_statement
  pa_in_flight :: bool
  pa_background_record :: lease_promise_record
  pa_record_wanted :: bool
  pa_wanted_to :: instance_id
  pa_wanted_until :: time_point
  pa_peer_refused :: bool
  pa_third_refused :: bool
  pa_resuming_lead_until :: time_point
  pa_reported_no_leader :: bool
  pa_reported_may_not_lead :: bool
  pa_asks_to_lead :: bool
  pa_reported_write_failed :: bool

definition promise_record_margin :: duration where
  "promise_record_margin = ms 10000"

definition refresh_ahead :: duration where
  "refresh_ahead = promise_record_margin div 2"

section \<open>Construction and restart\<close>

definition new_agent ::
  "int \<Rightarrow> instance_id \<Rightarrow> instance_id \<Rightarrow> instance_id \<Rightarrow> lease_timing \<Rightarrow> time_point \<Rightarrow> epoch \<Rightarrow> peer_statements \<Rightarrow>
   pair_lease_agent result" where
  "new_agent pair_id self_id peer_id third_id timing started_at persisted_epoch flag =
     bind_result (new_participant self_id (ms (lt_period timing)) (ms (lt_drift_allowance timing)) started_at persisted_epoch flag)
       (\<lambda>p. Inr
         \<lparr>pa_pair_id = pair_id, pa_self_id = self_id, pa_peer_id = peer_id, pa_third_voter_id = third_id, pa_timing = timing,
          pa_participant = (if peer_id < self_id
             then participant_stop p started_at (ms (lt_period timing + lt_renewal_interval timing)) else p),
          pa_last_tick_at = 0, pa_last_renewal = 0, pa_asked_at = 0, pa_recorder = None, pa_recorded_to = 0,
          pa_recorded_until = 0, pa_recorded_statement = no_statement, pa_in_flight = False,
          pa_background_record = no_promise, pa_record_wanted = False, pa_wanted_to = 0, pa_wanted_until = 0,
          pa_peer_refused = False, pa_third_refused = False, pa_resuming_lead_until = 0, pa_reported_no_leader = False,
          pa_reported_may_not_lead = False, pa_asks_to_lead = True, pa_reported_write_failed = False\<rparr>)"

text \<open>\<open>kept\<close> is the promise on disk if this boot of the machine wrote it; \<open>kept_statement\<close> is kept whichever boot did.\<close>

definition keep_promises_in ::
  "pair_lease_agent \<Rightarrow> promise_recorder \<Rightarrow> (instance_id \<times> time_point) option \<Rightarrow> leader_statement \<Rightarrow> time_point \<Rightarrow>
   pair_lease_agent" where
  "keep_promises_in a recorder kept kept_statement now =
     (let a1 = a\<lparr>pa_recorder := Some recorder,
                 pa_participant := restore_recorded_statement (pa_participant a) kept_statement,
                 pa_recorded_statement := kept_statement\<rparr>
      in case kept of
           None \<Rightarrow> a1
         | Some (promised_to, until) \<Rightarrow>
             let was_leading = promised_to = pa_self_id a \<and> now < until;
                 p2 = resume_with_kept_promise (pa_participant a1) (if was_leading then 0 else promised_to)
                        (if was_leading then now else until) now;
                 a2 = a1\<lparr>pa_participant := p2, pa_recorded_to := promised_to, pa_recorded_until := until\<rparr>
             in if was_leading
                then a2\<lparr>pa_participant := participant_stop p2 now 0, pa_resuming_lead_until := until\<rparr>
                else a2)"

section \<open>Keeping the record\<close>

text \<open>Called only while a recorder is set; without one there is nothing to write through.\<close>

definition start_record :: "pair_lease_agent \<Rightarrow> instance_id \<Rightarrow> time_point \<Rightarrow> pair_lease_agent" where
  "start_record a promised_to until =
     (case pa_recorder a of
        None \<Rightarrow> a
      | Some r \<Rightarrow>
          let rec = \<lparr>lpr_promised_to = promised_to, lpr_until = until,
                     lpr_statement = lv_recorded_statement (lp_voter (pa_participant a))\<rparr>;
              (started, r') = (if pa_in_flight a then (False, r) else record_in_background r rec)
          in if started
             then a\<lparr>pa_recorder := Some r', pa_in_flight := True, pa_background_record := rec, pa_record_wanted := False\<rparr>
             else a\<lparr>pa_recorder := Some r', pa_record_wanted := True, pa_wanted_to := promised_to, pa_wanted_until := until\<rparr>)"

definition start_wanted_record :: "pair_lease_agent \<Rightarrow> pair_lease_agent" where
  "start_wanted_record a =
     (if pa_recorder a \<noteq> None \<and> pa_record_wanted a \<and> \<not> pa_in_flight a
      then start_record a (pa_wanted_to a) (pa_wanted_until a) else a)"

definition write_in_progress_covers :: "pair_lease_agent \<Rightarrow> instance_id \<Rightarrow> time_point \<Rightarrow> bool" where
  "write_in_progress_covers a promised_to expires_at \<longleftrightarrow>
     (if pa_record_wanted a then pa_wanted_to a = promised_to \<and> expires_at \<le> pa_wanted_until a
      else pa_in_flight a \<and> lpr_promised_to (pa_background_record a) = promised_to \<and>
           expires_at \<le> lpr_until (pa_background_record a))"

definition adopt_background_record :: "pair_lease_agent \<Rightarrow> pair_lease_agent" where
  "adopt_background_record a =
     (case pa_recorder a of
        None \<Rightarrow> a
      | Some r \<Rightarrow>
          if \<not> pa_in_flight a then a
          else case background_result r of
                 (None, r') \<Rightarrow> a\<lparr>pa_recorder := Some r'\<rparr>
               | (Some written, r') \<Rightarrow>
                   let a1 = a\<lparr>pa_recorder := Some r', pa_in_flight := False\<rparr> in
                   if written
                   then a1\<lparr>pa_recorded_to := lpr_promised_to (pa_background_record a),
                           pa_recorded_until := lpr_until (pa_background_record a),
                           pa_recorded_statement := lpr_statement (pa_background_record a),
                           pa_reported_write_failed := False\<rparr>
                   else a1\<lparr>pa_reported_write_failed := True\<rparr>)"

definition write_statement_if_needed :: "pair_lease_agent \<Rightarrow> pair_lease_agent" where
  "write_statement_if_needed a =
     (if pa_recorder a = None \<or> pa_in_flight a \<or> pa_record_wanted a \<or>
         same_as (pa_recorded_statement a) (lv_recorded_statement (lp_voter (pa_participant a)))
      then a else start_record a (pa_recorded_to a) (pa_recorded_until a))"

definition report_whether_may_lead :: "pair_lease_agent \<Rightarrow> pair_lease_agent" where
  "report_whether_may_lead a =
     a\<lparr>pa_reported_may_not_lead :=
       (instance_that_may_not_lead (lv_recorded_statement (lp_voter (pa_participant a))) = pa_self_id a)\<rparr>"

definition refresh_in_background :: "pair_lease_agent \<Rightarrow> instance_id \<Rightarrow> time_point \<Rightarrow> pair_lease_agent" where
  "refresh_in_background a promised_to expires_at =
     (if pa_in_flight a \<or> pa_record_wanted a \<or> refresh_ahead < pa_recorded_until a - expires_at then a
      else start_record a promised_to (expires_at + promise_record_margin))"

text \<open>The test shared by \<open>promise_recorded\<close> and \<open>record_leading\<close>: whether the record covers, and the write to start.\<close>

definition record_covering :: "pair_lease_agent \<Rightarrow> instance_id \<Rightarrow> time_point \<Rightarrow> bool \<times> pair_lease_agent" where
  "record_covering a promised_to expires_at =
     (if pa_recorded_to a = promised_to \<and> expires_at \<le> pa_recorded_until a
      then (True, refresh_in_background a promised_to expires_at)
      else if \<not> write_in_progress_covers a promised_to expires_at
      then (False, start_record a promised_to (expires_at + promise_record_margin))
      else (False, a))"

definition promise_recorded :: "pair_lease_agent \<Rightarrow> instance_id \<Rightarrow> bool \<times> pair_lease_agent" where
  "promise_recorded a candidate_id =
     (if pa_recorder a = None then (True, a)
      else let a1 = adopt_background_record a
           in record_covering a1 candidate_id (lv_promise_expires (lp_voter (pa_participant a1))))"

definition record_leading :: "pair_lease_agent \<Rightarrow> pair_lease_agent" where
  "record_leading a =
     (if pa_recorder a = None \<or> lh_state (lp_holder (pa_participant a)) \<noteq> Leading then a
      else let a1 = adopt_background_record a
           in snd (record_covering a1 (pa_self_id a1) (holder_lease_expires_at (lp_holder (pa_participant a1)))))"

section \<open>Asking the voters\<close>

fun refusal_reason_for :: "verdict \<Rightarrow> refusal_reason" where
  "refusal_reason_for RefusedWhileRestarting = ReasonRestarting"
| "refusal_reason_for RefusedPromisedElsewhere = ReasonPromisedElsewhere"
| "refusal_reason_for RefusedEpochBehind = ReasonEpochBehind"
| "refusal_reason_for RefusedMayNotLead = ReasonMayNotLead"
| "refusal_reason_for Granted = ReasonUnknown"

text \<open>The wait drawn lies between a quarter and three quarters of the renewal interval.\<close>

definition wait_drawn :: "pair_lease_agent \<Rightarrow> int \<Rightarrow> bool" where
  "wait_drawn a draw \<longleftrightarrow>
     (let quarter = lt_renewal_interval (pa_timing a) div 4 in quarter \<le> draw \<and> draw \<le> 3 * quarter)"

definition ask_voters :: "pair_lease_agent \<Rightarrow> epoch \<Rightarrow> time_point \<Rightarrow> lease_send list \<times> pair_lease_agent" where
  "ask_voters a epoch now =
     (let p = pa_participant a;
          request = \<lparr>lrq_candidate = pa_self_id a, lrq_pair_id = pa_pair_id a, lrq_epoch = epoch, lrq_request_id = 0,
                     lrq_statement = (if lh_state (lp_holder p) = Leading then Some (lp_statement p) else None)\<rparr>;
          (r1, p1) = record_request p (pa_peer_id a) now;
          (r2, p2) = record_request p1 (pa_third_voter_id a) now
      in ([ToPeer (request\<lparr>lrq_request_id := r1\<rparr>), ToThirdVoter (request\<lparr>lrq_request_id := r2\<rparr>)],
          a\<lparr>pa_participant := p2\<rparr>))"

definition renew :: "pair_lease_agent \<Rightarrow> time_point \<Rightarrow> lease_send list \<times> pair_lease_agent" where
  "renew a now = ask_voters (a\<lparr>pa_last_renewal := now\<rparr>) (lh_epoch (lp_holder (pa_participant a))) now"

section \<open>The tick\<close>

definition tick_abandon :: "pair_lease_agent \<Rightarrow> time_point \<Rightarrow> int \<Rightarrow> pair_lease_agent" where
  "tick_abandon a now draw =
     (if \<not> pa_asks_to_lead a \<and> lh_state (lp_holder (pa_participant a)) = Candidate
      then a\<lparr>pa_participant := participant_stop (pa_participant a) now (ms draw)\<rparr> else a)"

definition tick_ran_out :: "pair_lease_agent \<Rightarrow> time_point \<Rightarrow> change \<times> pair_lease_agent" where
  "tick_ran_out a now =
     (let (ran_out, p) = stop_if_lease_ran_out (pa_participant a) now
      in (if ran_out then StoppedLeading else NoChange, a\<lparr>pa_participant := p\<rparr>))"

definition renewal_due :: "pair_lease_agent \<Rightarrow> time_point \<Rightarrow> bool" where
  "renewal_due a now \<longleftrightarrow> ms (lt_renewal_interval (pa_timing a)) \<le> now - pa_last_renewal a"

definition tick_renew :: "pair_lease_agent \<Rightarrow> time_point \<Rightarrow> lease_send list \<times> pair_lease_agent" where
  "tick_renew a now =
     (if participant_acting (pa_participant a) now \<and> renewal_due a now then renew a now else ([], a))"

definition tick_ask_again :: "pair_lease_agent \<Rightarrow> time_point \<Rightarrow> lease_send list \<times> pair_lease_agent" where
  "tick_ask_again a now =
     (if lh_state (lp_holder (pa_participant a)) = Candidate \<and> renewal_due a now then renew a now else ([], a))"

definition tick_give_up :: "pair_lease_agent \<Rightarrow> time_point \<Rightarrow> int \<Rightarrow> pair_lease_agent" where
  "tick_give_up a now draw =
     (if lh_state (lp_holder (pa_participant a)) = Candidate \<and> ms (lt_period (pa_timing a)) < now - pa_asked_at a
      then a\<lparr>pa_reported_no_leader := True, pa_participant := participant_stop (pa_participant a) now (ms draw)\<rparr>
      else a)"

definition tick_ask :: "pair_lease_agent \<Rightarrow> time_point \<Rightarrow> duration \<Rightarrow> (lease_send list \<times> pair_lease_agent) result" where
  "tick_ask a now took =
     (if pa_asks_to_lead a \<and> may_ask_to_lead (pa_participant a) now
      then bind_result (begin_asking_to_lead (pa_participant a)) (\<lambda>(epoch, p).
             let sent_at = now + took
             in Inr (ask_voters
                  (a\<lparr>pa_participant := p, pa_asked_at := sent_at, pa_peer_refused := False, pa_third_refused := False,
                     pa_last_renewal := sent_at\<rparr>) epoch sent_at))
      else Inr ([], a))"

definition agent_on_tick ::
  "pair_lease_agent \<Rightarrow> time_point \<Rightarrow> int \<Rightarrow> duration \<Rightarrow> (change \<times> lease_send list \<times> pair_lease_agent) result" where
  "agent_on_tick a now draw took =
     (let a1 = a\<lparr>pa_last_tick_at := now\<rparr>;
          a2 = report_whether_may_lead (write_statement_if_needed (start_wanted_record (adopt_background_record a1)));
          a3 = tick_abandon a2 now draw;
          (change, a4) = tick_ran_out a3 now;
          (sent5, a5) = tick_renew a4 now;
          (sent6, a6) = tick_ask_again a5 now;
          a7 = tick_give_up a6 now draw
      in bind_result (tick_ask a7 now took) (\<lambda>(sent8, a8). Inr (change, sent5 @ sent6 @ sent8, a8)))"

section \<open>Requests, grants and refusals\<close>

definition agent_on_request ::
  "pair_lease_agent \<Rightarrow> int \<Rightarrow> instance_id \<Rightarrow> epoch \<Rightarrow> int \<Rightarrow> leader_statement \<Rightarrow> time_point \<Rightarrow>
   (change \<times> lease_send list \<times> pair_lease_agent) result" where
  "agent_on_request a reply_to candidate_id epoch request_id statement now =
     bind_result
       (if ls_leader_id statement \<noteq> 0 \<and> newer_than statement (lv_recorded_statement (lp_voter (pa_participant a)))
        then record_peer_statement (pa_participant a) statement else Inr (0, pa_participant a)) (\<lambda>(_, p1).
     let (outcome, p2) = on_peer_request p1 candidate_id epoch now;
         granted = (ans_verdict (pro_answer outcome) = Granted)
     in bind_result
       (if granted \<and> ls_leader_id statement \<noteq> 0 then record_peer_statement p2 statement else Inr (0, p2)) (\<lambda>(echoed, p3).
     let a3 = a\<lparr>pa_participant := p3\<rparr>;
         (covered, a4) = (if granted then promise_recorded a3 candidate_id else (False, a3))
     in if covered
        then let a5 = report_whether_may_lead (write_statement_if_needed (a4\<lparr>pa_reported_no_leader := False\<rparr>))
             in Inr (AgreedPeerLeads,
                  [GrantOn reply_to \<lparr>lgr_voter = pa_self_id a, lgr_pair_id = pa_pair_id a, lgr_epoch = epoch,
                                     lgr_request_id = request_id, lgr_echoed = echoed\<rparr>], a5)
        else Inr (NoChange,
               [RefusalOn reply_to \<lparr>lrf_voter = pa_self_id a, lrf_pair_id = pa_pair_id a,
                  lrf_highest_epoch = ans_highest_epoch (pro_answer outcome), lrf_request_id = request_id,
                  lrf_reason = (if granted then ReasonRecordingPromise
                                else refusal_reason_for (ans_verdict (pro_answer outcome)))\<rparr>], a4)))"

definition agent_on_grant ::
  "pair_lease_agent \<Rightarrow> instance_id \<Rightarrow> epoch \<Rightarrow> int \<Rightarrow> int \<Rightarrow> time_point \<Rightarrow>
   (change \<times> lease_send list \<times> pair_lease_agent) result" where
  "agent_on_grant a voter_id epoch request_id echoed now =
     bind_result (participant_on_grant (pa_participant a) voter_id request_id epoch now) (\<lambda>(event, p1).
     let p2 = (if voter_id = pa_peer_id a then note_echo_from_peer p1 epoch echoed else p1);
         a2 = a\<lparr>pa_participant := p2\<rparr>;
         a3 = (if event = EventLeaseExtended then record_leading a2 else a2)
     in if event \<noteq> EventBecameLeader then Inr (NoChange, [], a3)
        else let a4 = record_leading (a3\<lparr>pa_reported_no_leader := False, pa_resuming_lead_until := 0\<rparr>);
                 (sent, a5) = (if ls_leader_id (lp_statement (pa_participant a4)) \<noteq> 0 then renew a4 now else ([], a4))
             in Inr (BecameLeader, sent, a5))"

definition agent_on_statement_held :: "pair_lease_agent \<Rightarrow> instance_id \<Rightarrow> leader_statement \<Rightarrow> bool \<Rightarrow> pair_lease_agent" where
  "agent_on_statement_held a arbiter_id held alone =
     a\<lparr>pa_participant := note_held_by_arbiter (pa_participant a) arbiter_id held alone\<rparr>"

definition agent_on_refusal ::
  "pair_lease_agent \<Rightarrow> instance_id \<Rightarrow> epoch \<Rightarrow> int \<Rightarrow> refusal_reason \<Rightarrow> time_point \<Rightarrow> int \<Rightarrow> change \<times> pair_lease_agent" where
  "agent_on_refusal a voter_id highest_epoch request_id reason now draw =
     (let was_leading = lh_state (lp_holder (pa_participant a)) = Leading;
          candidate = lh_state (lp_holder (pa_participant a)) = Candidate;
          wait = (if now < pa_resuming_lead_until a then 0 else ms draw);
          a1 = (if reason = ReasonPromisedElsewhere \<and> candidate
                then (if voter_id = pa_third_voter_id a then a\<lparr>pa_third_refused := True\<rparr> else a\<lparr>pa_peer_refused := True\<rparr>)
                else a)
      in if pa_peer_refused a1 \<and> pa_third_refused a1 \<and> candidate
         then (NoChange, a1\<lparr>pa_peer_refused := False, pa_third_refused := False,
                 pa_participant := participant_stop (pa_participant a1) now (ms (lt_period (pa_timing a)) + wait)\<rparr>)
         else let (event, p) = participant_on_refusal (pa_participant a1) request_id highest_epoch now wait;
                  a2 = a1\<lparr>pa_participant := p\<rparr>
              in if event \<noteq> EventNewerEpochKnown then (NoChange, a2)
                 else (if was_leading then StoppedLeading else NoChange, a2))"

section \<open>What the owner says and asks\<close>

definition statement_changed :: "pair_lease_agent \<Rightarrow> time_point \<Rightarrow> lease_send list \<times> pair_lease_agent" where
  "statement_changed a now =
     (let a1 = write_statement_if_needed a
      in if participant_acting (pa_participant a1) now then renew a1 now else ([], a1))"

definition agent_says ::
  "(lease_participant \<Rightarrow> lease_participant result) \<Rightarrow> pair_lease_agent \<Rightarrow> time_point \<Rightarrow>
   (lease_send list \<times> pair_lease_agent) result" where
  "agent_says say a now =
     bind_result (say (pa_participant a)) (\<lambda>p. Inr (statement_changed (a\<lparr>pa_participant := p\<rparr>) now))"

definition agent_begin_running_without_peer :: "pair_lease_agent \<Rightarrow> time_point \<Rightarrow> (lease_send list \<times> pair_lease_agent) result" where
  "agent_begin_running_without_peer = agent_says begin_running_without_peer"

definition agent_peer_holds_everything :: "pair_lease_agent \<Rightarrow> time_point \<Rightarrow> (lease_send list \<times> pair_lease_agent) result" where
  "agent_peer_holds_everything = agent_says peer_holds_everything"

definition agent_say_peer_may_not_lead :: "pair_lease_agent \<Rightarrow> time_point \<Rightarrow> (lease_send list \<times> pair_lease_agent) result" where
  "agent_say_peer_may_not_lead = agent_says say_peer_may_not_lead"

definition agent_say_peer_may_lead :: "pair_lease_agent \<Rightarrow> time_point \<Rightarrow> (lease_send list \<times> pair_lease_agent) result" where
  "agent_say_peer_may_lead = agent_says say_peer_may_lead"

definition agent_may_act_without_peer :: "pair_lease_agent \<Rightarrow> bool" where
  "agent_may_act_without_peer a \<longleftrightarrow>
     may_act_without_peer (pa_participant a) \<and> pa_recorder a \<noteq> None \<and>
     same_as (pa_recorded_statement a) (lp_statement (pa_participant a))"

definition stop_asking_to_lead :: "pair_lease_agent \<Rightarrow> pair_lease_agent" where
  "stop_asking_to_lead a = a\<lparr>pa_asks_to_lead := False\<rparr>"

definition says_peer_may_lead :: "pair_lease_agent \<Rightarrow> bool" where
  "says_peer_may_lead a \<longleftrightarrow>
     ls_leader_id (lp_statement (pa_participant a)) = 0 \<or> ls_peer_may_lead (lp_statement (pa_participant a))"

end
