(* ===== verification/AgentHandlers.thy ===== *)
theory AgentHandlers
  imports PairLeaseAgent
begin

text \<open>
  What each handler of an agent does to its participant: a sequence of the steps a participant takes in
  \<open>LeaseSystem\<close>, sending exactly the requests those steps record.
\<close>

section \<open>What a handler leaves alone\<close>

lemma participant_frame [simp]:
  "pa_participant (start_record a c u) = pa_participant a"
  "pa_participant (start_wanted_record a) = pa_participant a"
  "pa_participant (adopt_background_record a) = pa_participant a"
  "pa_participant (write_statement_if_needed a) = pa_participant a"
  "pa_participant (report_whether_may_lead a) = pa_participant a"
  "pa_participant (refresh_in_background a c u) = pa_participant a"
  "pa_participant (snd (record_covering a c u)) = pa_participant a"
  "pa_participant (snd (promise_recorded a c)) = pa_participant a"
  "pa_participant (record_leading a) = pa_participant a"
proof -
  show start: "pa_participant (start_record a c u) = pa_participant a" for a c u
    by (simp add: start_record_def Let_def split: option.split prod.split)
  show adopt: "pa_participant (adopt_background_record a) = pa_participant a" for a
    by (simp add: adopt_background_record_def Let_def split: option.split prod.split)
  show cov: "pa_participant (snd (record_covering a c u)) = pa_participant a" for a c u
    by (simp add: record_covering_def refresh_in_background_def start)
  show "pa_participant (start_wanted_record a) = pa_participant a"
    "pa_participant (write_statement_if_needed a) = pa_participant a"
    "pa_participant (report_whether_may_lead a) = pa_participant a"
    "pa_participant (refresh_in_background a c u) = pa_participant a"
    "pa_participant (snd (promise_recorded a c)) = pa_participant a"
    "pa_participant (record_leading a) = pa_participant a"
    by (simp_all add: start_wanted_record_def write_statement_if_needed_def report_whether_may_lead_def
        refresh_in_background_def promise_recorded_def record_leading_def Let_def start adopt cov)
qed

text \<open>The identities an agent is constructed with never change.\<close>

definition same_identity :: "pair_lease_agent \<Rightarrow> pair_lease_agent \<Rightarrow> bool" where
  "same_identity a b \<longleftrightarrow>
     pa_self_id b = pa_self_id a \<and> pa_peer_id b = pa_peer_id a \<and> pa_third_voter_id b = pa_third_voter_id a \<and>
     pa_pair_id b = pa_pair_id a \<and> pa_timing b = pa_timing a"

lemma identity_refl [simp]: "same_identity a a"
  by (simp add: same_identity_def)

lemma identity_trans: "same_identity a b \<Longrightarrow> same_identity b c \<Longrightarrow> same_identity a c"
  by (simp add: same_identity_def)

lemma identity_records [simp]:
  "same_identity a (start_record b c u) = same_identity a b"
  "same_identity a (start_wanted_record b) = same_identity a b"
  "same_identity a (adopt_background_record b) = same_identity a b"
  "same_identity a (write_statement_if_needed b) = same_identity a b"
  "same_identity a (report_whether_may_lead b) = same_identity a b"
  "same_identity a (snd (record_covering b c u)) = same_identity a b"
  "same_identity a (snd (promise_recorded b c)) = same_identity a b"
  "same_identity a (record_leading b) = same_identity a b"
proof -
  show start: "same_identity a (start_record b c u) = same_identity a b" for b c u
    by (simp add: start_record_def Let_def same_identity_def split: option.split prod.split)
  show adopt: "same_identity a (adopt_background_record b) = same_identity a b" for b
    by (simp add: adopt_background_record_def Let_def same_identity_def split: option.split prod.split)
  show cov: "same_identity a (snd (record_covering b c u)) = same_identity a b" for b c u
    by (simp add: record_covering_def refresh_in_background_def start)
  show "same_identity a (start_wanted_record b) = same_identity a b"
    "same_identity a (write_statement_if_needed b) = same_identity a b"
    "same_identity a (snd (promise_recorded b c)) = same_identity a b"
    "same_identity a (record_leading b) = same_identity a b"
    by (simp_all add: start_wanted_record_def write_statement_if_needed_def
        promise_recorded_def record_leading_def Let_def start adopt cov)
  show "same_identity a (report_whether_may_lead b) = same_identity a b"
    by (simp add: report_whether_may_lead_def same_identity_def)
qed

lemma identity_updates [simp]:
  "same_identity a (b\<lparr>pa_participant := p\<rparr>) = same_identity a b" "same_identity (a\<lparr>pa_participant := p\<rparr>) b = same_identity a b"
  "same_identity a (b\<lparr>pa_last_tick_at := t\<rparr>) = same_identity a b"
  "same_identity a (b\<lparr>pa_reported_no_leader := f\<rparr>) = same_identity a b"
  "same_identity a (b\<lparr>pa_resuming_lead_until := t\<rparr>) = same_identity a b"
  by (simp_all add: same_identity_def)

text \<open>
  A path of the participant at one moment: local steps, and requests recorded and sent. The list holds
  the requests, each by the voter it goes to, its epoch and its id.
\<close>

inductive participant_path ::
  "time_point \<Rightarrow> lease_participant \<Rightarrow> (instance_id \<times> epoch \<times> int) list \<Rightarrow> lease_participant \<Rightarrow> bool" for now p where
  path_start: "participant_path now p [] p"
| path_local: "participant_path now p rs q \<Longrightarrow> participant_local now q q' \<Longrightarrow> participant_path now p rs q'"
| path_ask: "participant_path now p rs q \<Longrightarrow> lh_state (lp_holder q) \<noteq> Idle \<Longrightarrow> sent_at \<le> now \<Longrightarrow>
    v = peer_of (lp_self_id q) \<or> v = third_voter_id \<Longrightarrow> record_request q v sent_at = (r, q') \<Longrightarrow>
    participant_path now p (rs @ [(v, lh_epoch (lp_holder q'), r)]) q'"

lemma path_trans:
  assumes "participant_path now q rs' q'" and "participant_path now p rs q"
  shows "participant_path now p (rs @ rs') q'"
  using assms
proof (induction rule: participant_path.induct)
  case path_start
  then show ?case by simp
next
  case (path_local rs' q1 q2)
  then show ?case by (blast intro: participant_path.path_local)
next
  case (path_ask rs' q1 sent_at v r q2)
  then show ?case using participant_path.path_ask [of now p "rs @ rs'" q1 sent_at v r q2] by simp
qed

lemma path_one: "participant_local now p q \<Longrightarrow> participant_path now p [] q"
  by (rule path_local [OF path_start])

fun request_of :: "lease_send \<Rightarrow> (instance_id \<times> epoch \<times> int) list" where
  "request_of (ToPeer q) = [(peer_of (lrq_candidate q), lrq_epoch q, lrq_request_id q)]"
| "request_of (ToThirdVoter q) = [(third_voter_id, lrq_epoch q, lrq_request_id q)]"
| "request_of (GrantOn c g) = []"
| "request_of (RefusalOn c f) = []"

abbreviation requests_of :: "lease_send list \<Rightarrow> (instance_id \<times> epoch \<times> int) list" where
  "requests_of sends \<equiv> concat (map request_of sends)"

text \<open>An agent as its owner constructs it: the ids are those of a pair with its third voter.\<close>

definition agent_ids :: "pair_lease_agent \<Rightarrow> instance_id \<Rightarrow> bool" where
  "agent_ids a i \<longleftrightarrow>
     is_instance i \<and> pa_self_id a = i \<and> pa_peer_id a = peer_of i \<and> pa_third_voter_id a = third_voter_id \<and>
     lp_self_id (pa_participant a) = i"

lemma say_self:
  "say_peer_may_not_lead p = Inr q \<Longrightarrow> lp_self_id q = lp_self_id p"
  "say_peer_may_lead p = Inr q \<Longrightarrow> lp_self_id q = lp_self_id p"
  by (auto simp: say_peer_may_not_lead_def say_peer_may_lead_def require_leading_def change_statement_def Let_def
      bind_result_eq_Inr split: if_splits)

lemma record_request_facts:
  assumes "record_request p v t = (r, q)"
  shows "lp_self_id q = lp_self_id p" "lh_state (lp_holder q) = lh_state (lp_holder p)"
    "lh_epoch (lp_holder q) = lh_epoch (lp_holder p)" "lp_statement q = lp_statement p"
  using assms by (auto simp: record_request_def holder_record_request_def Let_def)

lemma local_self: "participant_local now p q \<Longrightarrow> lp_self_id q = lp_self_id p"
proof (induction rule: participant_local.induct)
  case (local_ask p e p')
  then show ?case by (auto simp: begin_asking_to_lead_def bind_result_eq_Inr)
next
  case (local_refusal p r e w ev p')
  then show ?case by (auto simp: participant_on_refusal_def participant_stop_def Let_def split: prod.splits if_splits)
next
  case (local_ran_out p b p')
  then show ?case by (auto simp: stop_if_lease_ran_out_def split: if_splits)
qed (auto simp: note_echo_from_peer_def note_held_by_arbiter_def Let_def record_peer_statement_def bind_result_eq_Inr
    participant_stop_def split: prod.splits dest: say_self)

lemma path_self: "participant_path now p rs q \<Longrightarrow> lp_self_id q = lp_self_id p"
  by (induction rule: participant_path.induct) (auto dest: local_self record_request_facts)

lemma ask_voters_path:
  assumes "ask_voters a e sent_at = (sends, b)" and "agent_ids a i" and "sent_at \<le> now"
    and "lh_state (lp_holder (pa_participant a)) \<noteq> Idle" and "e = lh_epoch (lp_holder (pa_participant a))"
  shows "participant_path now (pa_participant a) (requests_of sends) (pa_participant b)" and "same_identity a b"
    and "lh_state (lp_holder (pa_participant b)) = lh_state (lp_holder (pa_participant a))"
proof -
  obtain r1 p1 r2 p2 where r: "record_request (pa_participant a) (pa_peer_id a) sent_at = (r1, p1)"
    "record_request p1 (pa_third_voter_id a) sent_at = (r2, p2)" by fastforce
  have f: "b = a\<lparr>pa_participant := p2\<rparr>"
    "requests_of sends = [(peer_of i, e, r1), (third_voter_id, e, r2)]"
    using assms(1,2) r by (auto simp: ask_voters_def Let_def agent_ids_def)
  note R = record_request_facts [OF r(1)] record_request_facts [OF r(2)]
  have "participant_path now (pa_participant a) ([] @ [(peer_of i, lh_epoch (lp_holder p1), r1)]) p1"
    by (rule path_ask [OF path_start]) (use assms r in \<open>auto simp: agent_ids_def\<close>)
  then have "participant_path now (pa_participant a)
      ([(peer_of i, lh_epoch (lp_holder p1), r1)] @ [(third_voter_id, lh_epoch (lp_holder p2), r2)]) p2"
    using path_ask [of now "pa_participant a" "[(peer_of i, lh_epoch (lp_holder p1), r1)]" p1 sent_at third_voter_id r2 p2]
      assms r R by (simp add: agent_ids_def)
  with R assms(5) show "participant_path now (pa_participant a) (requests_of sends) (pa_participant b)"
    unfolding f(2) by (simp add: f(1))
  show "same_identity a b" by (simp add: f(1) same_identity_def)
  show "lh_state (lp_holder (pa_participant b)) = lh_state (lp_holder (pa_participant a))" using R by (simp add: f(1))
qed

text \<open>
  A handler's part runs the agent from \<open>a\<close> to \<open>b\<close>, sending \<open>sends\<close>: its participant follows a path whose
  requests are those sent.
\<close>

definition agent_moves :: "time_point \<Rightarrow> pair_lease_agent \<Rightarrow> lease_send list \<Rightarrow> pair_lease_agent \<Rightarrow> bool" where
  "agent_moves now a sends b \<longleftrightarrow>
     participant_path now (pa_participant a) (requests_of sends) (pa_participant b) \<and> same_identity a b"

lemma moves_trans:
  "agent_moves now a s b \<Longrightarrow> agent_moves now b s' c \<Longrightarrow> agent_moves now a (s @ s') c"
  using path_trans by (auto simp: agent_moves_def intro: identity_trans)

lemma moves_local:
  "participant_local now (pa_participant a) p \<Longrightarrow> agent_moves now a [] (a\<lparr>pa_participant := p\<rparr>)"
  by (simp add: agent_moves_def path_one same_identity_def)

lemma moves_same:
  "pa_participant b = pa_participant a \<Longrightarrow> same_identity a b \<Longrightarrow> agent_moves now a [] b"
  by (simp add: agent_moves_def path_start)

lemma moves_ids: "agent_moves now a s b \<Longrightarrow> agent_ids a i \<Longrightarrow> agent_ids b i"
  by (auto simp: agent_moves_def agent_ids_def same_identity_def dest: path_self)

lemma moves_renew:
  assumes "renew a now = (sends, b)" and "agent_ids a i" and "lh_state (lp_holder (pa_participant a)) \<noteq> Idle"
  shows "agent_moves now a sends b"
proof -
  have "agent_ids (a\<lparr>pa_last_renewal := now\<rparr>) i" using assms(2) by (simp add: agent_ids_def)
  from ask_voters_path(1,2) [OF assms(1) [unfolded renew_def] this, of now] assms(3) show ?thesis
    by (simp add: agent_moves_def same_identity_def)
qed

lemma moves_tick_parts:
  "agent_moves now a [] (tick_abandon a now draw)"
  "tick_ran_out a now = (ch, b) \<Longrightarrow> agent_moves now a [] b"
  "agent_ids a i \<Longrightarrow> tick_renew a now = (sends, b) \<Longrightarrow> agent_moves now a sends b"
  "agent_ids a i \<Longrightarrow> tick_ask_again a now = (sends, b) \<Longrightarrow> agent_moves now a sends b"
  "agent_moves now a [] (tick_give_up a now draw)"
proof -
  show "agent_moves now a [] (tick_abandon a now draw)"
    by (auto simp: tick_abandon_def moves_same intro: moves_local local_stop)
  show "tick_ran_out a now = (ch, b) \<Longrightarrow> agent_moves now a [] b"
    by (auto simp: tick_ran_out_def split: prod.splits intro!: moves_local local_ran_out)
  show "agent_ids a i \<Longrightarrow> tick_renew a now = (sends, b) \<Longrightarrow> agent_moves now a sends b"
    by (auto simp: tick_renew_def moves_same participant_acting_def holder_acting_def split: if_splits intro: moves_renew)
  show "agent_ids a i \<Longrightarrow> tick_ask_again a now = (sends, b) \<Longrightarrow> agent_moves now a sends b"
    by (auto simp: tick_ask_again_def moves_same split: if_splits intro: moves_renew)
  have "agent_moves now (a\<lparr>pa_reported_no_leader := True\<rparr>) []
      (a\<lparr>pa_reported_no_leader := True, pa_participant := participant_stop (pa_participant a) now (ms draw)\<rparr>)"
    using moves_local [of now "a\<lparr>pa_reported_no_leader := True\<rparr>"] local_stop by force
  then show "agent_moves now a [] (tick_give_up a now draw)"
    by (auto simp: tick_give_up_def agent_moves_def same_identity_def path_start)
qed

lemma moves_tick:
  assumes tick: "agent_on_tick a now draw took = Inr (ch, sends, b)" and ids: "agent_ids a i" and "0 \<le> took"
  obtains c sends1 sends2 where "sends = sends1 @ sends2" and "agent_moves now a sends1 c"
    and "\<And>now'. now + took \<le> now' \<Longrightarrow> agent_moves now' c sends2 b"
    and "lh_state (lp_holder (pa_participant c)) = Idle \<Longrightarrow> b = c"
proof -
  define a2 where "a2 = report_whether_may_lead (write_statement_if_needed (start_wanted_record
    (adopt_background_record (a\<lparr>pa_last_tick_at := now\<rparr>))))"
  define a3 where "a3 = tick_abandon a2 now draw"
  obtain ch' a4 where t4: "tick_ran_out a3 now = (ch', a4)" by fastforce
  obtain s5 a5 where t5: "tick_renew a4 now = (s5, a5)" by fastforce
  obtain s6 a6 where t6: "tick_ask_again a5 now = (s6, a6)" by fastforce
  define a7 where "a7 = tick_give_up a6 now draw"
  obtain s8 where t8: "tick_ask a7 now took = Inr (s8, b)" and s: "sends = s5 @ s6 @ s8"
    using tick t4 t5 t6 unfolding agent_on_tick_def Let_def
    by (auto simp: a2_def [symmetric] a3_def [symmetric] a7_def [symmetric] bind_result_eq_Inr)
  have m2: "agent_moves now a [] a2" unfolding a2_def by (rule moves_same) simp_all
  note m3 = moves_trans [OF m2 moves_tick_parts(1) [of now a2 draw]]
  note m4 = moves_trans [OF m3 [folded a3_def] moves_tick_parts(2) [OF t4]]
  note m5 = moves_trans [OF m4 moves_tick_parts(3) [OF moves_ids [OF m4 ids] t5]]
  note m6 = moves_trans [OF m5 moves_tick_parts(4) [OF moves_ids [OF m5 ids] t6]]
  note m7 = moves_trans [OF m6 moves_tick_parts(5) [of now a6 draw], folded a7_def]
  show ?thesis
  proof (cases "pa_asks_to_lead a7 \<and> may_ask_to_lead (pa_participant a7) now")
    case False
    with t8 have "s8 = []" "b = a7" by (simp_all add: tick_ask_def split: if_splits)
    with that [of "s5 @ s6" "[]" a7] m7 s show ?thesis by (simp add: moves_same)
  next
    case True
    with t8 obtain e p where e: "begin_asking_to_lead (pa_participant a7) = Inr (e, p)"
      and ask: "ask_voters (a7\<lparr>pa_participant := p, pa_asked_at := now + took, pa_peer_refused := False,
        pa_third_refused := False, pa_last_renewal := now + took\<rparr>) e (now + took) = (s8, b)"
      by (auto simp: tick_ask_def bind_result_eq_Inr Let_def)
    let ?c = "a7\<lparr>pa_participant := p, pa_asked_at := now + took, pa_peer_refused := False,
        pa_third_refused := False, pa_last_renewal := now + took\<rparr>"
    have "participant_local now (pa_participant a7) p" using True e by (blast intro: local_ask)
    then have mc: "agent_moves now a7 [] ?c" by (simp add: agent_moves_def path_one same_identity_def)
    note m = moves_trans [OF m7 mc]
    have st: "lh_state (lp_holder p) = Candidate" "lh_epoch (lp_holder p) = e"
      using e by (auto simp: begin_asking_to_lead_def bind_result_eq_Inr begin_candidacy_def)
    have "agent_moves now' ?c s8 b" if "now + took \<le> now'" for now'
      using ask_voters_path(1,2) [OF ask moves_ids [OF m ids] that] st by (simp add: agent_moves_def)
    with that [of "s5 @ s6" s8 ?c] m s st show ?thesis by simp
  qed
qed

lemma moves_grant:
  assumes g: "agent_on_grant a v e r n now = Inr (ch, sends, b)" and ids: "agent_ids a i"
  obtains ev p where "participant_on_grant (pa_participant a) v r e now = Inr (ev, p)"
    and "agent_moves now (a\<lparr>pa_participant := p\<rparr>) sends b"
proof -
  obtain ev p1 where g1: "participant_on_grant (pa_participant a) v r e now = Inr (ev, p1)"
    using g by (auto simp: agent_on_grant_def bind_result_eq_Inr)
  define p2 where "p2 = (if v = pa_peer_id a then note_echo_from_peer p1 e n else p1)"
  define a3 where "a3 = (if ev = EventLeaseExtended then record_leading (a\<lparr>pa_participant := p2\<rparr>) else a\<lparr>pa_participant := p2\<rparr>)"
  let ?a1 = "a\<lparr>pa_participant := p1\<rparr>"
  have "participant_path now p1 [] p2"
    unfolding p2_def by (auto intro: path_start path_one local_echo)
  then have m3: "agent_moves now ?a1 [] a3" by (simp add: agent_moves_def a3_def)
  have self: "lp_self_id p1 = lp_self_id (pa_participant a)"
    using g1 by (auto simp: participant_on_grant_def Let_def bind_result_eq_Inr split: prod.splits if_splits)
  show ?thesis
  proof (cases "ev = EventBecameLeader")
    case False
    with g g1 have "sends = []" "b = a3" by (auto simp: agent_on_grant_def p2_def a3_def Let_def)
    with that [OF g1] m3 show ?thesis by simp
  next
    case True
    define a4 where "a4 = record_leading (a3\<lparr>pa_reported_no_leader := False, pa_resuming_lead_until := 0\<rparr>)"
    from True g g1 have b: "(sends, b) = (if ls_leader_id (lp_statement (pa_participant a4)) \<noteq> 0 then renew a4 now else ([], a4))"
      by (auto simp: agent_on_grant_def p2_def a3_def a4_def Let_def split: prod.splits if_splits)
    have m4: "agent_moves now ?a1 [] a4" using m3 by (simp add: a4_def agent_moves_def)
    have ids1: "agent_ids ?a1 i" using ids self by (simp add: agent_ids_def)
    have "snd (holder_on_grant (lp_holder (pa_participant a)) v r e now) = lp_holder p1"
      "fst (holder_on_grant (lp_holder (pa_participant a)) v r e now) = EventBecameLeader"
      using g1 True by (auto simp: participant_on_grant_def Let_def bind_result_eq_Inr split: prod.splits if_splits)
    then have "lh_state (lp_holder p1) = Leading"
      by (cases rule: on_grant_cases [of "lp_holder (pa_participant a)" v r e now]) auto
    then have lead: "lh_state (lp_holder (pa_participant a4)) = Leading"
      by (simp add: a4_def a3_def p2_def note_echo_from_peer_def)
    have "agent_moves now ?a1 sends b"
    proof (cases "ls_leader_id (lp_statement (pa_participant a4)) \<noteq> 0")
      case True
      with b have "renew a4 now = (sends, b)" by simp
      from moves_trans [OF m4 moves_renew [OF this moves_ids [OF m4 ids1]]] lead show ?thesis by simp
    next
      case False
      with b m4 show ?thesis by simp
    qed
    with that [OF g1] show ?thesis by simp
  qed
qed

text \<open>The parts of answering a request, in order.\<close>

lemma on_request_parts:
  assumes q: "agent_on_request a conn c e r st now = Inr (ch, sends, b)"
  obtains n1 p1 outcome p2 n3 p3 covered a4 where
    "(if ls_leader_id st \<noteq> 0 \<and> newer_than st (lv_recorded_statement (lp_voter (pa_participant a)))
      then record_peer_statement (pa_participant a) st else Inr (0, pa_participant a)) = Inr (n1, p1)"
    and "on_peer_request p1 c e now = (outcome, p2)"
    and "(if ans_verdict (pro_answer outcome) = Granted \<and> ls_leader_id st \<noteq> 0 then record_peer_statement p2 st else Inr (0, p2)) =
      Inr (n3, p3)"
    and "(if ans_verdict (pro_answer outcome) = Granted then promise_recorded (a\<lparr>pa_participant := p3\<rparr>) c
      else (False, a\<lparr>pa_participant := p3\<rparr>)) = (covered, a4)"
    and "b = (if covered then report_whether_may_lead (write_statement_if_needed (a4\<lparr>pa_reported_no_leader := False\<rparr>)) else a4)"
    and "ch = (if covered then AgreedPeerLeads else NoChange)" and "requests_of sends = []"
proof -
  from q obtain n1 p1 where r1: "(if ls_leader_id st \<noteq> 0 \<and> newer_than st (lv_recorded_statement (lp_voter (pa_participant a)))
        then record_peer_statement (pa_participant a) st else Inr (0, pa_participant a)) = Inr (n1, p1)"
    by (auto simp: agent_on_request_def bind_result_eq_Inr)
  obtain outcome p2 where o: "on_peer_request p1 c e now = (outcome, p2)" by fastforce
  let ?granted = "ans_verdict (pro_answer outcome) = Granted"
  from q r1 o obtain n3 p3 where r3: "(if ?granted \<and> ls_leader_id st \<noteq> 0 then record_peer_statement p2 st else Inr (0, p2)) = Inr (n3, p3)"
    by (auto simp: agent_on_request_def Let_def bind_result_eq_Inr)
  obtain covered a4 where c4: "(if ?granted then promise_recorded (a\<lparr>pa_participant := p3\<rparr>) c
      else (False, a\<lparr>pa_participant := p3\<rparr>)) = (covered, a4)" by fastforce
  show ?thesis
    by (rule that [OF r1 o r3 c4]) (use q r1 o r3 c4 in \<open>auto simp: agent_on_request_def Let_def split: if_splits\<close>)
qed

lemma moves_request:
  assumes q: "agent_on_request a conn c e r st now = Inr (ch, sends, b)"
  obtains p1 outcome p2 where "participant_path now (pa_participant a) [] p1"
    and "on_peer_request p1 c e now = (outcome, p2)" and "agent_moves now (a\<lparr>pa_participant := p2\<rparr>) [] b"
    and "ch = AgreedPeerLeads \<longrightarrow> ans_verdict (pro_answer outcome) = Granted"
  using q
proof (rule on_request_parts)
  fix n1 p1 outcome p2 n3 p3 covered a4
  assume r1: "(if ls_leader_id st \<noteq> 0 \<and> newer_than st (lv_recorded_statement (lp_voter (pa_participant a)))
      then record_peer_statement (pa_participant a) st else Inr (0, pa_participant a)) = Inr (n1, p1)"
    and o: "on_peer_request p1 c e now = (outcome, p2)"
    and r3: "(if ans_verdict (pro_answer outcome) = Granted \<and> ls_leader_id st \<noteq> 0 then record_peer_statement p2 st else Inr (0, p2)) =
      Inr (n3, p3)"
    and c4: "(if ans_verdict (pro_answer outcome) = Granted then promise_recorded (a\<lparr>pa_participant := p3\<rparr>) c
      else (False, a\<lparr>pa_participant := p3\<rparr>)) = (covered, a4)"
    and b: "b = (if covered then report_whether_may_lead (write_statement_if_needed (a4\<lparr>pa_reported_no_leader := False\<rparr>)) else a4)"
    and ch: "ch = (if covered then AgreedPeerLeads else NoChange)"
  have path1: "participant_path now (pa_participant a) [] p1"
    using r1 by (auto split: if_splits intro: path_start path_one local_record)
  have path3: "participant_path now p2 [] p3"
    using r3 by (auto split: if_splits intro: path_start path_one local_record)
  have "a4 = (if ans_verdict (pro_answer outcome) = Granted then snd (promise_recorded (a\<lparr>pa_participant := p3\<rparr>) c)
      else a\<lparr>pa_participant := p3\<rparr>)" using c4 by (metis snd_conv)
  then have "pa_participant a4 = p3" "same_identity a a4" by simp_all
  then have "agent_moves now (a\<lparr>pa_participant := p2\<rparr>) [] b" using path3 by (simp add: agent_moves_def b)
  then show ?thesis by (rule that [OF path1 o]) (use c4 ch in \<open>auto split: if_splits\<close>)
qed

lemma moves_refusal:
  assumes "agent_on_refusal a v h r why now draw = (ch, b)"
  shows "agent_moves now a [] b"
proof -
  define a1 where "a1 = (if why = ReasonPromisedElsewhere \<and> lh_state (lp_holder (pa_participant a)) = Candidate
    then (if v = pa_third_voter_id a then a\<lparr>pa_third_refused := True\<rparr> else a\<lparr>pa_peer_refused := True\<rparr>) else a)"
  have a1: "pa_participant a1 = pa_participant a" "same_identity a a1" by (simp_all add: a1_def same_identity_def)
  define wait where "wait = (if now < pa_resuming_lead_until a then 0 else ms draw)"
  obtain ev p where ev: "participant_on_refusal (pa_participant a1) r h now wait = (ev, p)" by fastforce
  have "b = a1\<lparr>pa_peer_refused := False, pa_third_refused := False,
        pa_participant := participant_stop (pa_participant a1) now (ms (lt_period (pa_timing a)) + wait)\<rparr> \<or>
      b = a1\<lparr>pa_participant := p\<rparr>"
    using assms ev
    unfolding agent_on_refusal_def Let_def a1_def [symmetric] wait_def [symmetric] by (auto split: if_splits)
  moreover have "participant_local now (pa_participant a1) p" using ev by (rule local_refusal)
  ultimately show ?thesis
    using a1 path_one [OF local_stop] by (auto simp: agent_moves_def same_identity_def intro: path_one)
qed

lemma moves_held: "agent_moves now a [] (agent_on_statement_held a x held alone)"
  by (simp add: agent_on_statement_held_def moves_local local_held)

lemma moves_says:
  assumes "agent_says say a now = Inr (sends, b)" and "agent_ids a i"
    and "say \<in> {begin_running_without_peer, peer_holds_everything, say_peer_may_not_lead, say_peer_may_lead}"
  shows "agent_moves now a sends b"
proof -
  from assms(1) obtain p where p: "say (pa_participant a) = Inr p"
    and b: "statement_changed (a\<lparr>pa_participant := p\<rparr>) now = (sends, b)"
    by (auto simp: agent_says_def bind_result_eq_Inr)
  have "say_peer_may_not_lead (pa_participant a) = Inr p \<or> say_peer_may_lead (pa_participant a) = Inr p"
    using p assms(3)
    by (auto simp: begin_running_without_peer_def peer_holds_everything_def bind_result_eq_Inr require_leading_def split: if_splits)
  then have "participant_local now (pa_participant a) p" by (auto intro: local_say_not local_say)
  then have m: "agent_moves now a [] (write_statement_if_needed (a\<lparr>pa_participant := p\<rparr>))"
    by (simp add: agent_moves_def path_one)
  show ?thesis
  proof (cases "participant_acting p now")
    case True
    with b have "renew (write_statement_if_needed (a\<lparr>pa_participant := p\<rparr>)) now = (sends, b)"
      by (simp add: statement_changed_def)
    from moves_trans [OF m moves_renew [OF this moves_ids [OF m assms(2)]]] True show ?thesis
      by (simp add: participant_acting_def holder_acting_def)
  next
    case False
    with b m show ?thesis by (simp add: statement_changed_def)
  qed
qed

end
