(* ===== verification/AgentRecord.thy ===== *)
theory AgentRecord
  imports AgentHandlers
begin

text \<open>
  The record an agent keeps on disk, against what the agent believes of it. Every handler and every step
  of the writer thread keeps the two in agreement. A grant therefore has a record on disk that covers
  it, as long as no record that does not is still being written; two runs show what happens otherwise.
\<close>

section \<open>What the agent knows of the disk\<close>

text \<open>The record being written has replaced the old one.\<close>

definition landed :: "promise_recorder \<Rightarrow> bool" where
  "landed r \<longleftrightarrow>
     pr_writer r = ReplacedRecord \<or> (pr_requests_started r = pr_requests_finished r \<and> pr_last_write_succeeded r)"

definition disk_as_believed :: "pair_lease_agent \<Rightarrow> promise_recorder \<Rightarrow> bool" where
  "disk_as_believed a r \<longleftrightarrow>
     lpr_statement (pr_disk r) = pa_recorded_statement a \<and>
     (if pr_this_boot r then kept_on_disk r = (pa_recorded_to a, pa_recorded_until a)
      else pa_recorded_to a = 0 \<and> pa_recorded_until a = 0)"

definition record_known :: "pair_lease_agent \<Rightarrow> bool" where
  "record_known a \<longleftrightarrow>
     (case pa_recorder a of
        None \<Rightarrow> \<not> pa_in_flight a
      | Some r \<Rightarrow>
          recorder_ok r \<and> pa_in_flight a = write_pending r \<and> (pa_in_flight a \<longrightarrow> pr_slot r = pa_background_record a) \<and>
          (if pa_in_flight a \<and> landed r then pr_this_boot r \<and> pr_disk r = pa_background_record a else disk_as_believed a r))"

lemma disk_as_believed_recorder [simp]: "disk_as_believed (a\<lparr>pa_recorder := x\<rparr>) r = disk_as_believed a r"
  by (simp add: disk_as_believed_def)

lemma record_known_updates [simp]:
  "record_known (a\<lparr>pa_participant := p\<rparr>) = record_known a" "record_known (a\<lparr>pa_last_tick_at := t\<rparr>) = record_known a"
  "record_known (a\<lparr>pa_last_renewal := t\<rparr>) = record_known a" "record_known (a\<lparr>pa_asked_at := t\<rparr>) = record_known a"
  "record_known (a\<lparr>pa_peer_refused := f\<rparr>) = record_known a" "record_known (a\<lparr>pa_third_refused := f\<rparr>) = record_known a"
  "record_known (a\<lparr>pa_resuming_lead_until := t\<rparr>) = record_known a"
  "record_known (a\<lparr>pa_reported_no_leader := f\<rparr>) = record_known a"
  "record_known (a\<lparr>pa_reported_may_not_lead := f\<rparr>) = record_known a"
  "record_known (a\<lparr>pa_asks_to_lead := f\<rparr>) = record_known a"
  "record_known (a\<lparr>pa_reported_write_failed := f\<rparr>) = record_known a"
  by (auto simp: record_known_def disk_as_believed_def split: option.split)

lemma record_known_wanted [simp]:
  "record_known (a\<lparr>pa_record_wanted := f\<rparr>) = record_known a" "record_known (a\<lparr>pa_wanted_to := c\<rparr>) = record_known a"
  "record_known (a\<lparr>pa_wanted_until := t\<rparr>) = record_known a"
  by (auto simp: record_known_def disk_as_believed_def split: option.split)

lemma record_known_start: "record_known a \<Longrightarrow> record_known (start_record a c u)"
proof (cases "pa_recorder a")
  case (Some r)
  assume known: "record_known a"
  then have ok: "recorder_ok r" "pa_in_flight a = write_pending r" by (simp_all add: record_known_def Some)
  show ?thesis
  proof (cases "pa_in_flight a")
    case True
    have same: "a\<lparr>pa_recorder := Some r\<rparr> = a" using Some by (cases a) simp
    have "start_record a c u = (a\<lparr>pa_recorder := Some r\<rparr>)\<lparr>pa_record_wanted := True, pa_wanted_to := c, pa_wanted_until := u\<rparr>"
      using Some True by (simp add: start_record_def)
    then show ?thesis unfolding same using known by simp
  next
    case False
    let ?rec = "\<lparr>lpr_promised_to = c, lpr_until = u, lpr_statement = lv_recorded_statement (lp_voter (pa_participant a))\<rparr>"
    let ?r = "r\<lparr>pr_slot := ?rec, pr_outcomes_read := pr_requests_finished r, pr_requests_started := pr_requests_started r + 1\<rparr>"
    from ok False have eq: "pr_requests_started r = pr_requests_finished r" "pr_writer r = LookingForWork"
      by (auto simp: write_pending_def recorder_ok_def)
    then have s: "start_record a c u =
        a\<lparr>pa_recorder := Some ?r, pa_in_flight := True, pa_background_record := ?rec, pa_record_wanted := False\<rparr>"
      using Some False by (simp add: start_record_def record_in_background_def Let_def)
    have "recorder_ok ?r" using recorder_ok_record [OF ok(1), of ?rec] eq by (simp add: record_in_background_def)
    moreover have "\<not> landed ?r" "write_pending ?r" using eq by (simp_all add: landed_def write_pending_def)
    moreover have "disk_as_believed a r" using known Some False by (simp add: record_known_def)
    ultimately show ?thesis unfolding s by (simp add: record_known_def disk_as_believed_def kept_on_disk_def split: if_splits)
  qed
qed (simp add: start_record_def)

lemma record_known_adopt: "record_known a \<Longrightarrow> record_known (adopt_background_record a)"
proof (cases "pa_recorder a")
  case (Some r)
  assume known: "record_known a"
  show ?thesis
  proof (cases "pa_in_flight a \<and> pr_requests_finished r \<noteq> pr_outcomes_read r")
    case True
    with known Some have ok: "recorder_ok r" "pr_slot r = pa_background_record a"
      and land: "if landed r then pr_this_boot r \<and> pr_disk r = pa_background_record a else disk_as_believed a r"
      by (simp_all add: record_known_def)
    from ok True have eq: "pr_requests_started r = pr_requests_finished r" "pr_writer r = LookingForWork"
      by (auto simp: recorder_ok_def)
    then have l: "landed r = pr_last_write_succeeded r" by (simp add: landed_def)
    from True have "background_result r = (Some (pr_last_write_succeeded r), r\<lparr>pr_outcomes_read := pr_requests_finished r\<rparr>)"
      by (simp add: background_result_def)
    moreover have "recorder_ok (r\<lparr>pr_outcomes_read := pr_requests_finished r\<rparr>)"
      using ok(1) by (auto simp: recorder_ok_def)
    ultimately show ?thesis
      using Some True land l eq
      by (auto simp: adopt_background_record_def record_known_def Let_def write_pending_def disk_as_believed_def kept_on_disk_def)
  next
    case False
    then have "adopt_background_record a = a"
      using Some by (cases a) (auto simp: adopt_background_record_def background_result_def)
    with known show ?thesis by simp
  qed
qed (simp add: adopt_background_record_def)

lemma record_known_writer:
  assumes "record_known a" and "pa_recorder a = Some r" and "writer_step r r'"
  shows "record_known (a\<lparr>pa_recorder := Some r'\<rparr>)"
proof -
  have ok: "recorder_ok r" "recorder_ok r'" using assms recorder_ok_writer by (auto simp: record_known_def)
  have pend: "write_pending r' = write_pending r" and slot: "pr_slot r' = pr_slot r"
    using promise_writer.writer_pending [OF ok(1) assms(3)] promise_writer.writer_slot [OF ok(1) assms(3)] by auto
  have "pr_requests_started r \<noteq> pr_requests_finished r" using assms(3) ok(1) by (auto elim!: writer_stepE simp: recorder_ok_def)
  then have "write_pending r" using ok(1) by (auto simp: recorder_ok_def write_pending_def)
  with assms(1,2) have fl: "pa_in_flight a" "pr_slot r = pa_background_record a"
    and land: "if landed r then pr_this_boot r \<and> pr_disk r = pa_background_record a else disk_as_believed a r"
    by (simp_all add: record_known_def)
  have "if landed r' then pr_this_boot r' \<and> pr_disk r' = pa_background_record a else disk_as_believed a r'"
    using assms(3)
  proof cases
    case writer_copies
    with land show ?thesis by (auto simp: landed_def disk_as_believed_def kept_on_disk_def)
  next
    case (writer_replaces rec)
    with ok(1) fl show ?thesis by (simp add: landed_def recorder_ok_def)
  next
    case writer_succeeds
    with land ok(1) show ?thesis by (simp add: landed_def recorder_ok_def)
  next
    case (writer_fails rec)
    with land \<open>pr_requests_started r \<noteq> _\<close> show ?thesis by (simp add: landed_def disk_as_believed_def kept_on_disk_def split: if_splits)
  qed
  with ok(2) pend slot fl assms(1,2) show ?thesis by (simp add: record_known_def)
qed

lemma record_known_parts [simp]:
  assumes "record_known a"
  shows "record_known (start_wanted_record a)" "record_known (write_statement_if_needed a)"
    "record_known (report_whether_may_lead a)" "record_known (snd (record_covering a c u))"
    "record_known (snd (promise_recorded a c))" "record_known (record_leading a)"
proof -
  have cov: "record_known (snd (record_covering b c u))" if "record_known b" for b c u
    using that by (simp add: record_covering_def refresh_in_background_def record_known_start)
  from assms cov show "record_known (start_wanted_record a)" "record_known (write_statement_if_needed a)"
    "record_known (report_whether_may_lead a)" "record_known (snd (record_covering a c u))"
    "record_known (snd (promise_recorded a c))" "record_known (record_leading a)"
    by (simp_all add: start_wanted_record_def write_statement_if_needed_def report_whether_may_lead_def
        promise_recorded_def record_leading_def Let_def record_known_start record_known_adopt)
qed

lemma record_known_ask:
  "record_known (snd (ask_voters a e t)) = record_known a" "record_known (snd (renew a t)) = record_known a"
proof -
  show "record_known (snd (ask_voters a e t)) = record_known a" for a e
    by (simp add: ask_voters_def Let_def split: prod.split)
  then show "record_known (snd (renew a t)) = record_known a" by (simp add: renew_def)
qed

lemma record_known_tick:
  assumes "agent_on_tick a now draw took = Inr (ch, sends, b)" and "record_known a"
  shows "record_known b"
proof -
  define a2 where "a2 = report_whether_may_lead (write_statement_if_needed (start_wanted_record
    (adopt_background_record (a\<lparr>pa_last_tick_at := now\<rparr>))))"
  have k2: "record_known a2" using assms(2) by (simp add: a2_def record_known_adopt)
  have k3: "record_known (tick_abandon a2 now draw)" using k2 by (simp add: tick_abandon_def)
  obtain ch' a4 where t4: "tick_ran_out (tick_abandon a2 now draw) now = (ch', a4)" by fastforce
  with k3 have k4: "record_known a4" by (auto simp: tick_ran_out_def split: prod.splits)
  obtain s5 a5 where t5: "tick_renew a4 now = (s5, a5)" by fastforce
  with k4 have k5: "record_known a5" using record_known_ask(2) [of a4 now] by (auto simp: tick_renew_def split: if_splits)
  obtain s6 a6 where t6: "tick_ask_again a5 now = (s6, a6)" by fastforce
  with k5 have k6: "record_known a6" using record_known_ask(2) [of a5 now] by (auto simp: tick_ask_again_def split: if_splits)
  have k7: "record_known (tick_give_up a6 now draw)" using k6 by (simp add: tick_give_up_def)
  from assms(1) t4 t5 t6 obtain s8 where "tick_ask (tick_give_up a6 now draw) now took = Inr (s8, b)"
    unfolding agent_on_tick_def Let_def by (auto simp: a2_def [symmetric] bind_result_eq_Inr)
  with k7 show ?thesis
    by (auto simp: tick_ask_def bind_result_eq_Inr Let_def split: if_splits) (metis record_known_ask(1) record_known_updates snd_conv)
qed

lemma record_known_request:
  assumes "agent_on_request a conn c e r st now = Inr (ch, sends, b)" and "record_known a"
  shows "record_known b"
  using assms(1)
proof (rule on_request_parts)
  fix outcome p3 covered a4
  assume c4: "(if ans_verdict (pro_answer outcome) = Granted then promise_recorded (a\<lparr>pa_participant := p3\<rparr>) c
      else (False, a\<lparr>pa_participant := p3\<rparr>)) = (covered, a4)"
    and b: "b = (if covered then report_whether_may_lead (write_statement_if_needed (a4\<lparr>pa_reported_no_leader := False\<rparr>)) else a4)"
  have "a4 = (if ans_verdict (pro_answer outcome) = Granted then snd (promise_recorded (a\<lparr>pa_participant := p3\<rparr>) c)
      else a\<lparr>pa_participant := p3\<rparr>)" using c4 by (metis snd_conv)
  with assms(2) show ?thesis by (simp add: b)
qed

lemma record_known_grant:
  assumes "agent_on_grant a v e r n now = Inr (ch, sends, b)" and "record_known a"
  shows "record_known b"
proof -
  obtain ev p1 where g: "participant_on_grant (pa_participant a) v r e now = Inr (ev, p1)"
    using assms(1) by (auto simp: agent_on_grant_def bind_result_eq_Inr)
  let ?p2 = "if v = pa_peer_id a then note_echo_from_peer p1 e n else p1"
  let ?a3 = "if ev = EventLeaseExtended then record_leading (a\<lparr>pa_participant := ?p2\<rparr>) else a\<lparr>pa_participant := ?p2\<rparr>"
  let ?a4 = "record_leading (?a3\<lparr>pa_reported_no_leader := False, pa_resuming_lead_until := 0\<rparr>)"
  have k: "record_known ?a3" "record_known ?a4" using assms(2) by simp_all
  have "b = ?a3 \<or> b = ?a4 \<or> b = snd (renew ?a4 now)"
    using assms(1) g by (auto simp: agent_on_grant_def Let_def split: if_splits prod.splits)
  with k show ?thesis by (auto simp: record_known_ask)
qed

lemma record_known_refusal:
  "agent_on_refusal a v h r why now draw = (ch, b) \<Longrightarrow> record_known a \<Longrightarrow> record_known b"
  by (auto simp: agent_on_refusal_def Let_def split: if_splits prod.splits)

lemma record_known_says:
  "agent_says say a now = Inr (sends, b) \<Longrightarrow> record_known a \<Longrightarrow> record_known b"
  using record_known_ask(2)
  by (auto simp: agent_says_def statement_changed_def bind_result_eq_Inr Let_def split: if_splits) (metis record_known_parts(2) record_known_updates(1) snd_conv)

lemma record_known_new: "new_agent pair i j third timing now e flag = Inr a \<Longrightarrow> record_known a"
  by (auto simp: new_agent_def bind_result_eq_Inr record_known_def)

lemma record_known_keep:
  assumes "record_known a" and "pa_recorded_to a = 0" and "pa_recorded_until a = 0" and "\<not> pa_in_flight a"
  shows "record_known (keep_promises_in a (new_recorder d False) None (lpr_statement d) now)"
    and "record_known (keep_promises_in a (new_recorder d True) (Some (lpr_promised_to d, lpr_until d)) (lpr_statement d) now)"
  using assms recorder_ok_new
  by (simp_all add: keep_promises_in_def Let_def record_known_def disk_as_believed_def landed_def kept_on_disk_def new_recorder_def
      write_pending_def recorder_ok_def)

section \<open>A grant is covered by the record\<close>

text \<open>
  No write is under way, and none is waiting, that would replace the record by one that does not cover
  a promise to \<open>j\<close> until \<open>x\<close>.
\<close>

definition no_other_write :: "pair_lease_agent \<Rightarrow> instance_id \<Rightarrow> time_point \<Rightarrow> bool" where
  "no_other_write a j x \<longleftrightarrow>
     (pa_in_flight a \<longrightarrow> lpr_promised_to (pa_background_record a) = j \<and> x \<le> lpr_until (pa_background_record a)) \<and>
     (pa_record_wanted a \<longrightarrow> pa_wanted_to a = j \<and> x \<le> pa_wanted_until a)"

definition record_safe :: "pair_lease_agent \<Rightarrow> instance_id \<Rightarrow> time_point \<Rightarrow> bool" where
  "record_safe a j x \<longleftrightarrow>
     pa_recorder a = None \<or> (pa_recorded_to a = j \<and> x \<le> pa_recorded_until a \<and> no_other_write a j x)"

text \<open>What the disk then says, whatever the writer has done.\<close>

lemma record_safe_on_disk:
  assumes "record_known a" and "record_safe a j x" and "pa_recorder a = Some r" and "j \<noteq> 0"
  shows "fst (kept_on_disk r) = j" and "x \<le> snd (kept_on_disk r)"
  using assms
  by (auto simp: record_known_def no_other_write_def record_safe_def disk_as_believed_def kept_on_disk_def split: if_splits)

lemma record_safe_updates [simp]:
  "record_safe (a\<lparr>pa_participant := p\<rparr>) j x = record_safe a j x" "record_safe (a\<lparr>pa_last_tick_at := t\<rparr>) j x = record_safe a j x"
  "record_safe (a\<lparr>pa_last_renewal := t\<rparr>) j x = record_safe a j x" "record_safe (a\<lparr>pa_asked_at := t\<rparr>) j x = record_safe a j x"
  "record_safe (a\<lparr>pa_peer_refused := f\<rparr>) j x = record_safe a j x" "record_safe (a\<lparr>pa_third_refused := f\<rparr>) j x = record_safe a j x"
  "record_safe (a\<lparr>pa_resuming_lead_until := t\<rparr>) j x = record_safe a j x"
  "record_safe (a\<lparr>pa_reported_no_leader := f\<rparr>) j x = record_safe a j x"
  "record_safe (a\<lparr>pa_reported_may_not_lead := f\<rparr>) j x = record_safe a j x"
  "record_safe (a\<lparr>pa_asks_to_lead := f\<rparr>) j x = record_safe a j x"
  by (auto simp: record_safe_def no_other_write_def)

lemma record_safe_start:
  "record_safe a j x \<Longrightarrow> x \<le> u \<Longrightarrow> record_safe (start_record a j u) j x"
  by (auto simp: record_safe_def no_other_write_def start_record_def Let_def record_in_background_def
      split: option.splits if_splits prod.splits)

lemma record_safe_adopt: "record_safe a j x \<Longrightarrow> record_safe (adopt_background_record a) j x"
  by (auto simp: record_safe_def no_other_write_def adopt_background_record_def Let_def background_result_def
      split: option.splits if_splits prod.splits)

lemma record_safe_parts:
  assumes "record_safe a j x"
  shows "record_safe (start_wanted_record a) j x" "record_safe (write_statement_if_needed a) j x"
    "record_safe (report_whether_may_lead a) j x"
    "lh_state (lp_holder (pa_participant a)) \<noteq> Leading \<Longrightarrow> record_safe (record_leading a) j x"
    "x \<le> lv_promise_expires (lp_voter (pa_participant a)) \<Longrightarrow> record_safe (snd (promise_recorded a j)) j x"
proof -
  show "record_safe (start_wanted_record a) j x"
    using assms record_safe_start [OF assms]
    by (auto simp: start_wanted_record_def) (auto simp: record_safe_def no_other_write_def)
  show "record_safe (write_statement_if_needed a) j x"
    using assms record_safe_start [OF assms] by (auto simp: write_statement_if_needed_def) (auto simp: record_safe_def)
  show "record_safe (report_whether_may_lead a) j x" using assms by (simp add: report_whether_may_lead_def)
  show "lh_state (lp_holder (pa_participant a)) \<noteq> Leading \<Longrightarrow> record_safe (record_leading a) j x"
    using assms by (simp add: record_leading_def)
  have m: "0 \<le> promise_record_margin" by (simp add: promise_record_margin_def ms_def)
  assume e: "x \<le> lv_promise_expires (lp_voter (pa_participant a))"
  let ?a = "adopt_background_record a"
  have a1: "record_safe ?a j x" by (rule record_safe_adopt [OF assms])
  show "record_safe (snd (promise_recorded a j)) j x"
    using assms a1 record_safe_start [OF a1] e m
    by (auto simp: promise_recorded_def Let_def record_covering_def refresh_in_background_def)
qed

lemma record_safe_ask:
  "record_safe (snd (ask_voters a e t)) j x = record_safe a j x" "record_safe (snd (renew a t)) j x = record_safe a j x"
proof -
  show "record_safe (snd (ask_voters a e t)) j x = record_safe a j x" for a e
    by (simp add: ask_voters_def Let_def split: prod.split)
  then show "record_safe (snd (renew a t)) j x = record_safe a j x" by (simp add: renew_def)
qed

section \<open>A promise made is kept\<close>

text \<open>
  The vote is bound to \<open>j\<close> until \<open>x\<close>, the instance neither leads nor asks to lead, and a restart would know
  it: either it would wait, or the record says so.
\<close>

definition voter_safe :: "lease_participant \<Rightarrow> instance_id \<Rightarrow> time_point \<Rightarrow> bool" where
  "voter_safe p j x \<longleftrightarrow> participant_ok p \<and> j \<noteq> lp_self_id p \<and> voter_bound_to (lp_voter p) j x \<and> lh_state (lp_holder p) = Idle"

definition promise_safe :: "pair_lease_agent \<Rightarrow> instance_id \<Rightarrow> time_point \<Rightarrow> bool" where
  "promise_safe a j x \<longleftrightarrow>
     voter_safe (pa_participant a) j x \<and> (x \<le> lv_quiet_until (lp_voter (pa_participant a)) \<or> record_safe a j x)"

lemma path_safe:
  assumes "participant_path now p rs q" and "voter_safe p j x" and "now < x"
  shows "voter_safe q j x \<and> lv_quiet_until (lp_voter q) = lv_quiet_until (lp_voter p)"
  using assms
proof (induction rule: participant_path.induct)
  case path_start
  then show ?case by simp
next
  case (path_local rs q q')
  then have q: "voter_safe q j x" "lv_quiet_until (lp_voter q) = lv_quiet_until (lp_voter p)" by auto
  then have "\<not> may_ask_to_lead q now"
    using bound_blocks_asking [of q j x now] path_local.prems by (auto simp: voter_safe_def)
  with participant_local_ok [OF path_local.hyps(2)] q have "gains_nothing q q'" "participant_ok q'"
    "lh_state (lp_holder q') = Idle" by (auto simp: voter_safe_def)
  with q gains_nothing_bound [of q q' j x] show ?case by (simp add: voter_safe_def gains_nothing_def)
next
  case (path_ask rs q sent_at v r q')
  then show ?case by (simp add: voter_safe_def)
qed

lemma moves_safe:
  assumes "agent_moves now a sends b" and "voter_safe (pa_participant a) j x" and "now < x"
  shows "voter_safe (pa_participant b) j x"
    and "lv_quiet_until (lp_voter (pa_participant b)) = lv_quiet_until (lp_voter (pa_participant a))"
  using path_safe assms by (auto simp: agent_moves_def)

lemma promise_safeI:
  assumes "promise_safe a j x" and "agent_moves now a sends b" and "now < x" and "record_safe a j x \<Longrightarrow> record_safe b j x"
  shows "promise_safe b j x"
  using assms moves_safe [OF assms(2)] by (auto simp: promise_safe_def)

lemma tick_safe:
  assumes safe: "promise_safe a j x" and "now < x" and ids: "agent_ids a i"
    and tick: "agent_on_tick a now draw took = Inr (ch, sends, b)" and "0 \<le> took"
  shows "promise_safe b j x"
proof -
  define a2 where "a2 = report_whether_may_lead (write_statement_if_needed (start_wanted_record
    (adopt_background_record (a\<lparr>pa_last_tick_at := now\<rparr>))))"
  define a3 where "a3 = tick_abandon a2 now draw"
  obtain ch' a4 where t4: "tick_ran_out a3 now = (ch', a4)" by fastforce
  obtain s5 a5 where t5: "tick_renew a4 now = (s5, a5)" by fastforce
  obtain s6 a6 where t6: "tick_ask_again a5 now = (s6, a6)" by fastforce
  define a7 where "a7 = tick_give_up a6 now draw"
  obtain s8 where t8: "tick_ask a7 now took = Inr (s8, b)"
    using tick t4 t5 t6 unfolding agent_on_tick_def Let_def
    by (auto simp: a2_def [symmetric] a3_def [symmetric] a7_def [symmetric] bind_result_eq_Inr)
  have r7: "record_safe a7 j x" if "record_safe a j x"
  proof -
    have "record_safe a2 j x" using that by (simp add: a2_def record_safe_parts record_safe_adopt)
    then have "record_safe a3 j x" by (simp add: a3_def tick_abandon_def)
    then have "record_safe a4 j x" using t4 by (auto simp: tick_ran_out_def split: prod.splits)
    then have "record_safe a5 j x" using t5 record_safe_ask(2) [of a4 now] by (auto simp: tick_renew_def split: if_splits)
    then have "record_safe a6 j x" using t6 record_safe_ask(2) [of a5 now] by (auto simp: tick_ask_again_def split: if_splits)
    then show ?thesis by (simp add: a7_def tick_give_up_def)
  qed
  obtain c sends1 where c: "agent_moves now a sends1 c" "lh_state (lp_holder (pa_participant c)) = Idle \<Longrightarrow> b = c"
    using moves_tick [OF tick ids \<open>0 \<le> took\<close>] by metis
  from moves_safe [OF c(1) _ \<open>now < x\<close>] safe have vc: "voter_safe (pa_participant c) j x" by (simp add: promise_safe_def)
  with c(2) have b: "b = c" by (simp add: voter_safe_def)
  have "b = a7"
  proof (rule ccontr)
    assume "b \<noteq> a7"
    with t8 obtain e p where "begin_asking_to_lead (pa_participant a7) = Inr (e, p)"
      and ask: "ask_voters (a7\<lparr>pa_participant := p, pa_asked_at := now + took, pa_peer_refused := False,
        pa_third_refused := False, pa_last_renewal := now + took\<rparr>) e (now + took) = (s8, b)"
      by (auto simp: tick_ask_def bind_result_eq_Inr Let_def split: if_splits)
    then have "lh_state (lp_holder p) = Candidate" by (auto simp: begin_asking_to_lead_def bind_result_eq_Inr begin_candidacy_def)
    with ask have "lh_state (lp_holder (pa_participant b)) = Candidate"
      by (auto simp: ask_voters_def Let_def dest!: record_request_facts(2) split: prod.splits)
    with vc b show False by (simp add: voter_safe_def)
  qed
  with promise_safeI [OF safe c(1) \<open>now < x\<close>] r7 b show ?thesis by simp
qed

lemma grant_safe:
  assumes safe: "promise_safe a j x" and "now < x" and ids: "agent_ids a i"
    and gr: "agent_on_grant a v e r n now = Inr (ch, sends, b)"
  shows "promise_safe b j x"
proof -
  have idle: "lh_state (lp_holder (pa_participant a)) = Idle" and ok: "participant_ok (pa_participant a)"
    using safe by (simp_all add: promise_safe_def voter_safe_def)
  obtain ev p where p: "participant_on_grant (pa_participant a) v r e now = Inr (ev, p)"
    and m: "agent_moves now (a\<lparr>pa_participant := p\<rparr>) sends b"
    by (rule moves_grant [OF gr ids])
  have h: "fst (holder_on_grant (lp_holder (pa_participant a)) v r e now) = EventNothing"
    "lh_state (snd (holder_on_grant (lp_holder (pa_participant a)) v r e now)) = Idle"
    using idle by (cases rule: on_grant_cases [of "lp_holder (pa_participant a)" v r e now]; simp)+
  with p have ev: "ev = EventNothing" "p = (pa_participant a)\<lparr>lp_holder := snd (holder_on_grant (lp_holder (pa_participant a)) v r e now)\<rparr>"
    by (auto simp: participant_on_grant_def Let_def split: prod.splits)
  have "participant_ok p" by (rule participant_on_grant_ok(1) [OF ok p])
  then have "promise_safe (a\<lparr>pa_participant := p\<rparr>) j x"
    using safe h by (simp add: promise_safe_def voter_safe_def ev)
  moreover have "record_safe b j x" if "record_safe (a\<lparr>pa_participant := p\<rparr>) j x"
    using gr p ev that by (auto simp: agent_on_grant_def Let_def split: if_splits)
  ultimately show ?thesis using m \<open>now < x\<close> by (blast intro: promise_safeI)
qed

lemma request_safe:
  assumes safe: "promise_safe a j x" and "now < x" and x: "x \<le> now + lh_lease_period (lp_holder (pa_participant a))"
    and q: "agent_on_request a conn c e r st now = Inr (ch, sends, b)" and "c \<noteq> 0"
  shows "promise_safe b j x"
  using q
proof (rule on_request_parts)
  fix n1 p1 outcome p2 n3 p3 covered a4
  assume r1: "(if ls_leader_id st \<noteq> 0 \<and> newer_than st (lv_recorded_statement (lp_voter (pa_participant a)))
      then record_peer_statement (pa_participant a) st else Inr (0, pa_participant a)) = Inr (n1, p1)"
    and o: "on_peer_request p1 c e now = (outcome, p2)"
    and r3: "(if ans_verdict (pro_answer outcome) = Granted \<and> ls_leader_id st \<noteq> 0 then record_peer_statement p2 st else Inr (0, p2)) =
      Inr (n3, p3)"
    and c4: "(if ans_verdict (pro_answer outcome) = Granted then promise_recorded (a\<lparr>pa_participant := p3\<rparr>) c
      else (False, a\<lparr>pa_participant := p3\<rparr>)) = (covered, a4)"
    and b: "b = (if covered then report_whether_may_lead (write_statement_if_needed (a4\<lparr>pa_reported_no_leader := False\<rparr>)) else a4)"
  let ?g = "ans_verdict (pro_answer outcome) = Granted"
  have "participant_path now (pa_participant a) [] p1"
    using r1 by (auto split: if_splits intro: path_start path_one local_record)
  from path_safe [OF this _ \<open>now < x\<close>] safe
  have s1: "voter_safe p1 j x" "lv_quiet_until (lp_voter p1) = lv_quiet_until (lp_voter (pa_participant a))"
    by (auto simp: promise_safe_def)
  then have ok1: "participant_ok p1" by (simp add: voter_safe_def)
  have per: "lh_lease_period (lp_holder p1) = lh_lease_period (lp_holder (pa_participant a))"
    using r1 by (auto simp: record_peer_statement_def bind_result_eq_Inr split: if_splits)
  note O = on_peer_request_ok [OF ok1 o]
  have s2: "voter_safe p2 j x" "lv_quiet_until (lp_voter p2) = lv_quiet_until (lp_voter p1)"
    using s1 O on_peer_request_bound [OF ok1 o, of j x] x per \<open>now < x\<close> o
    by (auto simp: voter_safe_def on_peer_request_alt gave_way_def release_self_def)
  have "participant_path now p2 [] p3"
    using r3 by (auto split: if_splits intro: path_start path_one local_record)
  from path_safe [OF this s2(1) \<open>now < x\<close>]
  have s3: "voter_safe p3 j x" "lv_quiet_until (lp_voter p3) = lv_quiet_until (lp_voter (pa_participant a))"
    using s1 s2 by auto
  have exp: "lv_promise_expires (lp_voter p3) = lv_promise_expires (lp_voter p2)"
    using r3 record_statement_frame(4) by (auto simp: record_peer_statement_def bind_result_eq_Inr split: if_splits)
  have a4: "a4 = (if ?g then snd (promise_recorded (a\<lparr>pa_participant := p3\<rparr>) c) else a\<lparr>pa_participant := p3\<rparr>)"
    using c4 by (metis snd_conv)
  have rec: "record_safe b j x" if r: "record_safe a j x"
  proof (cases ?g)
    case True
    with on_peer_request_granted(3) [OF ok1 o True \<open>c \<noteq> 0\<close>, of j x] s1 \<open>now < x\<close> have j: "j = c" by (simp add: voter_safe_def)
    have "lv_promise_expires (lp_voter p2) = now + lh_lease_period (lp_holder p1)"
      using True o ok1 consider_granted_state
      by (auto simp: on_peer_request_alt gave_way_def participant_ok_def release_self_def)
    with x per exp have "x \<le> lv_promise_expires (lp_voter p3)" by simp
    with r j have "record_safe a4 j x"
      using record_safe_parts(5) [of "a\<lparr>pa_participant := p3\<rparr>" j x] by (simp add: a4 True)
    then show ?thesis by (simp add: b record_safe_parts)
  next
    case False
    with c4 r show ?thesis by (simp add: b a4)
  qed
  have "pa_participant b = p3" by (simp add: b a4)
  with s3 safe rec show ?thesis by (auto simp: promise_safe_def)
qed

lemma refusal_safe:
  assumes "promise_safe a j x" and "now < x" and r: "agent_on_refusal a v h r why now draw = (ch, b)"
  shows "promise_safe b j x"
proof (rule promise_safeI [OF assms(1) moves_refusal [OF r] assms(2)])
  show "record_safe a j x \<Longrightarrow> record_safe b j x"
    using r by (auto simp: agent_on_refusal_def Let_def split: if_splits prod.splits)
qed

lemma says_safe:
  assumes "promise_safe a j x" and "now < x" and ids: "agent_ids a i" and r: "agent_says say a now = Inr (sends, b)"
    and s: "say \<in> {begin_running_without_peer, peer_holds_everything, say_peer_may_not_lead, say_peer_may_lead}"
  shows "promise_safe b j x"
proof (rule promise_safeI [OF assms(1) moves_says [OF r ids s] assms(2)])
  show "record_safe a j x \<Longrightarrow> record_safe b j x"
    using r record_safe_ask(2)
    by (auto simp: agent_says_def statement_changed_def bind_result_eq_Inr Let_def split: if_splits)
      (metis record_safe_parts(2) record_safe_updates(1) snd_conv)+
qed

text \<open>A promise just granted is kept, if nothing else is being written or waiting to be.\<close>

lemma granted_safe:
  assumes ok: "participant_ok (pa_participant a)" and c: "c \<noteq> 0" "c \<noteq> lp_self_id (pa_participant a)"
    and q: "agent_on_request a conn c e r st now = Inr (AgreedPeerLeads, sends, b)"
    and clean: "no_other_write b c (now + lh_lease_period (lp_holder (pa_participant a)))"
    and period: "0 < lh_lease_period (lp_holder (pa_participant a))"
  shows "promise_safe b c (now + lh_lease_period (lp_holder (pa_participant a)))"
  using q
proof (rule on_request_parts)
  fix n1 p1 outcome p2 n3 p3 covered a4
  assume r1: "(if ls_leader_id st \<noteq> 0 \<and> newer_than st (lv_recorded_statement (lp_voter (pa_participant a)))
      then record_peer_statement (pa_participant a) st else Inr (0, pa_participant a)) = Inr (n1, p1)"
    and o: "on_peer_request p1 c e now = (outcome, p2)"
    and r3: "(if ans_verdict (pro_answer outcome) = Granted \<and> ls_leader_id st \<noteq> 0 then record_peer_statement p2 st else Inr (0, p2)) =
      Inr (n3, p3)"
    and c4: "(if ans_verdict (pro_answer outcome) = Granted then promise_recorded (a\<lparr>pa_participant := p3\<rparr>) c
      else (False, a\<lparr>pa_participant := p3\<rparr>)) = (covered, a4)"
    and b: "b = (if covered then report_whether_may_lead (write_statement_if_needed (a4\<lparr>pa_reported_no_leader := False\<rparr>)) else a4)"
    and ch: "AgreedPeerLeads = (if covered then AgreedPeerLeads else NoChange)"
  let ?P = "lh_lease_period (lp_holder (pa_participant a))"
  from ch have covered by (cases covered) auto
  with c4 have g: "ans_verdict (pro_answer outcome) = Granted" and pr: "promise_recorded (a\<lparr>pa_participant := p3\<rparr>) c = (True, a4)"
    by (auto split: if_splits)
  have ok1: "participant_ok p1" "lp_self_id p1 = lp_self_id (pa_participant a)" "lh_lease_period (lp_holder p1) = ?P"
    using r1 ok record_statement_participant(2)
    by (auto simp: record_peer_statement_def bind_result_eq_Inr split: if_splits)
  note G = on_peer_request_granted [OF ok1(1) o g c(1)] and O = on_peer_request_ok [OF ok1(1) o]
  have v2: "voter_safe p2 c (now + ?P)" using G O ok1 c(2) by (simp add: voter_safe_def)
  have "participant_path now p2 [] p3"
    using r3 by (auto split: if_splits intro: path_start path_one local_record)
  from path_safe [OF this v2] period have v3: "voter_safe p3 c (now + ?P)" by simp
  have "lv_promise_expires (lp_voter p2) = now + ?P"
    using g o ok1 consider_granted_state
    by (auto simp: on_peer_request_alt gave_way_def participant_ok_def release_self_def)
  then have exp: "lv_promise_expires (lp_voter p3) = now + ?P"
    using r3 record_statement_frame(4) by (auto simp: record_peer_statement_def bind_result_eq_Inr split: if_splits)
  have "pa_recorder a4 = None \<or> (pa_recorded_to a4 = c \<and> now + ?P \<le> pa_recorded_until a4)"
    using pr exp
    by (auto simp: promise_recorded_def Let_def record_covering_def refresh_in_background_def start_record_def
        split: if_splits option.splits prod.splits)
  then have "pa_recorder b = None \<or> (pa_recorded_to b = c \<and> now + ?P \<le> pa_recorded_until b)"
    using \<open>covered\<close>
    by (auto simp: b report_whether_may_lead_def write_statement_if_needed_def start_record_def Let_def split: option.splits prod.splits if_splits)
  moreover have "pa_participant b = p3" using pr participant_frame(8) [of "a\<lparr>pa_participant := p3\<rparr>" c]
    by (simp add: b \<open>covered\<close> del: participant_frame(8))
  ultimately show ?thesis using v3 clean by (auto simp: promise_safe_def record_safe_def)
qed

end
