(* ===== verification/AgentSystem.thy ===== *)
theory AgentSystem
  imports AgentRecord
begin

text \<open>
  Two agents of a pair, the third voter and the network, with the agents' own handlers as the steps. The
  system of \<open>LeaseSystem\<close> is its abstraction: every handler is a sequence of that system's steps on the
  agent's participant, so what is proved there holds of the agents.
\<close>

section \<open>The system of agents\<close>

record 'v agent_sys =
  as_time :: int
  as_agent :: "instance_id \<Rightarrow> pair_lease_agent"
  as_incarnation :: "instance_id \<Rightarrow> nat"
  as_machine :: "instance_id \<Rightarrow> nat"
  as_third :: 'v
  as_net :: "lease_msg set"

definition lease_view :: "'v agent_sys \<Rightarrow> 'v lease_sys" where
  "lease_view s =
     \<lparr>sys_time = as_time s, sys_participant = (\<lambda>i. pa_participant (as_agent s i)), sys_incarnation = as_incarnation s,
      sys_machine = as_machine s, sys_third = as_third s, sys_net = as_net s\<rparr>"

definition agent_now :: "clocks \<Rightarrow> 'v agent_sys \<Rightarrow> instance_id \<Rightarrow> time_point" where
  "agent_now clk s i = clk (as_machine s i) (as_time s)"

definition request_msgs :: "instance_id \<Rightarrow> nat \<Rightarrow> (instance_id \<times> epoch \<times> int) list \<Rightarrow> lease_msg set" where
  "request_msgs i inc rs = (\<lambda>(v, e, r). RequestMsg v i inc e r) ` set rs"

text \<open>How an agent is started: with a recorder and what its disk holds, or without one.\<close>

definition agent_started ::
  "pair_lease_agent \<Rightarrow> (promise_recorder \<times> (instance_id \<times> time_point) option \<times> leader_statement) option \<Rightarrow> time_point \<Rightarrow>
   pair_lease_agent" where
  "agent_started a keeping now =
     (case keeping of None \<Rightarrow> a | Some (recorder, kept, statement) \<Rightarrow> keep_promises_in a recorder kept statement now)"

text \<open>
  The steps. Two of them carry a condition the program does not check, without which the record on disk
  can be missing a promise: when a grant is sent, no record that does not cover it is being written or
  waiting to be; and a record is taken back only by an agent that was not itself still waiting out a
  lease period.
\<close>

inductive agent_step ::
  "clocks \<Rightarrow> ('v \<Rightarrow> instance_id \<Rightarrow> epoch \<Rightarrow> time_point \<Rightarrow> (lease_answer \<times> 'v) option) \<Rightarrow>
   ('v \<Rightarrow> time_point \<Rightarrow> 'v \<Rightarrow> bool) \<Rightarrow> ('v \<Rightarrow> 'v \<Rightarrow> bool) \<Rightarrow> lease_timing \<Rightarrow> 'v agent_sys \<Rightarrow> 'v agent_sys \<Rightarrow> bool"
  for clk decide restarted tended timing where
  agents_wait: "as_time s \<le> t \<Longrightarrow> agent_step clk decide restarted tended timing s (s\<lparr>as_time := t\<rparr>)"
| agent_ticks:
    "is_instance i \<Longrightarrow> 0 \<le> took \<Longrightarrow> agent_on_tick (as_agent s i) (agent_now clk s i) draw took = Inr (ch, sends, a) \<Longrightarrow>
     as_time s \<le> t \<Longrightarrow> agent_now clk s i + took \<le> clk (as_machine s i) t \<Longrightarrow>
     agent_step clk decide restarted tended timing s
       (s\<lparr>as_agent := (as_agent s)(i := a), as_time := t,
         as_net := as_net s \<union> request_msgs i (as_incarnation s i) (requests_of sends)\<rparr>)"
| agent_is_asked:
    "RequestMsg j i inc e r \<in> as_net s \<Longrightarrow> j = peer_of i \<Longrightarrow> is_instance i \<Longrightarrow>
     agent_on_request (as_agent s j) conn i e r st (agent_now clk s j) = Inr (ch, sends, a) \<Longrightarrow>
     ch = AgreedPeerLeads \<longrightarrow> no_other_write a i (agent_now clk s j + ms (lt_period timing)) \<Longrightarrow>
     agent_step clk decide restarted tended timing s
       (s\<lparr>as_agent := (as_agent s)(j := a),
         as_net := (if ch = AgreedPeerLeads then insert (GrantMsg j i inc e r (as_time s)) (as_net s) else as_net s)\<rparr>)"
| agent_is_granted:
    "GrantMsg v i (as_incarnation s i) e r g \<in> as_net s \<Longrightarrow> is_instance i \<Longrightarrow>
     agent_on_grant (as_agent s i) v e r n (agent_now clk s i) = Inr (ch, sends, a) \<Longrightarrow>
     agent_step clk decide restarted tended timing s
       (s\<lparr>as_agent := (as_agent s)(i := a),
         as_net := as_net s \<union> request_msgs i (as_incarnation s i) (requests_of sends)\<rparr>)"
| agent_is_refused:
    "is_instance i \<Longrightarrow> agent_on_refusal (as_agent s i) v h r why (agent_now clk s i) draw = (ch, a) \<Longrightarrow>
     agent_step clk decide restarted tended timing s (s\<lparr>as_agent := (as_agent s)(i := a)\<rparr>)"
| agent_is_told:
    "is_instance i \<Longrightarrow>
     agent_step clk decide restarted tended timing s
       (s\<lparr>as_agent := (as_agent s)(i := agent_on_statement_held (as_agent s i) x held alone)\<rparr>)"
| agent_speaks:
    "is_instance i \<Longrightarrow> say \<in> {begin_running_without_peer, peer_holds_everything, say_peer_may_not_lead, say_peer_may_lead} \<Longrightarrow>
     agent_says say (as_agent s i) (agent_now clk s i) = Inr (sends, a) \<Longrightarrow>
     agent_step clk decide restarted tended timing s
       (s\<lparr>as_agent := (as_agent s)(i := a),
         as_net := as_net s \<union> request_msgs i (as_incarnation s i) (requests_of sends)\<rparr>)"
| agent_withdraws:
    "is_instance i \<Longrightarrow>
     agent_step clk decide restarted tended timing s (s\<lparr>as_agent := (as_agent s)(i := stop_asking_to_lead (as_agent s i))\<rparr>)"
| agent_writer:
    "is_instance i \<Longrightarrow> pa_recorder (as_agent s i) = Some r \<Longrightarrow> writer_step r r' \<Longrightarrow>
     agent_step clk decide restarted tended timing s
       (s\<lparr>as_agent := (as_agent s)(i := (as_agent s i)\<lparr>pa_recorder := Some r'\<rparr>)\<rparr>)"
| third_is_asked:
    "RequestMsg third_voter_id i inc e r \<in> as_net s \<Longrightarrow>
     decide (as_third s) i e (agent_now clk s third_voter_id) = Some (ans, v) \<Longrightarrow>
     agent_step clk decide restarted tended timing s
       (s\<lparr>as_third := v,
         as_net := (if ans_verdict ans = Granted then insert (GrantMsg third_voter_id i inc e r (as_time s)) (as_net s)
                    else as_net s)\<rparr>)"
| third_voter_restarts:
    "restarted (as_third s) (clk m (as_time s)) v \<Longrightarrow>
     agent_step clk decide restarted tended timing s
       (s\<lparr>as_third := v, as_machine := (as_machine s)(third_voter_id := m)\<rparr>)"
| third_voter_tended:
    "tended (as_third s) v \<Longrightarrow> agent_step clk decide restarted tended timing s (s\<lparr>as_third := v\<rparr>)"
| agent_restarts:
    "is_instance i \<Longrightarrow>
     new_agent pair i (peer_of i) third_voter_id timing (clk m (as_time s)) e flag = Inr a \<Longrightarrow>
     keeping = None \<or> keeping = Some (new_recorder disk False, None, lpr_statement disk) \<Longrightarrow>
     agent_step clk decide restarted tended timing s
       (s\<lparr>as_agent := (as_agent s)(i := agent_started a keeping (clk m (as_time s))),
         as_incarnation := (as_incarnation s)(i := Suc (as_incarnation s i)), as_machine := (as_machine s)(i := m)\<rparr>)"
| agent_resumes:
    "is_instance i \<Longrightarrow> pa_recorder (as_agent s i) = Some r \<Longrightarrow> pr_this_boot r \<Longrightarrow>
     \<not> voter_restarting (lp_voter (pa_participant (as_agent s i))) (agent_now clk s i) \<Longrightarrow>
     new_agent pair i (peer_of i) third_voter_id timing (agent_now clk s i) e flag = Inr a \<Longrightarrow>
     agent_step clk decide restarted tended timing s
       (s\<lparr>as_agent := (as_agent s)(i := agent_started a
            (Some (new_recorder (pr_disk r) True, Some (kept_on_disk r), lpr_statement (pr_disk r))) (agent_now clk s i)),
         as_incarnation := (as_incarnation s)(i := Suc (as_incarnation s i))\<rparr>)"

inductive agent_init ::
  "clocks \<Rightarrow> ('v \<Rightarrow> time_point \<Rightarrow> 'v \<Rightarrow> bool) \<Rightarrow> ('v \<Rightarrow> bool) \<Rightarrow> lease_timing \<Rightarrow> 'v agent_sys \<Rightarrow> bool"
  for clk restarted ok timing where
  "ok v \<Longrightarrow> restarted v (clk (machine third_voter_id) t) third \<Longrightarrow>
   new_agent pair 1 2 third_voter_id timing (clk (machine 1) t) e1 flag = Inr a1 \<Longrightarrow>
   new_agent pair 2 1 third_voter_id timing (clk (machine 2) t) e2 flag = Inr a2 \<Longrightarrow>
   A 1 = agent_started a1 (Some (new_recorder d1 False, None, lpr_statement d1)) (clk (machine 1) t) \<Longrightarrow>
   A 2 = agent_started a2 (Some (new_recorder d2 False, None, lpr_statement d2)) (clk (machine 2) t) \<Longrightarrow>
   agent_init clk restarted ok timing
     \<lparr>as_time = t, as_agent = A, as_incarnation = (\<lambda>_. 0), as_machine = machine, as_third = third, as_net = {}\<rparr>"

inductive agent_reachable ::
  "clocks \<Rightarrow> ('v \<Rightarrow> instance_id \<Rightarrow> epoch \<Rightarrow> time_point \<Rightarrow> (lease_answer \<times> 'v) option) \<Rightarrow>
   ('v \<Rightarrow> time_point \<Rightarrow> 'v \<Rightarrow> bool) \<Rightarrow> ('v \<Rightarrow> 'v \<Rightarrow> bool) \<Rightarrow> ('v \<Rightarrow> bool) \<Rightarrow> lease_timing \<Rightarrow> 'v agent_sys \<Rightarrow> bool"
  for clk decide restarted tended ok timing where
  agents_start: "agent_init clk restarted ok timing s \<Longrightarrow> agent_reachable clk decide restarted tended ok timing s"
| agents_step: "agent_reachable clk decide restarted tended ok timing s \<Longrightarrow>
     agent_step clk decide restarted tended timing s s' \<Longrightarrow> agent_reachable clk decide restarted tended ok timing s'"

section \<open>The agents refine the lease system\<close>

text \<open>A path of one participant is a run of the lease system that sends the path's requests.\<close>

lemma path_steps:
  assumes "participant_path now p rs q" and "p = sys_participant s i" and "is_instance i" and "lp_self_id p = i"
    and "now = now_of clk s i"
  shows "(lease_step clk decide restarted tended period drift)\<^sup>*\<^sup>* s
    (s\<lparr>sys_participant := (sys_participant s)(i := q), sys_net := sys_net s \<union> request_msgs i (sys_incarnation s i) rs\<rparr>)"
  using assms
proof (induction rule: participant_path.induct)
  case path_start
  then show ?case by (simp add: request_msgs_def)
next
  case (path_local rs q q')
  let ?s = "s\<lparr>sys_participant := (sys_participant s)(i := q), sys_net := sys_net s \<union> request_msgs i (sys_incarnation s i) rs\<rparr>"
  have "lease_step clk decide restarted tended period drift ?s (?s\<lparr>sys_participant := (sys_participant ?s)(i := q')\<rparr>)"
    by (rule lease_step.instance_acts) (use path_local in \<open>auto simp: now_of_def\<close>)
  moreover have "(lease_step clk decide restarted tended period drift)\<^sup>*\<^sup>* s ?s" using path_local.IH path_local.prems by blast
  ultimately have "(lease_step clk decide restarted tended period drift)\<^sup>*\<^sup>* s (?s\<lparr>sys_participant := (sys_participant ?s)(i := q')\<rparr>)"
    by (rule rtranclp.rtrancl_into_rtrancl [rotated])
  moreover have "?s\<lparr>sys_participant := (sys_participant ?s)(i := q')\<rparr> = s\<lparr>sys_participant := (sys_participant s)(i := q'),
      sys_net := sys_net s \<union> request_msgs i (sys_incarnation s i) rs\<rparr>" by (cases s) simp
  ultimately show ?case by (simp only:)
next
  case (path_ask rs q sent_at v r q')
  let ?s = "s\<lparr>sys_participant := (sys_participant s)(i := q), sys_net := sys_net s \<union> request_msgs i (sys_incarnation s i) rs\<rparr>"
  have "lp_self_id q = i" using path_self [OF path_ask.hyps(1)] path_ask.prems by simp
  let ?t = "?s\<lparr>sys_participant := (sys_participant ?s)(i := q'),
        sys_net := insert (RequestMsg v i (sys_incarnation ?s i) (lh_epoch (lp_holder q')) r) (sys_net ?s)\<rparr>"
  from \<open>lp_self_id q = i\<close> have "lease_step clk decide restarted tended period drift ?s ?t"
    by (intro lease_step.instance_asks) (use path_ask in \<open>auto simp: now_of_def\<close>)
  moreover have "(lease_step clk decide restarted tended period drift)\<^sup>*\<^sup>* s ?s" using path_ask.IH path_ask.prems by blast
  ultimately have "(lease_step clk decide restarted tended period drift)\<^sup>*\<^sup>* s ?t"
    by (rule rtranclp.rtrancl_into_rtrancl [rotated])
  moreover have "?t = s\<lparr>sys_participant := (sys_participant s)(i := q'),
      sys_net := sys_net s \<union> request_msgs i (sys_incarnation s i) (rs @ [(v, lh_epoch (lp_holder q'), r)])\<rparr>"
    by (cases s) (simp add: request_msgs_def)
  ultimately show ?case by (simp only:)
qed

lemma path_steps_silent:
  assumes "participant_path now (sys_participant s i) [] q" and "is_instance i" and "lp_self_id (sys_participant s i) = i"
    and "now = now_of clk s i"
  shows "(lease_step clk decide restarted tended period drift)\<^sup>*\<^sup>* s (s\<lparr>sys_participant := (sys_participant s)(i := q)\<rparr>)"
proof -
  have "s\<lparr>sys_participant := (sys_participant s)(i := q), sys_net := sys_net s \<union> request_msgs i (sys_incarnation s i) []\<rparr> =
      s\<lparr>sys_participant := (sys_participant s)(i := q)\<rparr>" by (cases s) (simp add: request_msgs_def)
  with path_steps [OF assms(1) refl assms(2-4)] show ?thesis by (simp only:)
qed

definition pair_ids :: "'v agent_sys \<Rightarrow> bool" where
  "pair_ids s \<longleftrightarrow> (\<forall>i. is_instance i \<longrightarrow> agent_ids (as_agent s i) i)"

lemma lease_view_sel [simp]:
  "sys_time (lease_view s) = as_time s" "sys_participant (lease_view s) = (\<lambda>i. pa_participant (as_agent s i))"
  "sys_incarnation (lease_view s) = as_incarnation s" "sys_machine (lease_view s) = as_machine s"
  "sys_third (lease_view s) = as_third s" "sys_net (lease_view s) = as_net s" "now_of clk (lease_view s) i = agent_now clk s i"
  by (simp_all add: lease_view_def now_of_def agent_now_def)

text \<open>The view after an agent and what is in the network have been replaced.\<close>

lemma lease_view_agent:
  "lease_view (s\<lparr>as_agent := (as_agent s)(i := a), as_net := n\<rparr>) =
     (lease_view s)\<lparr>sys_participant := (sys_participant (lease_view s))(i := pa_participant a), sys_net := n\<rparr>"
  by (simp add: lease_view_def fun_eq_iff)

lemma moves_steps:
  assumes "agent_moves (agent_now clk s i) (as_agent s i) sends a" and "pair_ids s" and "is_instance i"
  defines "t \<equiv> s\<lparr>as_agent := (as_agent s)(i := a), as_net := as_net s \<union> request_msgs i (as_incarnation s i) (requests_of sends)\<rparr>"
  shows "(lease_step clk decide restarted tended period drift)\<^sup>*\<^sup>* (lease_view s) (lease_view t)" and "pair_ids t"
proof -
  have ids: "agent_ids (as_agent s i) i" using assms(2,3) by (simp add: pair_ids_def)
  from assms(1) have "participant_path (agent_now clk s i) (pa_participant (as_agent s i)) (requests_of sends) (pa_participant a)"
    by (simp add: agent_moves_def)
  from path_steps [OF this, of "lease_view s" i clk decide restarted tended period drift] ids assms(3)
  show "(lease_step clk decide restarted tended period drift)\<^sup>*\<^sup>* (lease_view s) (lease_view t)"
    unfolding t_def lease_view_agent by (simp add: agent_ids_def)
  show "pair_ids t" using assms(2) moves_ids [OF assms(1) ids] by (simp add: pair_ids_def t_def)
qed

lemma new_agent_participant:
  assumes "new_agent pair i j third timing now e flag = Inr a"
  obtains p where "new_participant i (ms (lt_period timing)) (ms (lt_drift_allowance timing)) now e flag = Inr p"
    and "pa_participant a = (if j < i then participant_stop p now (ms (lt_period timing + lt_renewal_interval timing)) else p)"
    and "pa_self_id a = i" "pa_peer_id a = j" "pa_third_voter_id a = third"
  using assms by (auto simp: new_agent_def bind_result_eq_Inr)

text \<open>However an agent is started, its participant is one restarted with the same record, and perhaps told to wait.\<close>

definition at_rest :: "lease_participant \<Rightarrow> bool" where
  "at_rest p \<longleftrightarrow> holder_stop (lp_holder p) = lp_holder p \<and> \<not> lv_held_for_self (lp_voter p)"

lemma stop_at_rest:
  assumes "at_rest p"
  shows "participant_stop p now w = p\<lparr>lp_wait_until := now + w\<rparr>"
proof -
  have "release_self (lp_voter p) = lp_voter p" using assms by (cases "lp_voter p") (simp add: release_self_def at_rest_def)
  with assms show ?thesis by (cases p) (simp add: participant_stop_def at_rest_def)
qed

lemma restarted_at_rest:
  "at_rest (restarted_participant p st kept now) = at_rest p"
  "restarted_participant (p\<lparr>lp_wait_until := w\<rparr>) st kept now = (restarted_participant p st kept now)\<lparr>lp_wait_until := w\<rparr>"
  by (auto simp: at_rest_def restarted_participant_def Let_def resume_with_kept_promise_def restore_recorded_statement_def
      voter_resume_with_kept_promise_def voter_restore_recorded_statement_def split: option.split)

lemma keep_promises_participant:
  assumes "pa_self_id a = lp_self_id (pa_participant a)"
  shows "pa_participant (keep_promises_in a r kept st now) =
    (let q = restarted_participant (pa_participant a) st kept now
     in if (case kept of None \<Rightarrow> False | Some (c, u) \<Rightarrow> c = pa_self_id a \<and> now < u) then participant_stop q now 0 else q)"
  using assms by (auto simp: keep_promises_in_def restarted_participant_def Let_def split: option.split)

lemma agent_started_path:
  assumes a: "new_agent pair i (peer_of i) third_voter_id timing now e flag = Inr a" and i: "is_instance i"
    and k: "keeping = None \<and> kept = None \<and> st = no_statement \<or> keeping = Some (r, kept, st)"
  obtains p where "new_participant i (ms (lt_period timing)) (ms (lt_drift_allowance timing)) now e flag = Inr p"
    and "participant_path now (restarted_participant p st kept now) [] (pa_participant (agent_started a keeping now))"
    and "agent_ids (agent_started a keeping now) i"
proof -
  let ?w = "ms (lt_period timing + lt_renewal_interval timing)"
  obtain p where p: "new_participant i (ms (lt_period timing)) (ms (lt_drift_allowance timing)) now e flag = Inr p"
    and a': "pa_participant a = (if peer_of i < i then participant_stop p now ?w else p)"
    "pa_self_id a = i" "pa_peer_id a = peer_of i" "pa_third_voter_id a = third_voter_id"
    using a by (rule new_agent_participant)
  from p have fresh: "lp_self_id p = i" "at_rest p" "lv_recorded_statement (lp_voter p) = no_statement"
    by (auto simp: new_participant_Inr make_participant_def make_voter_def at_rest_def make_holder_def holder_stop_def)
  let ?q = "restarted_participant p st kept now"
  have self: "pa_self_id a = lp_self_id (pa_participant a)" using a' fresh by (simp add: participant_stop_def)
  have "at_rest ?q" using fresh(2) by (simp add: restarted_at_rest)
  note wait = stop_at_rest [OF fresh(2)] stop_at_rest [OF this]
  have stops: "participant_path now ?q [] (?q\<lparr>lp_wait_until := w\<rparr>)" for w
    using path_one [OF local_stop, of now ?q "w - now"] by (simp add: wait)
  have "participant_path now ?q [] (pa_participant (agent_started a keeping now))"
  proof (cases keeping)
    case None
    with k have "?q = p" using restarted_without_statement [OF fresh(3)] by simp
    with None a' stops path_start show ?thesis by (simp add: agent_started_def wait(1))
  next
    case (Some x)
    with k have "keeping = Some (r, kept, st)" by simp
    then have "\<exists>w. pa_participant (agent_started a keeping now) \<in> {?q, ?q\<lparr>lp_wait_until := w\<rparr>}"
      using \<open>at_rest ?q\<close> stop_at_rest [of "?q\<lparr>lp_wait_until := now + ?w\<rparr>" now 0]
      by (auto simp: agent_started_def keep_promises_participant [OF self] a' wait restarted_at_rest Let_def at_rest_def)
    with stops path_start show ?thesis by auto
  qed
  moreover from path_self [OF this] have "agent_ids (agent_started a keeping now) i"
    using i a' fresh
    by (auto simp: agent_ids_def restarted_participant_simps agent_started_def keep_promises_in_def Let_def split: option.split prod.split)
  ultimately show ?thesis using that p by blast
qed

lemma pair_ids_update: "pair_ids s \<Longrightarrow> agent_ids a i \<Longrightarrow> pair_ids (s\<lparr>as_agent := (as_agent s)(i := a)\<rparr>)"
  by (simp add: pair_ids_def)

text \<open>
  Every step of the agents is a run of the lease system on their participants.
\<close>

lemma tick_refines:
  assumes ids: "pair_ids s" and i: "is_instance i" and "0 \<le> took" and t: "as_time s \<le> t"
    and tick: "agent_on_tick (as_agent s i) (agent_now clk s i) draw took = Inr (ch, sends, a)"
    and late: "agent_now clk s i + took \<le> clk (as_machine s i) t"
  defines "s' \<equiv> s\<lparr>as_agent := (as_agent s)(i := a), as_time := t,
    as_net := as_net s \<union> request_msgs i (as_incarnation s i) (requests_of sends)\<rparr>"
  shows "(lease_step clk decide restarted tended period drift)\<^sup>*\<^sup>* (lease_view s) (lease_view s')" and "pair_ids s'"
proof -
  have "agent_ids (as_agent s i) i" using ids i by (simp add: pair_ids_def)
  then obtain c sends1 sends2 where c: "sends = sends1 @ sends2"
    "agent_moves (agent_now clk s i) (as_agent s i) sends1 c"
    "\<And>now'. agent_now clk s i + took \<le> now' \<Longrightarrow> agent_moves now' c sends2 a"
    using moves_tick [OF tick _ assms(3)] by metis
  let ?s1 = "s\<lparr>as_agent := (as_agent s)(i := c), as_net := as_net s \<union> request_msgs i (as_incarnation s i) (requests_of sends1)\<rparr>"
  let ?s2 = "?s1\<lparr>as_time := t\<rparr>"
  note m1 = moves_steps(1) [OF c(2) ids i, where decide = decide and restarted = restarted and tended = tended
      and period = period and drift = drift] moves_steps(2) [OF c(2) ids i]
  have v2: "lease_view ?s2 = (lease_view ?s1)\<lparr>sys_time := t\<rparr>" by (simp add: lease_view_def)
  have wait: "lease_step clk decide restarted tended period drift (lease_view ?s1) (lease_view ?s2)"
    unfolding v2 by (rule lease_step.time_passes) (simp add: t)
  have "pair_ids ?s2" using m1(2) by (simp add: pair_ids_def)
  moreover have "agent_moves (agent_now clk ?s2 i) (as_agent ?s2 i) sends2 a"
    using c(3) late by (simp add: agent_now_def)
  ultimately have m2: "(lease_step clk decide restarted tended period drift)\<^sup>*\<^sup>* (lease_view ?s2)
      (lease_view (?s2\<lparr>as_agent := (as_agent ?s2)(i := a),
        as_net := as_net ?s2 \<union> request_msgs i (as_incarnation ?s2 i) (requests_of sends2)\<rparr>))"
    and ids2: "pair_ids (?s2\<lparr>as_agent := (as_agent ?s2)(i := a),
        as_net := as_net ?s2 \<union> request_msgs i (as_incarnation ?s2 i) (requests_of sends2)\<rparr>)"
    using moves_steps [OF _ _ i, of clk ?s2 sends2 a] by blast+
  have s': "?s2\<lparr>as_agent := (as_agent ?s2)(i := a),
      as_net := as_net ?s2 \<union> request_msgs i (as_incarnation ?s2 i) (requests_of sends2)\<rparr> = s'"
    by (cases s) (simp add: s'_def c(1) request_msgs_def image_Un Un_assoc)
  show "(lease_step clk decide restarted tended period drift)\<^sup>*\<^sup>* (lease_view s) (lease_view s')"
    using m1(1) wait m2 unfolding s' by (meson rtranclp.rtrancl_into_rtrancl rtranclp_trans)
  show "pair_ids s'" using ids2 unfolding s' .
qed

lemma asked_refines:
  assumes ids: "pair_ids s" and i: "is_instance i" and j: "j = peer_of i" and msg: "RequestMsg j i inc e r \<in> as_net s"
    and ans: "agent_on_request (as_agent s j) conn i e r st (agent_now clk s j) = Inr (ch, sends, a)"
  defines "s' \<equiv> s\<lparr>as_agent := (as_agent s)(j := a),
    as_net := (if ch = AgreedPeerLeads then insert (GrantMsg j i inc e r (as_time s)) (as_net s) else as_net s)\<rparr>"
  shows "(lease_step clk decide restarted tended period drift)\<^sup>*\<^sup>* (lease_view s) (lease_view s')" and "pair_ids s'"
proof -
  have ij: "is_instance j" using i j by simp
  have idj: "agent_ids (as_agent s j) j" using ids ij by (simp add: pair_ids_def)
  obtain p1 outcome p2 where p1: "participant_path (agent_now clk s j) (pa_participant (as_agent s j)) [] p1"
    and o: "on_peer_request p1 i e (agent_now clk s j) = (outcome, p2)"
    and m: "agent_moves (agent_now clk s j) ((as_agent s j)\<lparr>pa_participant := p2\<rparr>) [] a"
    and g: "ch = AgreedPeerLeads \<longrightarrow> ans_verdict (pro_answer outcome) = Granted"
    by (rule moves_request [OF ans])
  let ?R = "lease_step clk decide restarted tended period drift" and ?v = "lease_view s"
  let ?n = "if ch = AgreedPeerLeads then insert (GrantMsg j i inc e r (as_time s)) (as_net s) else as_net s"
  let ?v1 = "?v\<lparr>sys_participant := (sys_participant ?v)(j := p1)\<rparr>"
  have 1: "?R\<^sup>*\<^sup>* ?v ?v1"
    by (rule path_steps_silent [OF _ ij]) (use p1 idj in \<open>simp_all add: agent_ids_def\<close>)
  have 2: "?R ?v1 (?v1\<lparr>sys_participant := (sys_participant ?v1)(j := p2), sys_net := ?n\<rparr>)"
    using lease_step.peer_answers [of j i inc e r ?v1 clk outcome p2 "ch = AgreedPeerLeads" decide restarted tended period drift]
      msg i j o g by (cases "ch = AgreedPeerLeads") (simp_all add: now_of_def agent_now_def)
  let ?v2 = "?v\<lparr>sys_participant := (sys_participant ?v)(j := p2), sys_net := ?n\<rparr>"
  have v2: "?v1\<lparr>sys_participant := (sys_participant ?v1)(j := p2), sys_net := ?n\<rparr> = ?v2" by simp
  have "lp_self_id p2 = j"
    using o path_self [OF p1] idj
    by (auto simp: on_peer_request_def Let_def agent_ids_def split: prod.splits if_splits)
  then have 3: "?R\<^sup>*\<^sup>* ?v2 (?v2\<lparr>sys_participant := (sys_participant ?v2)(j := pa_participant a)\<rparr>)"
    using m by (intro path_steps_silent [OF _ ij]) (auto simp: agent_moves_def now_of_def agent_now_def)
  have "?v2\<lparr>sys_participant := (sys_participant ?v2)(j := pa_participant a)\<rparr> = lease_view s'"
    by (simp add: s'_def lease_view_def fun_eq_iff)
  with 1 2 3 v2 show "?R\<^sup>*\<^sup>* ?v (lease_view s')" by (metis rtranclp.rtrancl_into_rtrancl rtranclp_trans)
  have "agent_ids ((as_agent s j)\<lparr>pa_participant := p2\<rparr>) j" using idj \<open>lp_self_id p2 = j\<close> by (simp add: agent_ids_def)
  from moves_ids [OF m this] ids show "pair_ids s'" by (simp add: pair_ids_def s'_def)
qed

lemma granted_refines:
  assumes ids: "pair_ids s" and i: "is_instance i" and msg: "GrantMsg v i (as_incarnation s i) e r g \<in> as_net s"
    and gr: "agent_on_grant (as_agent s i) v e r n (agent_now clk s i) = Inr (ch, sends, a)"
  defines "s' \<equiv> s\<lparr>as_agent := (as_agent s)(i := a),
    as_net := as_net s \<union> request_msgs i (as_incarnation s i) (requests_of sends)\<rparr>"
  shows "(lease_step clk decide restarted tended period drift)\<^sup>*\<^sup>* (lease_view s) (lease_view s')" and "pair_ids s'"
proof -
  have idi: "agent_ids (as_agent s i) i" using ids i by (simp add: pair_ids_def)
  obtain ev p where p: "participant_on_grant (pa_participant (as_agent s i)) v r e (agent_now clk s i) = Inr (ev, p)"
    and m: "agent_moves (agent_now clk s i) ((as_agent s i)\<lparr>pa_participant := p\<rparr>) sends a"
    by (rule moves_grant [OF gr idi])
  let ?s1 = "s\<lparr>as_agent := (as_agent s)(i := (as_agent s i)\<lparr>pa_participant := p\<rparr>)\<rparr>"
  have v1: "lease_view ?s1 = (lease_view s)\<lparr>sys_participant := (sys_participant (lease_view s))(i := p)\<rparr>"
    by (simp add: lease_view_def fun_eq_iff)
  have 1: "lease_step clk decide restarted tended period drift (lease_view s) (lease_view ?s1)"
    unfolding v1 by (rule lease_step.grant_arrives [where v = v and e = e and r = r and g = g and ev = ev]) (use msg i p in simp_all)
  have "lp_self_id p = lp_self_id (pa_participant (as_agent s i))"
    using p by (auto simp: participant_on_grant_def Let_def bind_result_eq_Inr split: prod.splits if_splits)
  with ids i have ids1: "pair_ids ?s1" by (simp add: pair_ids_def agent_ids_def)
  have m1: "agent_moves (agent_now clk ?s1 i) (as_agent ?s1 i) sends a" using m by (simp add: agent_now_def)
  have s': "?s1\<lparr>as_agent := (as_agent ?s1)(i := a),
      as_net := as_net ?s1 \<union> request_msgs i (as_incarnation ?s1 i) (requests_of sends)\<rparr> = s'"
    by (simp add: s'_def)
  have "(lease_step clk decide restarted tended period drift)\<^sup>*\<^sup>* (lease_view ?s1) (lease_view s')" "pair_ids s'"
    using moves_steps [OF m1 ids1 i] unfolding s' by blast+
  with 1 show "(lease_step clk decide restarted tended period drift)\<^sup>*\<^sup>* (lease_view s) (lease_view s')" "pair_ids s'"
    by (simp_all add: converse_rtranclp_into_rtranclp)
qed

lemma silent_refines:
  assumes "agent_moves (agent_now clk s i) (as_agent s i) [] a" and "pair_ids s" and "is_instance i"
  shows "(lease_step clk decide restarted tended period drift)\<^sup>*\<^sup>* (lease_view s) (lease_view (s\<lparr>as_agent := (as_agent s)(i := a)\<rparr>))"
    and "pair_ids (s\<lparr>as_agent := (as_agent s)(i := a)\<rparr>)"
proof -
  have "s\<lparr>as_agent := (as_agent s)(i := a), as_net := as_net s \<union> request_msgs i (as_incarnation s i) (requests_of [])\<rparr> =
      s\<lparr>as_agent := (as_agent s)(i := a)\<rparr>" by (cases s) (simp add: request_msgs_def)
  with moves_steps [OF assms] show "(lease_step clk decide restarted tended period drift)\<^sup>*\<^sup>* (lease_view s)
      (lease_view (s\<lparr>as_agent := (as_agent s)(i := a)\<rparr>))" "pair_ids (s\<lparr>as_agent := (as_agent s)(i := a)\<rparr>)"
    by (simp_all only:)
qed

text \<open>A restart, in one lemma for both kinds: the fresh participant as the lease system has it, then its waits.\<close>

lemma restart_refines:
  assumes ids: "pair_ids s" and i: "is_instance i"
    and a: "new_agent pair i (peer_of i) third_voter_id timing (clk m (as_time s)) e flag = Inr a"
    and k: "keeping = None \<and> kept = None \<and> st = no_statement \<or> keeping = Some (r, kept, st)"
    and step: "\<And>p. new_participant i (ms (lt_period timing)) (ms (lt_drift_allowance timing)) (clk m (as_time s)) e flag = Inr p \<Longrightarrow>
      lease_step clk decide restarted tended period drift (lease_view s)
        ((lease_view s)\<lparr>sys_participant := (sys_participant (lease_view s))(i := restarted_participant p st kept (clk m (as_time s))),
          sys_incarnation := (as_incarnation s)(i := Suc (as_incarnation s i)), sys_machine := (as_machine s)(i := m)\<rparr>)"
  defines "s' \<equiv> s\<lparr>as_agent := (as_agent s)(i := agent_started a keeping (clk m (as_time s))),
    as_incarnation := (as_incarnation s)(i := Suc (as_incarnation s i)), as_machine := (as_machine s)(i := m)\<rparr>"
  shows "(lease_step clk decide restarted tended period drift)\<^sup>*\<^sup>* (lease_view s) (lease_view s')" and "pair_ids s'"
proof -
  let ?now = "clk m (as_time s)"
  obtain p where p: "new_participant i (ms (lt_period timing)) (ms (lt_drift_allowance timing)) ?now e flag = Inr p"
    and path: "participant_path ?now (restarted_participant p st kept ?now) [] (pa_participant (agent_started a keeping ?now))"
    and ids': "agent_ids (agent_started a keeping ?now) i"
    by (rule agent_started_path [OF a i k])
  let ?v1 = "(lease_view s)\<lparr>sys_participant := (sys_participant (lease_view s))(i := restarted_participant p st kept ?now),
    sys_incarnation := (as_incarnation s)(i := Suc (as_incarnation s i)), sys_machine := (as_machine s)(i := m)\<rparr>"
  have "lp_self_id p = i" using p by (auto simp: new_participant_Inr make_participant_def)
  then have "(lease_step clk decide restarted tended period drift)\<^sup>*\<^sup>* ?v1
      (?v1\<lparr>sys_participant := (sys_participant ?v1)(i := pa_participant (agent_started a keeping ?now))\<rparr>)"
    using path by (intro path_steps_silent [OF _ i]) (simp_all add: restarted_participant_simps now_of_def)
  moreover have "?v1\<lparr>sys_participant := (sys_participant ?v1)(i := pa_participant (agent_started a keeping ?now))\<rparr> = lease_view s'"
    by (simp add: s'_def lease_view_def fun_eq_iff)
  ultimately show "(lease_step clk decide restarted tended period drift)\<^sup>*\<^sup>* (lease_view s) (lease_view s')"
    using step [OF p] by (simp only: converse_rtranclp_into_rtranclp)
  show "pair_ids s'" using ids ids' by (simp add: pair_ids_def s'_def)
qed

section \<open>What the agents keep\<close>

text \<open>
  Each agent is well formed and knows its record, and a grant it has made that has not run out on its
  own clock is a promise it keeps.
\<close>

definition agent_ok :: "lease_timing \<Rightarrow> pair_lease_agent \<Rightarrow> instance_id \<Rightarrow> bool" where
  "agent_ok timing a i \<longleftrightarrow>
     agent_ids a i \<and> record_known a \<and> participant_ok (pa_participant a) \<and>
     lh_lease_period (lp_holder (pa_participant a)) = ms (lt_period timing)"

definition agents_inv :: "clocks \<Rightarrow> lease_timing \<Rightarrow> 'v agent_sys \<Rightarrow> bool" where
  "agents_inv clk timing s \<longleftrightarrow>
     0 < lt_period timing \<and>
     (\<forall>i. is_instance i \<longrightarrow> agent_ok timing (as_agent s i) i) \<and>
     (\<forall>i inc e r g. is_instance i \<longrightarrow> GrantMsg i (peer_of i) inc e r g \<in> as_net s \<longrightarrow>
        g \<le> as_time s \<and>
        (agent_now clk s i < clk (as_machine s i) g + ms (lt_period timing) \<longrightarrow>
           promise_safe (as_agent s i) (peer_of i) (clk (as_machine s i) g + ms (lt_period timing))))"

lemma path_ok:
  assumes "participant_path now p rs q" and "participant_ok p"
  shows "participant_ok q \<and> lh_lease_period (lp_holder q) = lh_lease_period (lp_holder p)"
  using assms
proof (induction rule: participant_path.induct)
  case (path_local rs q q')
  then show ?case using participant_local_ok [of now q q'] by (simp add: gains_nothing_def)
next
  case (path_ask rs q sent_at v r q')
  then show ?case using record_request_ok [of q v sent_at r q'] by simp
qed simp

lemma moves_participant:
  assumes "agent_moves now a sends b" and "participant_ok (pa_participant a)"
  shows "participant_ok (pa_participant b)"
    and "lh_lease_period (lp_holder (pa_participant b)) = lh_lease_period (lp_holder (pa_participant a))"
  using assms path_ok by (auto simp: agent_moves_def)

lemma moves_ok:
  assumes "agent_moves now a sends b" and "agent_ok timing a i" and "record_known b"
  shows "agent_ok timing b i"
  using assms moves_participant [OF assms(1)] moves_ids [OF assms(1)] by (auto simp: agent_ok_def)

lemma agents_inv_ids: "agents_inv clk timing s \<Longrightarrow> pair_ids s"
  by (simp add: agents_inv_def pair_ids_def agent_ok_def)

text \<open>Replacing one agent, sending requests and letting time pass.\<close>

lemma agents_inv_update:
  assumes inv: "agents_inv clk timing s" and mono: "\<And>m t t'. t \<le> t' \<Longrightarrow> clk m t \<le> clk m t'" and i: "is_instance i"
    and ok: "agent_ok timing b i" and t: "as_time s \<le> t"
    and net: "\<And>v j inc e r g. GrantMsg v j inc e r g \<in> n \<Longrightarrow> GrantMsg v j inc e r g \<in> as_net s"
    and safe: "\<And>x. promise_safe (as_agent s i) (peer_of i) x \<Longrightarrow> agent_now clk s i < x \<Longrightarrow>
      x \<le> agent_now clk s i + ms (lt_period timing) \<Longrightarrow> promise_safe b (peer_of i) x"
  shows "agents_inv clk timing (s\<lparr>as_agent := (as_agent s)(i := b), as_time := t, as_net := n\<rparr>)"
proof -
  let ?s = "s\<lparr>as_agent := (as_agent s)(i := b), as_time := t, as_net := n\<rparr>" and ?P = "ms (lt_period timing)"
  have now: "agent_now clk s k \<le> agent_now clk ?s k" for k using mono [OF t] by (simp add: agent_now_def)
  have "g \<le> as_time ?s \<and> (agent_now clk ?s k < clk (as_machine ?s k) g + ?P \<longrightarrow>
      promise_safe (as_agent ?s k) (peer_of k) (clk (as_machine ?s k) g + ?P))"
    if k: "is_instance k" and g: "GrantMsg k (peer_of k) inc e r g \<in> as_net ?s" for k inc e r g
  proof -
    from g net have g': "GrantMsg k (peer_of k) inc e r g \<in> as_net s" by simp
    with inv k have gt: "g \<le> as_time s"
      and old: "agent_now clk s k < clk (as_machine s k) g + ?P \<Longrightarrow> promise_safe (as_agent s k) (peer_of k) (clk (as_machine s k) g + ?P)"
      unfolding agents_inv_def by blast+
    have "clk (as_machine s k) g \<le> agent_now clk s k" using mono [OF gt] by (simp add: agent_now_def)
    with old safe now [of k] gt t show ?thesis by (cases "k = i") auto
  qed
  with inv i ok show ?thesis unfolding agents_inv_def by auto
qed

lemma no_grant_in_requests [simp]: "GrantMsg v j inc e r g \<notin> request_msgs i k rs"
  by (auto simp: request_msgs_def)

lemma agents_inv_moves:
  assumes inv: "agents_inv clk timing s" and mono: "\<And>m t t'. t \<le> t' \<Longrightarrow> clk m t \<le> clk m t'" and i: "is_instance i"
    and m: "agent_moves (agent_now clk s i) (as_agent s i) sends b" and k: "record_known b"
    and safe: "\<And>x. promise_safe (as_agent s i) (peer_of i) x \<Longrightarrow> agent_now clk s i < x \<Longrightarrow> promise_safe b (peer_of i) x"
  shows "agents_inv clk timing
    (s\<lparr>as_agent := (as_agent s)(i := b), as_net := as_net s \<union> request_msgs i (as_incarnation s i) rs\<rparr>)"
    and "agents_inv clk timing (s\<lparr>as_agent := (as_agent s)(i := b)\<rparr>)"
proof -
  have "agent_ok timing b i" using moves_ok [OF m _ k] inv i by (simp add: agents_inv_def)
  note U = agents_inv_update [OF inv mono i this order_refl]
  have "s\<lparr>as_agent := (as_agent s)(i := b), as_time := as_time s, as_net := n\<rparr> = s\<lparr>as_agent := (as_agent s)(i := b), as_net := n\<rparr>" for n
    by (cases s) simp
  with U [of "as_net s \<union> request_msgs i (as_incarnation s i) rs"] safe
  show "agents_inv clk timing (s\<lparr>as_agent := (as_agent s)(i := b), as_net := as_net s \<union> request_msgs i (as_incarnation s i) rs\<rparr>)"
    by auto
  have "s\<lparr>as_agent := (as_agent s)(i := b), as_time := as_time s, as_net := as_net s\<rparr> = s\<lparr>as_agent := (as_agent s)(i := b)\<rparr>"
    by (cases s) simp
  with U [of "as_net s"] safe show "agents_inv clk timing (s\<lparr>as_agent := (as_agent s)(i := b)\<rparr>)" by auto
qed

text \<open>An agent that answers a grant or a request is well formed afterwards.\<close>

lemma grant_ok:
  assumes gr: "agent_on_grant a v e r n now = Inr (ch, sends, b)" and ok: "agent_ok timing a i"
  shows "agent_ok timing b i"
proof -
  have ids: "agent_ids a i" and okp: "participant_ok (pa_participant a)" using ok by (simp_all add: agent_ok_def)
  obtain ev p where p: "participant_on_grant (pa_participant a) v r e now = Inr (ev, p)"
    and m: "agent_moves now (a\<lparr>pa_participant := p\<rparr>) sends b"
    by (rule moves_grant [OF gr ids])
  note P = participant_on_grant_ok [OF okp p]
  have "lh_lease_period (lp_holder p) = lh_lease_period (lp_holder (pa_participant a))"
    unfolding P(2) by (cases rule: on_grant_cases [of "lp_holder (pa_participant a)" v r e now]) simp_all
  with P ok have "agent_ok timing (a\<lparr>pa_participant := p\<rparr>) i" by (simp add: agent_ok_def agent_ids_def)
  moreover have "record_known b" using record_known_grant [OF gr] ok by (simp add: agent_ok_def)
  ultimately show ?thesis using moves_ok [OF m] by blast
qed

lemma request_ok:
  assumes q: "agent_on_request a conn c e r st now = Inr (ch, sends, b)" and ok: "agent_ok timing a i"
  shows "agent_ok timing b i"
proof -
  obtain p1 outcome p2 where p1: "participant_path now (pa_participant a) [] p1"
    and o: "on_peer_request p1 c e now = (outcome, p2)" and m: "agent_moves now (a\<lparr>pa_participant := p2\<rparr>) [] b"
    by (rule moves_request [OF q])
  have ok1: "participant_ok p1" "lh_lease_period (lp_holder p1) = ms (lt_period timing)" "lp_self_id p1 = lp_self_id (pa_participant a)"
    using path_ok [OF p1] path_self [OF p1] ok by (simp_all add: agent_ok_def)
  with on_peer_request_ok(1-3) [OF ok1(1) o] ok have "agent_ok timing (a\<lparr>pa_participant := p2\<rparr>) i"
    by (simp add: agent_ok_def agent_ids_def)
  moreover have "record_known b" using record_known_request [OF q] ok by (simp add: agent_ok_def)
  ultimately show ?thesis using moves_ok [OF m] by blast
qed

lemma tick_ok:
  assumes tick: "agent_on_tick a now draw took = Inr (ch, sends, b)" and ok: "agent_ok timing a i" and "0 \<le> took"
  shows "agent_ok timing b i"
proof -
  have ids: "agent_ids a i" and okp: "participant_ok (pa_participant a)" using ok by (simp_all add: agent_ok_def)
  obtain c sends1 sends2 where c: "agent_moves now a sends1 c" "agent_moves (now + took) c sends2 b"
    using moves_tick [OF tick ids assms(3)] by (metis order_refl)
  have "record_known b" using record_known_tick [OF tick] ok by (simp add: agent_ok_def)
  with moves_participant [OF c(1) okp] moves_participant [OF c(2)] moves_ids [OF c(1) ids] moves_ids [OF c(2)] ok
  show ?thesis by (simp add: agent_ok_def)
qed

text \<open>An agent that has just started, without a record of this boot and with one.\<close>

lemma started_ok:
  assumes a: "new_agent pair i (peer_of i) third_voter_id timing now e flag = Inr a" and i: "is_instance i"
    and k: "keeping = None \<and> kept = None \<and> st = no_statement \<or> keeping = Some (r, kept, st)"
    and known: "record_known (agent_started a keeping now)"
  shows "agent_ok timing (agent_started a keeping now) i"
    and "kept = None \<Longrightarrow> now < x \<Longrightarrow> x \<le> now + ms (lt_period timing) \<Longrightarrow> promise_safe (agent_started a keeping now) (peer_of i) x"
    and "kept = Some (peer_of i, u) \<Longrightarrow> now < x \<Longrightarrow> x \<le> u \<Longrightarrow> promise_safe (agent_started a keeping now) (peer_of i) x"
    and "0 < lt_period timing"
proof -
  let ?b = "agent_started a keeping now" and ?P = "ms (lt_period timing)"
  obtain p where p: "new_participant i ?P (ms (lt_drift_allowance timing)) now e flag = Inr p"
    and path: "participant_path now (restarted_participant p st kept now) [] (pa_participant ?b)" and ids: "agent_ids ?b i"
    by (rule agent_started_path [OF a i k])
  let ?q = "restarted_participant p st kept now"
  from p have p': "p = make_participant i ?P (ms (lt_drift_allowance timing)) now e flag"
    and dom: "0 < ?P" "0 \<le> ms (lt_drift_allowance timing)" "ms (lt_drift_allowance timing) < ?P"
    by (simp_all add: new_participant_Inr)
  have ok: "participant_ok ?q"
    unfolding restarted_participant_simps p' using i dom by (intro make_participant_ok) (auto simp: is_instance_def)
  have per: "lh_lease_period (lp_holder ?q) = ?P" "lh_state (lp_holder ?q) = Idle" "lp_self_id ?q = i"
    by (simp_all add: restarted_participant_simps p' make_participant_def make_holder_def)
  show "agent_ok timing ?b i" using path_ok [OF path ok] per ids known by (simp add: agent_ok_def)
  show "0 < lt_period timing" using dom by (simp add: ms_def)
  have safe: "voter_safe (pa_participant ?b) (peer_of i) x \<and> lv_quiet_until (lp_voter (pa_participant ?b)) = lv_quiet_until (lp_voter ?q)"
    if "voter_bound_to (lp_voter ?q) (peer_of i) x" "now < x"
    using path_safe [OF path _ \<open>now < x\<close>, of "peer_of i"] that ok per i by (simp add: voter_safe_def)
  show "promise_safe ?b (peer_of i) x" if "kept = None" "now < x" "x \<le> now + ?P"
  proof -
    have "x \<le> lv_quiet_until (lp_voter ?q)"
      unfolding that(1) restarted_participant_simps using that by (simp add: p' make_participant_def make_voter_def)
    with safe that show ?thesis by (simp add: promise_safe_def voter_bound_to_def)
  qed
  show "promise_safe ?b (peer_of i) x" if k': "kept = Some (peer_of i, u)" "now < x" "x \<le> u"
  proof -
    have "voter_bound_to (lp_voter ?q) (peer_of i) x"
      using that i by (simp add: restarted_participant_def p' make_participant_def resume_with_kept_promise_def Let_def
          restore_recorded_statement_def voter_resume_with_kept_promise_def voter_bound_to_def)
    moreover have "\<not> pa_in_flight a" "\<not> pa_record_wanted a" "pa_self_id a = i"
      using a by (auto simp: new_agent_def bind_result_eq_Inr)
    then have "record_safe ?b (peer_of i) x"
      using k k' i by (auto simp: agent_started_def keep_promises_in_def Let_def record_safe_def no_other_write_def)
    ultimately show ?thesis using safe that by (simp add: promise_safe_def)
  qed
qed

text \<open>What a restart finds on disk covers every grant that has not run out, once the agent has waited out its own restart.\<close>

lemma disk_covers_grants:
  assumes inv: "agents_inv clk timing s" and i: "is_instance i" and r: "pa_recorder (as_agent s i) = Some r"
    and nr: "\<not> voter_restarting (lp_voter (pa_participant (as_agent s i))) (agent_now clk s i)"
  shows "grants_covered clk (ms (lt_period timing)) (lease_view s) i (fst (kept_on_disk r)) (snd (kept_on_disk r))"
  unfolding grants_covered_def
proof (intro allI impI)
  fix inc e q g
  let ?x = "clk (as_machine s i) g + ms (lt_period timing)"
  assume "GrantMsg i (peer_of i) inc e q g \<in> sys_net (lease_view s)"
    and "now_of clk (lease_view s) i < clk (sys_machine (lease_view s) i) g + ms (lt_period timing)"
  then have g: "GrantMsg i (peer_of i) inc e q g \<in> as_net s" and x: "agent_now clk s i < ?x" by simp_all
  with inv i have "promise_safe (as_agent s i) (peer_of i) ?x" unfolding agents_inv_def by blast
  with nr x have "record_safe (as_agent s i) (peer_of i) ?x" by (auto simp: promise_safe_def voter_restarting_def)
  moreover have "record_known (as_agent s i)" using inv i by (simp add: agents_inv_def agent_ok_def)
  moreover have "peer_of i \<noteq> 0" using i by (auto simp: is_instance_def peer_of_def)
  ultimately show "fst (kept_on_disk r) = peer_of i \<and> clk (sys_machine (lease_view s) i) g + ms (lt_period timing) \<le> snd (kept_on_disk r)"
    using record_safe_on_disk [OF _ _ r] by auto
qed

text \<open>A restart keeps what has been granted, if the agent that starts is safe for it.\<close>

lemma agents_inv_restart:
  assumes inv: "agents_inv clk timing s" and mono: "\<And>m t t'. t \<le> t' \<Longrightarrow> clk m t \<le> clk m t'" and i: "is_instance i"
    and ok: "agent_ok timing b i"
    and safe: "\<And>inc e r g. GrantMsg i (peer_of i) inc e r g \<in> as_net s \<Longrightarrow> clk m (as_time s) < clk m g + ms (lt_period timing) \<Longrightarrow>
      clk m g \<le> clk m (as_time s) \<Longrightarrow> promise_safe b (peer_of i) (clk m g + ms (lt_period timing))"
  shows "agents_inv clk timing (s\<lparr>as_agent := (as_agent s)(i := b), as_incarnation := inc, as_machine := (as_machine s)(i := m)\<rparr>)"
proof -
  let ?s = "s\<lparr>as_agent := (as_agent s)(i := b), as_incarnation := inc, as_machine := (as_machine s)(i := m)\<rparr>"
  let ?P = "ms (lt_period timing)"
  have "g \<le> as_time ?s \<and> (agent_now clk ?s k < clk (as_machine ?s k) g + ?P \<longrightarrow>
      promise_safe (as_agent ?s k) (peer_of k) (clk (as_machine ?s k) g + ?P))"
    if k: "is_instance k" and g: "GrantMsg k (peer_of k) inc e r g \<in> as_net ?s" for k inc e r g
  proof -
    from inv k g have "g \<le> as_time s"
      and "agent_now clk s k < clk (as_machine s k) g + ?P \<Longrightarrow> promise_safe (as_agent s k) (peer_of k) (clk (as_machine s k) g + ?P)"
      unfolding agents_inv_def by simp_all
    with safe mono g show ?thesis by (cases "k = i") (auto simp: agent_now_def)
  qed
  with inv ok show ?thesis unfolding agents_inv_def by auto
qed

lemma started_known:
  assumes "new_agent pair i j third timing now e flag = Inr a"
  shows "record_known (agent_started a None now)"
    and "record_known (agent_started a (Some (new_recorder d False, None, lpr_statement d)) now)"
    and "record_known (agent_started a (Some (new_recorder d True, Some (lpr_promised_to d, lpr_until d), lpr_statement d)) now)"
proof -
  have "pa_recorded_to a = 0" "pa_recorded_until a = 0" "\<not> pa_in_flight a"
    using assms by (auto simp: new_agent_def bind_result_eq_Inr)
  note K = record_known_keep [OF record_known_new [OF assms] this]
  show "record_known (agent_started a None now)" using record_known_new [OF assms] by (simp add: agent_started_def)
  show "record_known (agent_started a (Some (new_recorder d False, None, lpr_statement d)) now)"
    and "record_known (agent_started a (Some (new_recorder d True, Some (lpr_promised_to d, lpr_until d), lpr_statement d)) now)"
    using K by (simp_all add: agent_started_def)
qed

text \<open>A peer's request: what was promised is kept, and so is the promise just made.\<close>

lemma agents_inv_asked:
  assumes inv: "agents_inv clk timing s" and mono: "\<And>m t t'. t \<le> t' \<Longrightarrow> clk m t \<le> clk m t'"
    and i: "is_instance i" and j: "j = peer_of i"
    and ans: "agent_on_request (as_agent s j) conn i e r st (agent_now clk s j) = Inr (ch, sends, a)"
    and clean: "ch = AgreedPeerLeads \<longrightarrow> no_other_write a i (agent_now clk s j + ms (lt_period timing))"
  shows "agents_inv clk timing (s\<lparr>as_agent := (as_agent s)(j := a),
    as_net := (if ch = AgreedPeerLeads then insert (GrantMsg j i inc e r (as_time s)) (as_net s) else as_net s)\<rparr>)"
proof -
  let ?P = "ms (lt_period timing)" and ?now = "agent_now clk s j"
  let ?s = "s\<lparr>as_agent := (as_agent s)(j := a)\<rparr>"
  have ij: "is_instance j" "i = peer_of j" "i \<noteq> 0" "i \<noteq> j" using i j by (auto simp: is_instance_def peer_of_def)
  have ok: "agent_ok timing (as_agent s j) j" "0 < ?P" using inv ij(1) by (simp_all add: agents_inv_def ms_def)
  then have per: "lh_lease_period (lp_holder (pa_participant (as_agent s j))) = ?P" "participant_ok (pa_participant (as_agent s j))"
    "lp_self_id (pa_participant (as_agent s j)) = j" by (simp_all add: agent_ok_def agent_ids_def)
  have safe: "promise_safe a (peer_of j) x"
    if "promise_safe (as_agent s j) (peer_of j) x" "?now < x" "x \<le> ?now + ?P" for x
    using request_safe [OF that(1,2) _ ans] that per ij by simp
  have "s\<lparr>as_agent := (as_agent s)(j := a), as_time := as_time s, as_net := as_net s\<rparr> = ?s" by (cases s) simp
  with agents_inv_update [OF inv mono ij(1) request_ok [OF ans ok(1)] order_refl, of "as_net s"] safe
  have inv1: "agents_inv clk timing ?s" by auto
  show ?thesis
  proof (cases "ch = AgreedPeerLeads")
    case True
    with granted_safe [OF per(2) ij(3) _ ans [unfolded True]] clean per ok(2) ij
    have "promise_safe a (peer_of j) (?now + ?P)" by simp
    with inv1 True ij show ?thesis unfolding agents_inv_def by (auto simp: agent_now_def)
  qed (use inv1 in simp)
qed

lemma agents_inv_step:
  assumes "agent_step clk decide restarted tended timing s s'" and "agents_inv clk timing s"
    and mono: "\<And>m t t'. t \<le> t' \<Longrightarrow> clk m t \<le> clk m t'"
  shows "agents_inv clk timing s'"
  using assms(1,2)
proof (induction rule: agent_step.induct)
  case (agents_wait s t)
  have "s\<lparr>as_agent := (as_agent s)(1 := as_agent s 1), as_time := t, as_net := as_net s\<rparr> = s\<lparr>as_time := t\<rparr>" by (cases s) simp
  with agents_inv_update [OF agents_wait(2) mono, of 1 "as_agent s 1" t "as_net s"] agents_wait show ?case
    by (simp add: agents_inv_def)
next
  case (agent_ticks i took s draw ch sends a t)
  then have ok: "agent_ok timing (as_agent s i) i" by (simp add: agents_inv_def)
  then have ids: "agent_ids (as_agent s i) i" by (simp add: agent_ok_def)
  show ?case
    by (rule agents_inv_update [OF agent_ticks.prems mono])
      (use agent_ticks tick_ok [OF _ ok] tick_safe [OF _ _ ids] in auto)
next
  case (agent_is_asked j i inc e r s conn st ch sends a)
  then show ?case by (intro agents_inv_asked [OF agent_is_asked.prems mono])
next
  case (agent_is_granted v i s e r g n ch sends a)
  then have ok: "agent_ok timing (as_agent s i) i" by (simp add: agents_inv_def)
  then have ids: "agent_ids (as_agent s i) i" by (simp add: agent_ok_def)
  have eq: "s\<lparr>as_agent := A, as_net := n\<rparr> = s\<lparr>as_agent := A, as_time := as_time s, as_net := n\<rparr>" for A n by (cases s) simp
  show ?case unfolding eq
    by (rule agents_inv_update [OF agent_is_granted.prems mono])
      (use agent_is_granted grant_ok [OF _ ok] grant_safe [OF _ _ ids] in auto)
next
  case (agent_is_refused i s v h r why draw ch a)
  then have "record_known (as_agent s i)" by (simp add: agents_inv_def agent_ok_def)
  with record_known_refusal agent_is_refused have "record_known a" by blast
  from agents_inv_moves(2) [OF agent_is_refused(3) mono agent_is_refused(1) moves_refusal [OF agent_is_refused(2)] this]
  show ?case using refusal_safe agent_is_refused(2) by blast
next
  case (agent_is_told i s x held alone)
  then have k: "record_known (agent_on_statement_held (as_agent s i) x held alone)"
    by (simp add: agents_inv_def agent_ok_def agent_on_statement_held_def)
  have "promise_safe (agent_on_statement_held (as_agent s i) x held alone) j y"
    if "promise_safe (as_agent s i) j y" "agent_now clk s i < y" for j y
    by (rule promise_safeI [OF that(1) moves_held that(2)]) (simp add: agent_on_statement_held_def)
  with agents_inv_moves(2) [OF agent_is_told(2) mono agent_is_told(1) moves_held k] show ?case by blast
next
  case (agent_speaks i say s sends a)
  then have ids: "agent_ids (as_agent s i) i" and k: "record_known (as_agent s i)" by (simp_all add: agents_inv_def agent_ok_def)
  from agents_inv_moves(1) [OF agent_speaks(4) mono agent_speaks(1) moves_says [OF agent_speaks(3) ids agent_speaks(2)]
      record_known_says [OF agent_speaks(3) k]] says_safe [OF _ _ ids agent_speaks(3,2)]
  show ?case by blast
next
  case (agent_withdraws i s)
  have m: "agent_moves (agent_now clk s i) (as_agent s i) [] (stop_asking_to_lead (as_agent s i))"
    by (rule moves_same) (simp_all add: stop_asking_to_lead_def same_identity_def)
  have k: "record_known (stop_asking_to_lead (as_agent s i))"
    using agent_withdraws by (simp add: agents_inv_def agent_ok_def stop_asking_to_lead_def)
  have "promise_safe (stop_asking_to_lead (as_agent s i)) j y"
    if "promise_safe (as_agent s i) j y" "agent_now clk s i < y" for j y
    by (rule promise_safeI [OF that(1) m that(2)]) (simp add: stop_asking_to_lead_def)
  with agents_inv_moves(2) [OF agent_withdraws(2) mono agent_withdraws(1) m k] show ?case by blast
next
  case (agent_writer i s r r')
  let ?b = "(as_agent s i)\<lparr>pa_recorder := Some r'\<rparr>"
  have m: "agent_moves (agent_now clk s i) (as_agent s i) [] ?b"
    by (rule moves_same) (simp_all add: same_identity_def)
  have k: "record_known ?b"
    using agent_writer record_known_writer by (auto simp: agents_inv_def agent_ok_def)
  have "promise_safe ?b j y" if "promise_safe (as_agent s i) j y" "agent_now clk s i < y" for j y
    by (rule promise_safeI [OF that(1) m that(2)]) (use agent_writer in \<open>auto simp: record_safe_def no_other_write_def\<close>)
  with agents_inv_moves(2) [OF agent_writer(4) mono agent_writer(1) m k] show ?case by blast
next
  case (third_is_asked i inc e r s ans v)
  then show ?case by (auto simp: agents_inv_def agent_now_def is_instance_def third_voter_id_def)
next
  case (third_voter_restarts s m v)
  then show ?case by (auto simp: agents_inv_def agent_now_def is_instance_def third_voter_id_def)
next
  case (third_voter_tended s v)
  then show ?case by (simp add: agents_inv_def agent_now_def)
next
  case (agent_restarts i pair m s e flag a keeping disk)
  let ?st = "case keeping of None \<Rightarrow> no_statement | Some _ \<Rightarrow> lpr_statement disk"
  have k: "keeping = None \<and> None = (None :: (instance_id \<times> time_point) option) \<and> ?st = no_statement \<or>
      keeping = Some (new_recorder disk False, None, ?st)"
    using agent_restarts(3) by auto
  have "record_known (agent_started a keeping (clk m (as_time s)))"
    using agent_restarts(3) started_known [OF agent_restarts(2)] by auto
  note S = started_ok [OF agent_restarts(2,1) k this]
  show ?case by (rule agents_inv_restart [OF agent_restarts(4) mono agent_restarts(1) S(1)]) (use S(2) in auto)
next
  case (agent_resumes i s r pair e flag a)
  let ?k = "kept_on_disk r" and ?m = "as_machine s i"
  let ?keeping = "Some (new_recorder (pr_disk r) True, Some ?k, lpr_statement (pr_disk r))"
  have now: "agent_now clk s i = clk ?m (as_time s)" by (simp add: agent_now_def)
  have "record_known (agent_started a ?keeping (agent_now clk s i))"
    using started_known(3) [OF agent_resumes(5)] by (simp add: kept_on_disk_def)
  note S = started_ok [OF agent_resumes(5,1) disjI2 [OF refl] this]
  note C = disk_covers_grants [OF agent_resumes(6,1,2,4), unfolded grants_covered_def]
  have s': "s\<lparr>as_agent := A, as_incarnation := I, as_machine := (as_machine s)(i := ?m)\<rparr> = s\<lparr>as_agent := A, as_incarnation := I\<rparr>" for A I
    by (cases s) simp
  have "agents_inv clk timing (s\<lparr>as_agent := (as_agent s)(i := agent_started a ?keeping (agent_now clk s i)), as_incarnation := I,
      as_machine := (as_machine s)(i := ?m)\<rparr>)" for I
  proof (rule agents_inv_restart [OF agent_resumes(6) mono agent_resumes(1) S(1)])
    fix inc e' q g
    let ?x = "clk ?m g + ms (lt_period timing)"
    assume "GrantMsg i (peer_of i) inc e' q g \<in> as_net s" and x: "clk ?m (as_time s) < ?x"
    with C now have "fst ?k = peer_of i" "?x \<le> snd ?k" by auto
    with S(3) x now show "promise_safe (agent_started a ?keeping (agent_now clk s i)) (peer_of i) ?x"
      by (metis prod.collapse)
  qed
  then show ?case unfolding s' by blast
qed

lemma agent_step_refines:
  assumes "agent_step clk decide restarted tended timing s s'" and "pair_ids s" and "agents_inv clk timing s"
  shows "(lease_step clk decide restarted tended (ms (lt_period timing)) (ms (lt_drift_allowance timing)))\<^sup>*\<^sup>*
      (lease_view s) (lease_view s') \<and> pair_ids s'"
    (is "?R\<^sup>*\<^sup>* _ _ \<and> _")
  using assms
proof (induction rule: agent_step.induct)
  case (agents_wait s t)
  have "?R (lease_view s) ((lease_view s)\<lparr>sys_time := t\<rparr>)" using agents_wait by (intro lease_step.time_passes) simp
  moreover have "lease_view (s\<lparr>as_time := t\<rparr>) = (lease_view s)\<lparr>sys_time := t\<rparr>" by (simp add: lease_view_def)
  ultimately have "?R (lease_view s) (lease_view (s\<lparr>as_time := t\<rparr>))" by (simp only:)
  then show ?case using agents_wait(2) by (simp add: pair_ids_def r_into_rtranclp)
next
  case (agent_ticks i took s draw ch sends a t)
  then show ?case using tick_refines [of s i took t clk draw ch sends a] by blast
next
  case (agent_is_asked j i inc e r s conn st ch sends a)
  then show ?case using asked_refines [of s i j inc e r conn st clk ch sends a] by blast
next
  case (agent_is_granted v i s e r g n ch sends a)
  then show ?case using granted_refines [of s i v e r g n clk ch sends a] by blast
next
  case (agent_is_refused i s v h r why draw ch a)
  from silent_refines [OF moves_refusal [OF agent_is_refused(2)] agent_is_refused(3,1)] show ?case by blast
next
  case (agent_is_told i s x held alone)
  from silent_refines [OF moves_held agent_is_told(2,1)] show ?case by blast
next
  case (agent_speaks i say s sends a)
  then have "agent_ids (as_agent s i) i" by (simp add: pair_ids_def)
  from moves_steps [OF moves_says [OF agent_speaks(3) this agent_speaks(2)] agent_speaks(4,1)] show ?case by blast
next
  case (agent_withdraws i s)
  have "agent_moves (agent_now clk s i) (as_agent s i) [] (stop_asking_to_lead (as_agent s i))"
    by (rule moves_same) (simp_all add: stop_asking_to_lead_def same_identity_def)
  from silent_refines [OF this agent_withdraws(2,1)] show ?case by blast
next
  case (agent_writer i s r r')
  have "agent_moves (agent_now clk s i) (as_agent s i) [] ((as_agent s i)\<lparr>pa_recorder := Some r'\<rparr>)"
    by (rule moves_same) (simp_all add: same_identity_def)
  from silent_refines [OF this agent_writer(4,1)] show ?case by blast
next
  case (third_is_asked i inc e r s ans v)
  let ?n = "if ans_verdict ans = Granted then insert (GrantMsg third_voter_id i inc e r (as_time s)) (as_net s) else as_net s"
  have "?R (lease_view s) ((lease_view s)\<lparr>sys_third := v, sys_net := ?n\<rparr>)"
    using lease_step.third_answers [of i inc e r "lease_view s" decide clk ans v "ans_verdict ans = Granted"] third_is_asked
    by (cases "ans_verdict ans = Granted") simp_all
  moreover have "lease_view (s\<lparr>as_third := v, as_net := ?n\<rparr>) = (lease_view s)\<lparr>sys_third := v, sys_net := ?n\<rparr>"
    by (simp add: lease_view_def)
  ultimately have "?R (lease_view s) (lease_view (s\<lparr>as_third := v, as_net := ?n\<rparr>))" by (simp only:)
  then show ?case using third_is_asked(3) by (simp add: pair_ids_def r_into_rtranclp)
next
  case (third_voter_restarts s m v)
  have "?R (lease_view s) ((lease_view s)\<lparr>sys_third := v, sys_machine := (sys_machine (lease_view s))(third_voter_id := m)\<rparr>)"
    using third_voter_restarts by (intro lease_step.third_restarts) simp
  moreover have "lease_view (s\<lparr>as_third := v, as_machine := (as_machine s)(third_voter_id := m)\<rparr>) =
      (lease_view s)\<lparr>sys_third := v, sys_machine := (sys_machine (lease_view s))(third_voter_id := m)\<rparr>"
    by (simp add: lease_view_def)
  ultimately have "?R (lease_view s) (lease_view (s\<lparr>as_third := v, as_machine := (as_machine s)(third_voter_id := m)\<rparr>))"
    by (simp only:)
  then show ?case using third_voter_restarts(2) by (simp add: pair_ids_def r_into_rtranclp)
next
  case (third_voter_tended s v)
  have "?R (lease_view s) ((lease_view s)\<lparr>sys_third := v\<rparr>)"
    using third_voter_tended by (intro lease_step.third_tended) simp
  moreover have "lease_view (s\<lparr>as_third := v\<rparr>) = (lease_view s)\<lparr>sys_third := v\<rparr>" by (simp add: lease_view_def)
  ultimately have "?R (lease_view s) (lease_view (s\<lparr>as_third := v\<rparr>))" by (simp only:)
  then show ?case using third_voter_tended(2) by (simp add: pair_ids_def r_into_rtranclp)
next
  case (agent_restarts i pair m s e flag a keeping disk)
  have "?R (lease_view s) ((lease_view s)\<lparr>sys_participant := (sys_participant (lease_view s))
        (i := restarted_participant p st' None (clk m (as_time s))),
      sys_incarnation := (as_incarnation s)(i := Suc (as_incarnation s i)), sys_machine := (as_machine s)(i := m)\<rparr>)"
    if "new_participant i (ms (lt_period timing)) (ms (lt_drift_allowance timing)) (clk m (as_time s)) e flag = Inr p" for p st'
    using lease_step.instance_restarts [OF agent_restarts(1), of _ _ clk m "lease_view s" e flag p] that by simp
  note step = this
  note R = restart_refines [where clk = clk and m = m and kept = None and keeping = keeping, OF agent_restarts(4,1,2) _ step]
  from agent_restarts(3) show ?case
  proof
    assume "keeping = None"
    then show ?case using R [where st = no_statement] by blast
  next
    assume "keeping = Some (new_recorder disk False, None, lpr_statement disk)"
    then show ?case using R [where st = "lpr_statement disk" and r = "new_recorder disk False"] by blast
  qed
next
  case (agent_resumes i s r pair e flag a)
  let ?m = "as_machine s i"
  have now: "agent_now clk s i = clk ?m (as_time s)" by (simp add: agent_now_def)
  have upd: "(as_machine s)(i := ?m) = as_machine s" by simp
  have same: "u\<lparr>sys_machine := as_machine s\<rparr> = u" if "sys_machine u = as_machine s" for u :: "'a lease_sys"
    using that by (cases u) simp
  have step: "?R (lease_view s) ((lease_view s)\<lparr>sys_participant := (sys_participant (lease_view s))
        (i := restarted_participant p (lpr_statement (pr_disk r)) (Some (kept_on_disk r)) (clk ?m (as_time s))),
      sys_incarnation := (as_incarnation s)(i := Suc (as_incarnation s i)), sys_machine := (as_machine s)(i := ?m)\<rparr>)"
    if "new_participant i (ms (lt_period timing)) (ms (lt_drift_allowance timing)) (clk ?m (as_time s)) e flag = Inr p" for p
    using lease_step.instance_resumes [OF agent_resumes(1), of _ _ clk "lease_view s" e flag p "fst (kept_on_disk r)" "snd (kept_on_disk r)"]
      that disk_covers_grants [OF agent_resumes(7,1,2,4)] unfolding upd by (simp add: now same)
  have s': "s\<lparr>as_agent := A, as_incarnation := I, as_machine := (as_machine s)(i := ?m)\<rparr> = s\<lparr>as_agent := A, as_incarnation := I\<rparr>" for A I
    by (cases s) simp
  note R = restart_refines [where clk = clk and m = ?m and st = "lpr_statement (pr_disk r)" and kept = "Some (kept_on_disk r)"
      and keeping = "Some (new_recorder (pr_disk r) True, Some (kept_on_disk r), lpr_statement (pr_disk r))"
      and r = "new_recorder (pr_disk r) True", OF agent_resumes(6,1) agent_resumes(5) [unfolded now] disjI2 [OF refl] step]
  show ?case using R unfolding now s' by blast
qed

lemma lease_reachable_steps:
  assumes "(lease_step clk decide restarted tended period drift)\<^sup>*\<^sup>* s s'"
    and "lease_reachable clk decide restarted tended ok period drift s"
  shows "lease_reachable clk decide restarted tended ok period drift s'"
  using assms by (induction rule: rtranclp_induct) (auto intro: lease_reachable.steps)

lemma agents_inv_init:
  assumes "agent_init clk restarted ok timing s"
  shows "agents_inv clk timing s"
  using assms
proof (cases rule: agent_init.cases)
  case (1 v machine t third pair e1 flag a1 e2 a2 A d1 d2)
  have a: "new_agent pair 1 (peer_of 1) third_voter_id timing (clk (machine 1) t) e1 flag = Inr a1"
    "new_agent pair 2 (peer_of 2) third_voter_id timing (clk (machine 2) t) e2 flag = Inr a2"
    using 1 by (simp_all add: peer_of_def)
  note S1 = started_ok [OF a(1) _ disjI2 [OF refl] started_known(2) [OF a(1), of d1]]
    and S2 = started_ok [OF a(2) _ disjI2 [OF refl] started_known(2) [OF a(2), of d2]]
  have "agent_ok timing (A 1) 1" "agent_ok timing (A 2) 2" "0 < lt_period timing"
    using 1 S1(1,4) S2(1) by simp_all
  then show ?thesis by (auto simp: 1(1) agents_inv_def is_instance_def)
qed

lemma agent_init_refines:
  assumes "agent_init clk restarted ok timing s"
  shows "lease_reachable clk decide restarted tended ok (ms (lt_period timing)) (ms (lt_drift_allowance timing)) (lease_view s) \<and>
    pair_ids s"
  using assms
proof (cases rule: agent_init.cases)
  case (1 v machine t third pair e1 flag a1 e2 a2 A d1 d2)
  let ?st1 = "lpr_statement d1" and ?st2 = "lpr_statement d2"
  let ?P = "ms (lt_period timing)" and ?D = "ms (lt_drift_allowance timing)"
  let ?n1 = "clk (machine 1) t" and ?n2 = "clk (machine 2) t"
  have i: "is_instance 1" "is_instance 2" "peer_of 1 = 2" "peer_of 2 = 1" by (simp_all add: peer_of_def)
  obtain p1 where p1: "new_participant 1 ?P ?D ?n1 e1 flag = Inr p1"
    "participant_path ?n1 (restarted_participant p1 ?st1 None ?n1) [] (pa_participant (A 1))" "agent_ids (A 1) 1"
    by (rule agent_started_path [OF _ i(1), of pair timing ?n1 e1 flag a1 "Some (new_recorder d1 False, None, lpr_statement d1)" None ?st1 "new_recorder d1 False"])
      (use 1 i in auto)
  obtain p2 where p2: "new_participant 2 ?P ?D ?n2 e2 flag = Inr p2"
    "participant_path ?n2 (restarted_participant p2 ?st2 None ?n2) [] (pa_participant (A 2))" "agent_ids (A 2) 2"
    by (rule agent_started_path [OF _ i(2), of pair timing ?n2 e2 flag a2 "Some (new_recorder d2 False, None, lpr_statement d2)" None ?st2 "new_recorder d2 False"])
      (use 1 i in auto)
  let ?q1 = "restarted_participant p1 ?st1 None ?n1" and ?q2 = "restarted_participant p2 ?st2 None ?n2"
  let ?PA = "\<lambda>i. pa_participant (A i)"
  let ?L = "\<lambda>P. \<lparr>sys_time = t, sys_participant = P, sys_incarnation = (\<lambda>_. 0),
      sys_machine = machine, sys_third = third, sys_net = {}\<rparr>"
  let ?R = "lease_reachable clk decide restarted tended ok ?P ?D"
  have self: "lp_self_id p1 = 1" "lp_self_id p2 = 2" using p1(1) p2(1) by (auto simp: new_participant_Inr make_participant_def)
  have R0: "?R (?L (?PA(1 := ?q1, 2 := ?q2)))"
    by (rule lease_reachable.starts [OF lease_init.intros]) (use 1 p1 p2 in auto)
  have "(lease_step clk decide restarted tended ?P ?D)\<^sup>*\<^sup>* (?L (?PA(1 := ?q1, 2 := ?q2)))
      ((?L (?PA(1 := ?q1, 2 := ?q2)))\<lparr>sys_participant := (sys_participant (?L (?PA(1 := ?q1, 2 := ?q2))))(1 := pa_participant (A 1))\<rparr>)"
    by (rule path_steps_silent [OF _ i(1)]) (use p1 self in \<open>simp_all add: now_of_def restarted_participant_simps\<close>)
  from lease_reachable_steps [OF this R0] have R1: "?R (?L (?PA(2 := ?q2)))"
    by (simp add: fun_upd_twist fun_upd_idem)
  have "(lease_step clk decide restarted tended ?P ?D)\<^sup>*\<^sup>* (?L (?PA(2 := ?q2)))
      ((?L (?PA(2 := ?q2)))\<lparr>sys_participant := (sys_participant (?L (?PA(2 := ?q2))))(2 := pa_participant (A 2))\<rparr>)"
    by (rule path_steps_silent [OF _ i(2)]) (use p2 self in \<open>simp_all add: now_of_def restarted_participant_simps\<close>)
  from lease_reachable_steps [OF this R1] have "?R (?L ?PA)" by (simp add: fun_upd_idem)
  moreover have "lease_view s = ?L ?PA" by (simp add: 1(1) lease_view_def)
  moreover have "pair_ids s" using p1(3) p2(3) by (auto simp: 1(1) pair_ids_def is_instance_def)
  ultimately show ?thesis by simp
qed

lemma agents_refine_lease_system:
  assumes "agent_reachable clk decide restarted tended ok timing s"
    and mono: "\<And>m t t'. t \<le> t' \<Longrightarrow> clk m t \<le> clk m t'"
  shows "lease_reachable clk decide restarted tended ok (ms (lt_period timing)) (ms (lt_drift_allowance timing)) (lease_view s)"
    and "agents_inv clk timing s"
proof -
  have "lease_reachable clk decide restarted tended ok (ms (lt_period timing)) (ms (lt_drift_allowance timing)) (lease_view s) \<and>
      agents_inv clk timing s"
    using assms(1)
  proof (induction rule: agent_reachable.induct)
    case (agents_start s)
    then show ?case using agent_init_refines agents_inv_init by blast
  next
    case (agents_step s s')
    then have inv: "agents_inv clk timing s" by blast
    from agent_step_refines [OF agents_step.hyps(2) agents_inv_ids [OF inv] inv] agents_inv_step [OF agents_step.hyps(2) inv mono]
      agents_step.IH lease_reachable_steps
    show ?case by blast
  qed
  then show "lease_reachable clk decide restarted tended ok (ms (lt_period timing)) (ms (lt_drift_allowance timing)) (lease_view s)"
    "agents_inv clk timing s" by blast+
qed

end
