(* ===== verification/ComponentLeaseVoters.thy ===== *)
theory ComponentLeaseVoters
  imports LeaseSystem
begin

text \<open>
  \<open>ComponentLeaseVoters.hpp\<close>: the arbiter pool's vote, one \<open>LeaseVoter\<close> per component pair, kept by
  whichever arbiter is active. Seen through one pair it is a single voter, and it keeps the contract
  of the third voter in \<open>LeaseSystem\<close>.
\<close>

section \<open>State and operations\<close>

type_synonym pair_id = int

record component_lease_voters =
  cv_lease_period :: duration
  cv_active :: bool
  cv_active_since :: time_point
  cv_voters :: "(pair_id, lease_voter) std_map"
  cv_highest_epochs :: "(pair_id, epoch) std_map"
  cv_statements :: "(pair_id, leader_statement) std_map"

definition make_component_voters :: "duration \<Rightarrow> component_lease_voters" where
  "make_component_voters lease_period =
     \<lparr>cv_lease_period = lease_period, cv_active = False, cv_active_since = 0, cv_voters = [],
      cv_highest_epochs = [], cv_statements = []\<rparr>"

definition became_active :: "component_lease_voters \<Rightarrow> time_point \<Rightarrow> component_lease_voters" where
  "became_active s now = s\<lparr>cv_active := True, cv_active_since := now, cv_voters := []\<rparr>"

definition became_passive :: "component_lease_voters \<Rightarrow> component_lease_voters" where
  "became_passive s = s\<lparr>cv_active := False, cv_voters := []\<rparr>"

text \<open>\<open>std::map::operator[]\<close>: the value held, after adding the given one if the key is absent.\<close>

definition sm_index :: "'v \<Rightarrow> 'k::linorder \<Rightarrow> ('k, 'v) std_map \<Rightarrow> 'v \<times> ('k, 'v) std_map" where
  "sm_index d k m = (case sm_get m k of Some x \<Rightarrow> (x, m) | None \<Rightarrow> (d, sm_put k d m))"

definition voter_for :: "component_lease_voters \<Rightarrow> pair_id \<Rightarrow> (lease_voter \<times> component_lease_voters) result" where
  "voter_for s pair =
     (case sm_get (cv_voters s) pair of
        Some v \<Rightarrow> Inr (v, s)
      | None \<Rightarrow>
          let (highest, epochs) = sm_index 0 pair (cv_highest_epochs s) in
          bind_result (new_voter (cv_lease_period s) (cv_active_since s) highest) (\<lambda>fresh.
            let v = (case sm_get (cv_statements s) pair of
                       Some statement \<Rightarrow> voter_restore_recorded_statement fresh statement
                     | None \<Rightarrow> fresh)
            in Inr (v, s\<lparr>cv_highest_epochs := epochs, cv_voters := sm_put pair v (cv_voters s)\<rparr>)))"

definition pool_learn_epoch :: "component_lease_voters \<Rightarrow> pair_id \<Rightarrow> epoch \<Rightarrow> component_lease_voters" where
  "pool_learn_epoch s pair epoch =
     (let (highest, epochs) = sm_index 0 pair (cv_highest_epochs s);
          s1 = s\<lparr>cv_highest_epochs := (if highest < epoch then sm_put pair epoch epochs else epochs)\<rparr>
      in case sm_get (cv_voters s1) pair of
           Some v \<Rightarrow> s1\<lparr>cv_voters := sm_put pair (voter_learn_epoch v epoch) (cv_voters s1)\<rparr>
         | None \<Rightarrow> s1)"

definition pool_consider ::
  "component_lease_voters \<Rightarrow> pair_id \<Rightarrow> instance_id \<Rightarrow> epoch \<Rightarrow> time_point \<Rightarrow>
   (lease_answer \<times> component_lease_voters) result" where
  "pool_consider s pair candidate_id epoch now =
     (if \<not> cv_active s then Inl PreconditionAssertion
      else bind_result (voter_for s pair) (\<lambda>(v, s1).
        let (answer, v') = voter_consider v candidate_id epoch now;
            s2 = s1\<lparr>cv_voters := sm_put pair v' (cv_voters s1)\<rparr>
        in Inr (answer, pool_learn_epoch s2 pair (ans_highest_epoch answer))))"

definition pool_highest_epoch :: "component_lease_voters \<Rightarrow> pair_id \<Rightarrow> epoch" where
  "pool_highest_epoch s pair = (case sm_get (cv_highest_epochs s) pair of None \<Rightarrow> 0 | Some e \<Rightarrow> e)"

definition pool_record_statement ::
  "component_lease_voters \<Rightarrow> pair_id \<Rightarrow> leader_statement \<Rightarrow> (int \<times> component_lease_voters) result" where
  "pool_record_statement s pair statement =
     bind_result (voter_for s pair) (\<lambda>(v, s1).
       bind_result (voter_record_statement v statement) (\<lambda>v'.
         Inr (if voter_holds_statement v' statement then ls_number statement else 0,
              s1\<lparr>cv_voters := sm_put pair v' (cv_voters s1),
                cv_statements := sm_put pair (lv_recorded_statement v') (cv_statements s1)\<rparr>)))"

definition pool_learn_statement ::
  "component_lease_voters \<Rightarrow> pair_id \<Rightarrow> leader_statement \<Rightarrow> (bool \<times> component_lease_voters) result" where
  "pool_learn_statement s pair statement =
     (let (held, statements) = sm_index no_statement pair (cv_statements s);
          s1 = s\<lparr>cv_statements := statements\<rparr>
      in if \<not> newer_than statement held then Inr (False, s1)
         else
           let s2 = s1\<lparr>cv_statements := sm_put pair statement (cv_statements s1)\<rparr> in
           case sm_get (cv_voters s2) pair of
             None \<Rightarrow> Inr (True, s2)
           | Some v \<Rightarrow> bind_result (voter_record_statement v statement) (\<lambda>v'.
               Inr (True, s2\<lparr>cv_voters := sm_put pair v' (cv_voters s2)\<rparr>)))"

definition pool_statement :: "component_lease_voters \<Rightarrow> pair_id \<Rightarrow> leader_statement" where
  "pool_statement s pair = (case sm_get (cv_statements s) pair of None \<Rightarrow> no_statement | Some st \<Rightarrow> st)"

section \<open>One pair's voter\<close>

text \<open>
  The pool as seen by one pair: the voter it holds for the pair, or the one it would create for it.
\<close>

definition pair_voter :: "component_lease_voters \<Rightarrow> pair_id \<Rightarrow> lease_voter" where
  "pair_voter s pair =
     (case sm_get (cv_voters s) pair of
        Some v \<Rightarrow> v
      | None \<Rightarrow> voter_restore_recorded_statement
                 (make_voter (cv_lease_period s) (cv_active_since s) (pool_highest_epoch s pair)) (pool_statement s pair))"

text \<open>
  The maps are maps, the lease period is positive, epochs are not negative, and a voter held agrees
  with what is held beside it: its period, the highest epoch and the newest statement.
\<close>

definition pool_ok :: "component_lease_voters \<Rightarrow> bool" where
  "pool_ok s \<longleftrightarrow>
     sm_ok (cv_voters s) \<and> sm_ok (cv_highest_epochs s) \<and> sm_ok (cv_statements s) \<and> 0 < cv_lease_period s \<and>
     (\<forall>pair. 0 \<le> pool_highest_epoch s pair) \<and>
     (\<forall>pair v. sm_get (cv_voters s) pair = Some v \<longrightarrow>
        lv_lease_period v = cv_lease_period s \<and> lv_highest_epoch v = pool_highest_epoch s pair \<and>
        lv_recorded_statement v = pool_statement s pair \<and> \<not> lv_held_for_self v)"

lemmas pool_defs = pool_ok_def pair_voter_def pool_highest_epoch_def pool_statement_def sm_index_def

lemma pool_lookup_simps [simp]:
  "pool_highest_epoch (s\<lparr>cv_voters := vs\<rparr>) = pool_highest_epoch s"
  "pool_highest_epoch (s\<lparr>cv_statements := sts\<rparr>) = pool_highest_epoch s"
  "pool_statement (s\<lparr>cv_voters := vs\<rparr>) = pool_statement s"
  "pool_statement (s\<lparr>cv_highest_epochs := es\<rparr>) = pool_statement s"
  by (simp_all add: fun_eq_iff pool_highest_epoch_def pool_statement_def)

lemma sm_index_epochs:
  assumes "sm_index 0 pair (cv_highest_epochs s) = (highest, epochs)"
  shows "highest = pool_highest_epoch s pair" and "pool_highest_epoch (s\<lparr>cv_highest_epochs := epochs\<rparr>) = pool_highest_epoch s"
    and "sm_ok (cv_highest_epochs s) \<Longrightarrow> sm_ok epochs"
    and "pool_highest_epoch (s\<lparr>cv_highest_epochs := sm_put pair e epochs\<rparr>) = (pool_highest_epoch s)(pair := e)"
  using assms by (auto simp: sm_index_def pool_highest_epoch_def fun_eq_iff split: option.splits if_splits)

lemma sm_index_statements:
  assumes "sm_index no_statement pair (cv_statements s) = (held, statements)"
  shows "held = pool_statement s pair" and "pool_statement (s\<lparr>cv_statements := statements\<rparr>) = pool_statement s"
    and "sm_ok (cv_statements s) \<Longrightarrow> sm_ok statements"
    and "pool_statement (s\<lparr>cv_statements := sm_put pair st statements\<rparr>) = (pool_statement s)(pair := st)"
  using assms by (auto simp: sm_index_def pool_statement_def fun_eq_iff split: option.splits if_splits)

text \<open>The pool's bookkeeping for a pair is its voter's: what one pair does leaves every other pair's voter alone.\<close>

definition pool_like :: "component_lease_voters \<Rightarrow> component_lease_voters \<Rightarrow> bool" where
  "pool_like s s' \<longleftrightarrow>
     cv_lease_period s' = cv_lease_period s \<and> cv_active s' = cv_active s \<and> cv_active_since s' = cv_active_since s"

lemma pool_likeI: "pool_like s s" "pool_like s s' \<Longrightarrow> pool_like s' s'' \<Longrightarrow> pool_like s s''"
  by (auto simp: pool_like_def)

lemma voter_for_ok:
  assumes ok: "pool_ok s"
  obtains s1 where "voter_for s pair = Inr (pair_voter s pair, s1)" and "pool_ok s1" and "pool_like s s1"
    and "sm_get (cv_voters s1) pair = Some (pair_voter s pair)" and "pair_voter s1 = pair_voter s"
proof (cases "sm_get (cv_voters s) pair")
  case (Some v)
  with that [of s] ok show ?thesis by (simp add: voter_for_def pair_voter_def pool_likeI)
next
  case None
  obtain highest epochs where i: "sm_index 0 pair (cv_highest_epochs s) = (highest, epochs)" by fastforce
  let ?s = "s\<lparr>cv_highest_epochs := epochs, cv_voters := sm_put pair (pair_voter s pair) (cv_voters s)\<rparr>"
  note I = sm_index_epochs [OF i]
  have "0 < cv_lease_period s" "0 \<le> highest" using ok by (simp_all add: pool_ok_def I(1))
  then have "voter_for s pair = Inr (pair_voter s pair, ?s)"
    using None i I(1)
    by (auto simp: voter_for_def new_voter_def pair_voter_def pool_statement_def Let_def
        voter_restore_recorded_statement_def make_voter_def split: option.split)
  moreover have "pool_ok ?s"
    using ok I None
    by (auto simp: pool_ok_def pair_voter_def voter_restore_recorded_statement_def make_voter_def)
  moreover have "pair_voter ?s = pair_voter s" using I(2) None by (auto simp: fun_eq_iff pair_voter_def split: option.split)
  ultimately show ?thesis using that [of ?s] by (simp add: pool_like_def)
qed

text \<open>Replacing the voter held for a pair, where the epoch and statement held beside it already agree.\<close>

lemma pair_voter_put:
  "pair_voter (s\<lparr>cv_voters := sm_put pair v (cv_voters s)\<rparr>) = (pair_voter s)(pair := v)"
  by (auto simp: fun_eq_iff pair_voter_def split: option.split)

lemma pool_learn_epoch_ok:
  assumes maps: "sm_ok (cv_voters s)" "sm_ok (cv_highest_epochs s)" "sm_ok (cv_statements s)" "0 < cv_lease_period s"
    and e0: "\<forall>q. 0 \<le> pool_highest_epoch s q"
    and vs: "\<And>q v. sm_get (cv_voters s) q = Some v \<Longrightarrow> lv_lease_period v = cv_lease_period s \<and>
      lv_recorded_statement v = pool_statement s q \<and> \<not> lv_held_for_self v"
    and vo: "\<And>q v. sm_get (cv_voters s) q = Some v \<Longrightarrow> q \<noteq> pair \<Longrightarrow> lv_highest_epoch v = pool_highest_epoch s q"
    and vp: "\<And>v. sm_get (cv_voters s) pair = Some v \<Longrightarrow>
      max (lv_highest_epoch v) epoch = max (pool_highest_epoch s pair) epoch"
  shows "pool_ok (pool_learn_epoch s pair epoch)" and "pool_like s (pool_learn_epoch s pair epoch)"
    and "pair_voter (pool_learn_epoch s pair epoch) = (pair_voter s)(pair := voter_learn_epoch (pair_voter s pair) epoch)"
proof -
  obtain highest epochs where i: "sm_index 0 pair (cv_highest_epochs s) = (highest, epochs)" by fastforce
  note I = sm_index_epochs [OF i]
  let ?E = "if highest < epoch then sm_put pair epoch epochs else epochs"
  let ?s = "s\<lparr>cv_highest_epochs := ?E\<rparr>"
  have E: "pool_highest_epoch ?s = (pool_highest_epoch s)(pair := max (pool_highest_epoch s pair) epoch)"
    using I by (simp add: max_def fun_eq_iff)
  have okE: "sm_ok ?E" using I maps by simp
  show "pool_like s (pool_learn_epoch s pair epoch)"
    by (simp add: pool_learn_epoch_def i Let_def pool_like_def split: option.split)
  show "pair_voter (pool_learn_epoch s pair epoch) = (pair_voter s)(pair := voter_learn_epoch (pair_voter s pair) epoch)"
    using E by (auto simp: pool_learn_epoch_def i Let_def pair_voter_def fun_eq_iff voter_learn_epoch_def
        make_voter_def voter_restore_recorded_statement_def max_def split: option.split if_splits)
  show "pool_ok (pool_learn_epoch s pair epoch)"
  proof (cases "sm_get (cv_voters s) pair")
    case None
    then have "pool_learn_epoch s pair epoch = ?s" by (simp add: pool_learn_epoch_def i Let_def)
    moreover have "pool_ok ?s"
      unfolding pool_ok_def E using maps okE e0 vs vo None by (auto simp: le_max_iff_disj)
    ultimately show ?thesis by simp
  next
    case (Some v)
    then have s': "pool_learn_epoch s pair epoch =
        ?s\<lparr>cv_voters := sm_put pair (voter_learn_epoch v epoch) (cv_voters s)\<rparr>"
      by (simp add: pool_learn_epoch_def i Let_def)
    have "lv_highest_epoch (voter_learn_epoch v epoch) = max (pool_highest_epoch s pair) epoch"
      using vp [OF Some] by (simp add: voter_learn_epoch_def max_def split: if_splits)
    moreover have "lv_lease_period (voter_learn_epoch v epoch) = lv_lease_period v"
      "lv_recorded_statement (voter_learn_epoch v epoch) = lv_recorded_statement v"
      "lv_held_for_self (voter_learn_epoch v epoch) = lv_held_for_self v" by (simp_all add: voter_learn_epoch_def)
    ultimately show ?thesis
      unfolding s' pool_ok_def pool_lookup_simps E using maps okE e0 vs vo Some
      by (auto simp: le_max_iff_disj)
  qed
qed

lemma pool_okD:
  assumes "pool_ok s"
  shows "sm_ok (cv_voters s)" "sm_ok (cv_highest_epochs s)" "sm_ok (cv_statements s)" "0 < cv_lease_period s"
    "\<forall>q. 0 \<le> pool_highest_epoch s q"
    "\<And>q v. sm_get (cv_voters s) q = Some v \<Longrightarrow> lv_lease_period v = cv_lease_period s \<and>
       lv_recorded_statement v = pool_statement s q \<and> \<not> lv_held_for_self v"
    "\<And>q v. sm_get (cv_voters s) q = Some v \<Longrightarrow> lv_highest_epoch v = pool_highest_epoch s q"
  using assms by (auto simp: pool_ok_def)

lemma pool_learn_epoch_keeps:
  assumes "pool_ok s"
  shows "pool_ok (pool_learn_epoch s pair epoch)" and "pool_like s (pool_learn_epoch s pair epoch)"
    and "pair_voter (pool_learn_epoch s pair epoch) = (pair_voter s)(pair := voter_learn_epoch (pair_voter s pair) epoch)"
  by (rule pool_learn_epoch_ok; use pool_okD [OF assms] in simp)+

lemma pair_voter_period [simp]: "pool_ok s \<Longrightarrow> lv_lease_period (pair_voter s pair) = cv_lease_period s"
  by (auto simp: pair_voter_def voter_restore_recorded_statement_def make_voter_def dest: pool_okD(6) split: option.split)

lemma pair_voter_epoch: "pool_ok s \<Longrightarrow> lv_highest_epoch (pair_voter s pair) = pool_highest_epoch s pair"
  by (auto simp: pair_voter_def voter_restore_recorded_statement_def make_voter_def dest: pool_okD(7) split: option.split)

lemma pair_voter_statement: "pool_ok s \<Longrightarrow> lv_recorded_statement (pair_voter s pair) = pool_statement s pair"
  by (auto simp: pair_voter_def voter_restore_recorded_statement_def make_voter_def dest: pool_okD(6) split: option.split)

text \<open>A decision for a pair is its voter's decision.\<close>

lemma pool_consider_active:
  assumes ok: "pool_ok s" and "cv_active s"
  obtains s' where
    "pool_consider s pair c e now = Inr (fst (voter_consider (pair_voter s pair) c e now), s')"
    and "pool_ok s'" and "pool_like s s'"
    and "pair_voter s' = (pair_voter s)(pair := snd (voter_consider (pair_voter s pair) c e now))"
proof -
  obtain s1 where s1: "voter_for s pair = Inr (pair_voter s pair, s1)" "pool_ok s1" "pool_like s s1"
    "sm_get (cv_voters s1) pair = Some (pair_voter s pair)" "pair_voter s1 = pair_voter s"
    by (rule voter_for_ok [OF ok, of pair])
  obtain a v' where d: "voter_consider (pair_voter s pair) c e now = (a, v')" by fastforce
  let ?s2 = "s1\<lparr>cv_voters := sm_put pair v' (cv_voters s1)\<rparr>"
  have a: "ans_highest_epoch a = lv_highest_epoch v'"
    and v': "lv_highest_epoch (pair_voter s pair) \<le> lv_highest_epoch v'"
      "lv_lease_period v' = lv_lease_period (pair_voter s pair)"
      "lv_recorded_statement v' = lv_recorded_statement (pair_voter s pair)"
      "lv_held_for_self v' = lv_held_for_self (pair_voter s pair)"
    using consider_answer_epoch [of "pair_voter s pair" c e now] consider_epoch_mono [of "pair_voter s pair" c e now]
      consider_frame [of "pair_voter s pair" c e now] by (simp_all add: d)
  note D = pool_okD [OF s1(2)]
  have L: "pool_ok (pool_learn_epoch ?s2 pair (ans_highest_epoch a))"
    "pool_like ?s2 (pool_learn_epoch ?s2 pair (ans_highest_epoch a))"
    "pair_voter (pool_learn_epoch ?s2 pair (ans_highest_epoch a)) =
       (pair_voter ?s2)(pair := voter_learn_epoch (pair_voter ?s2 pair) (ans_highest_epoch a))"
    by (rule pool_learn_epoch_ok;
        use D D(6,7) [OF s1(4)] v' a in \<open>auto split: if_splits\<close>)+
  have "voter_learn_epoch v' (ans_highest_epoch a) = v'" by (simp add: a voter_learn_epoch_def)
  with L(3) s1(5) have "pair_voter (pool_learn_epoch ?s2 pair (ans_highest_epoch a)) = (pair_voter s)(pair := v')"
    by (simp add: pair_voter_put)
  moreover have "pool_like s (pool_learn_epoch ?s2 pair (ans_highest_epoch a))"
    using L(2) s1(3) by (simp add: pool_like_def)
  moreover have "pool_consider s pair c e now = Inr (a, pool_learn_epoch ?s2 pair (ans_highest_epoch a))"
    using assms s1(1) d by (simp add: pool_consider_def)
  ultimately show ?thesis using that L(1) d by simp
qed

lemma pool_record_statement_ok:
  assumes ok: "pool_ok s" and r: "pool_record_statement s pair st = Inr (n, s')"
  obtains v' where "voter_record_statement (pair_voter s pair) st = Inr v'"
    and "n = (if voter_holds_statement v' st then ls_number st else 0)"
    and "pool_ok s'" and "pool_like s s'" and "pair_voter s' = (pair_voter s)(pair := v')"
    and "pool_statement s' = (pool_statement s)(pair := lv_recorded_statement v')"
proof -
  obtain s1 where s1: "voter_for s pair = Inr (pair_voter s pair, s1)" "pool_ok s1" "pool_like s s1"
    "sm_get (cv_voters s1) pair = Some (pair_voter s pair)" "pair_voter s1 = pair_voter s"
    by (rule voter_for_ok [OF ok, of pair])
  from r s1(1) obtain v' where v': "voter_record_statement (pair_voter s pair) st = Inr v'"
    and n: "n = (if voter_holds_statement v' st then ls_number st else 0)"
    and s': "s' = s1\<lparr>cv_voters := sm_put pair v' (cv_voters s1),
      cv_statements := sm_put pair (lv_recorded_statement v') (cv_statements s1)\<rparr>"
    by (auto simp: pool_record_statement_def bind_result_eq_Inr)
  have st: "pool_statement s' = (pool_statement s1)(pair := lv_recorded_statement v')"
    "pool_highest_epoch s' = pool_highest_epoch s1"
    by (simp_all add: s' pool_statement_def pool_highest_epoch_def fun_eq_iff)
  have fr: "cv_lease_period s' = cv_lease_period s1" "cv_active_since s' = cv_active_since s1"
    "cv_voters s' = sm_put pair v' (cv_voters s1)" by (simp_all add: s')
  have "pool_statement s1 = pool_statement s"
    using pair_voter_statement [OF s1(2)] pair_voter_statement [OF ok] s1(5) by (auto simp: fun_eq_iff)
  moreover have "pool_ok s'"
    unfolding pool_ok_def st using pool_okD [OF s1(2)] pool_okD(6,7) [OF s1(2) s1(4)] record_statement_frame [OF v']
    by (auto simp: s')
  moreover have "pair_voter s' = (pair_voter s)(pair := v')"
    unfolding s1(5) [symmetric] by (auto simp: fun_eq_iff pair_voter_def st fr split: option.split)
  moreover have "pool_like s s'" using s1(3) by (simp add: s' pool_like_def)
  ultimately show ?thesis using that v' n st by simp
qed

lemma pool_learn_statement_ok:
  assumes ok: "pool_ok s" and l: "pool_learn_statement s pair st = Inr (took, s')"
  shows "pool_ok s'" and "pool_like s s'" and "took = newer_than st (pool_statement s pair)"
    and "pool_statement s' = (pool_statement s)(pair := if took then st else pool_statement s pair)"
    and "pair_voter s' = (pair_voter s)(pair := (pair_voter s pair)\<lparr>lv_recorded_statement := pool_statement s' pair\<rparr>)"
proof -
  obtain held sts where i: "sm_index no_statement pair (cv_statements s) = (held, sts)" by fastforce
  note I = sm_index_statements [OF i]
  note D = pool_okD [OF ok]
  show took: "took = newer_than st (pool_statement s pair)"
    using l by (auto simp: pool_learn_statement_def i I(1) Let_def bind_result_eq_Inr split: if_splits option.splits)
  have st: "pool_statement s' = (pool_statement s)(pair := if took then st else pool_statement s pair)"
    and fr: "cv_lease_period s' = cv_lease_period s" "cv_active_since s' = cv_active_since s" "cv_active s' = cv_active s"
      "cv_highest_epochs s' = cv_highest_epochs s" "sm_ok (cv_statements s')"
    using l I D(3)
    by (auto simp: pool_learn_statement_def i Let_def bind_result_eq_Inr split: if_splits option.splits)
  show "pool_statement s' = (pool_statement s)(pair := if took then st else pool_statement s pair)" by (rule st)
  have e: "pool_highest_epoch s' = pool_highest_epoch s" by (simp add: pool_highest_epoch_def fr fun_eq_iff)
  show "pool_like s s'" by (simp add: pool_like_def fr)
  consider (none) "sm_get (cv_voters s) pair = None" "cv_voters s' = cv_voters s"
    | (some) v where "sm_get (cv_voters s) pair = Some v" "\<not> took" "cv_voters s' = cv_voters s"
    | (put) v where "sm_get (cv_voters s) pair = Some v" "took"
        "cv_voters s' = sm_put pair (v\<lparr>lv_recorded_statement := st\<rparr>) (cv_voters s)"
  proof (cases "sm_get (cv_voters s) pair")
    case None
    with l have "cv_voters s' = cv_voters s"
      by (auto simp: pool_learn_statement_def i Let_def split: if_splits)
    with None show ?thesis using none by blast
  next
    case (Some v)
    from D(6) [OF Some] I(1) have held: "lv_recorded_statement v = held" by simp
    show ?thesis
    proof (cases took)
      case True
      with l Some held have "cv_voters s' = sm_put pair (v\<lparr>lv_recorded_statement := st\<rparr>) (cv_voters s)"
        by (auto simp: pool_learn_statement_def i Let_def bind_result_eq_Inr record_statement_Inr split: if_splits)
      with Some True show ?thesis using put by blast
    next
      case False
      with l Some have "cv_voters s' = cv_voters s"
        by (auto simp: pool_learn_statement_def i Let_def bind_result_eq_Inr split: if_splits)
      with Some False show ?thesis using some by blast
    qed
  qed
  note C = this
  have held: "v\<lparr>lv_recorded_statement := pool_statement s q\<rparr> = v" if "sm_get (cv_voters s) q = Some v" for q v
    using D(6) [OF that] by (cases v) simp
  show "pool_ok s'"
    by (cases rule: C) (use D in \<open>auto simp: pool_ok_def st e fr\<close>)
  show "pair_voter s' = (pair_voter s)(pair := (pair_voter s pair)\<lparr>lv_recorded_statement := pool_statement s' pair\<rparr>)"
    by (cases rule: C) (auto simp: fun_eq_iff pair_voter_def st e fr held voter_restore_recorded_statement_def split: option.split)
qed

section \<open>The pool keeps the third voter's contract\<close>

text \<open>
  A passive arbiter grants nothing, so it is bound to whoever was granted; an active one is bound as
  the pair's voter is.
\<close>

definition pool_bound_to :: "pair_id \<Rightarrow> component_lease_voters \<Rightarrow> instance_id \<Rightarrow> time_point \<Rightarrow> bool" where
  "pool_bound_to pair s i x \<longleftrightarrow> cv_active s \<longrightarrow> voter_bound_to (pair_voter s pair) i x"

definition pool_decide ::
  "pair_id \<Rightarrow> component_lease_voters \<Rightarrow> instance_id \<Rightarrow> epoch \<Rightarrow> time_point \<Rightarrow>
   (lease_answer \<times> component_lease_voters) option" where
  "pool_decide pair s c e now = (case pool_consider s pair c e now of Inl _ \<Rightarrow> None | Inr r \<Rightarrow> Some r)"

text \<open>
  What else the active arbiter does: it answers other pairs, takes epochs and statements from its peer
  or from disk, records the statement a granted request carried, and stops being active.
\<close>

inductive pool_tended :: "pair_id \<Rightarrow> component_lease_voters \<Rightarrow> component_lease_voters \<Rightarrow> bool" for pair where
  pool_answers_another: "q \<noteq> pair \<Longrightarrow> pool_consider s q c e now = Inr (a, s') \<Longrightarrow> pool_tended pair s s'"
| pool_learns_epoch: "pool_tended pair s (pool_learn_epoch s q e)"
| pool_records: "pool_record_statement s q st = Inr (n, s') \<Longrightarrow> pool_tended pair s s'"
| pool_learns_statement: "pool_learn_statement s q st = Inr (took, s') \<Longrightarrow> pool_tended pair s s'"
| pool_stands_down: "pool_tended pair s (became_passive s)"

text \<open>
  An arbiter, the same or the other one, becomes active at \<open>now\<close> on its own clock, with whatever epochs
  and statements it holds.
\<close>

inductive pool_restarted :: "duration \<Rightarrow> component_lease_voters \<Rightarrow> time_point \<Rightarrow> component_lease_voters \<Rightarrow> bool" for period where
  "pool_ok t \<Longrightarrow> cv_lease_period t = period \<Longrightarrow> pool_restarted period s now (became_active t now)"

lemma became_ok:
  assumes "pool_ok s"
  shows "pool_ok (became_active s now)" and "pool_ok (became_passive s)"
  using assms by (auto simp: pool_ok_def became_active_def became_passive_def pool_highest_epoch_def)

lemma pool_tended_ok:
  assumes "pool_tended pair s s'" and "pool_ok s"
  shows "pool_ok s' \<and> cv_lease_period s' = cv_lease_period s \<and>
    (pool_bound_to pair s i x \<longrightarrow> pool_bound_to pair s' i x)"
  using assms
proof (cases rule: pool_tended.cases)
  case (pool_answers_another q c e now a)
  then have "cv_active s" by (auto simp: pool_consider_def split: if_splits)
  then obtain s'' where "pool_consider s q c e now = Inr (fst (voter_consider (pair_voter s q) c e now), s'')"
    "pool_ok s''" "pool_like s s''" "pair_voter s'' = (pair_voter s)(q := snd (voter_consider (pair_voter s q) c e now))"
    by (rule pool_consider_active [OF assms(2)])
  with pool_answers_another show ?thesis by (auto simp: pool_like_def pool_bound_to_def)
next
  case (pool_learns_epoch q e)
  with pool_learn_epoch_keeps [OF assms(2), of q e] show ?thesis
    by (auto simp: pool_like_def pool_bound_to_def voter_bound_to_def voter_learn_epoch_def)
next
  case (pool_records q st n)
  then obtain v' where "voter_record_statement (pair_voter s q) st = Inr v'" "pool_ok s'" "pool_like s s'"
    "pair_voter s' = (pair_voter s)(q := v')"
    by (elim pool_record_statement_ok [OF assms(2)])
  then show ?thesis
    using record_statement_frame [of "pair_voter s q" st v'] by (auto simp: pool_like_def pool_bound_to_def voter_bound_to_def)
next
  case (pool_learns_statement q st took)
  from pool_learn_statement_ok [OF assms(2) this] show ?thesis
    by (auto simp: pool_like_def pool_bound_to_def voter_bound_to_def)
next
  case pool_stands_down
  with became_ok [OF assms(2)] show ?thesis by (auto simp: became_passive_def pool_bound_to_def)
qed

lemma pool_decideE:
  assumes "pool_decide pair s c e now = Some (a, s')" and "pool_ok s"
  obtains "cv_active s" and "a = fst (voter_consider (pair_voter s pair) c e now)" and "pool_ok s'" and "pool_like s s'"
    and "pair_voter s' pair = snd (voter_consider (pair_voter s pair) c e now)"
proof -
  from assms(1) have "cv_active s" by (auto simp: pool_decide_def pool_consider_def split: if_splits)
  then obtain s'' where "pool_consider s pair c e now = Inr (fst (voter_consider (pair_voter s pair) c e now), s'')"
    "pool_ok s''" "pool_like s s''" "pair_voter s'' = (pair_voter s)(pair := snd (voter_consider (pair_voter s pair) c e now))"
    by (rule pool_consider_active [OF assms(2)])
  with assms(1) that \<open>cv_active s\<close> show ?thesis by (simp add: pool_decide_def)
qed

interpretation arbiter_pool: voting period "pool_decide pair" "pool_bound_to pair" "pool_restarted period"
  "pool_tended pair" "\<lambda>s. pool_ok s \<and> cv_lease_period s = period"
  for period pair
proof unfold_locales
  fix s s' :: component_lease_voters and i c :: instance_id and x now :: time_point and e :: epoch and a
  assume ok: "pool_ok s \<and> cv_lease_period s = period"
  then have P: "lv_lease_period (pair_voter s pair) = period" by simp
  {
    assume "pool_decide pair s c e now = Some (a, s')"
    then have D: "cv_active s" "a = fst (voter_consider (pair_voter s pair) c e now)" "pool_ok s'" "pool_like s s'"
      "pair_voter s' pair = snd (voter_consider (pair_voter s pair) c e now)"
      using ok by (auto elim!: pool_decideE)
    show "pool_bound_to pair s i x \<Longrightarrow> now < x \<Longrightarrow> c \<noteq> i \<Longrightarrow> ans_verdict a \<noteq> Granted"
      using voter_refuses_others D by (simp add: pool_bound_to_def)
    show "c \<noteq> 0 \<Longrightarrow> ans_verdict a = Granted \<Longrightarrow> pool_bound_to pair s' c (now + period)"
      using voter_binds_itself [of "pair_voter s pair" c e now] D P by (simp add: pool_bound_to_def)
    show "pool_bound_to pair s i x \<Longrightarrow> x \<le> now + period \<Longrightarrow> pool_bound_to pair s' i x \<or> x \<le> now"
      using voter_stays_bound [of "pair_voter s pair" i x now c e] D P by (auto simp: pool_bound_to_def pool_like_def)
    show "pool_ok s' \<and> cv_lease_period s' = period" using D ok by (simp add: pool_like_def)
  }
  {
    assume "pool_restarted period s now s'"
    then obtain t where t: "pool_ok t" "cv_lease_period t = period" "s' = became_active t now"
      by (auto elim: pool_restarted.cases)
    then show "pool_bound_to pair s' i (now + period)"
      by (simp add: pool_bound_to_def pair_voter_def became_active_def voter_bound_to_def
          voter_restore_recorded_statement_def make_voter_def)
    show "pool_ok s' \<and> cv_lease_period s' = period" using became_ok(1) [OF t(1), of now] t by (simp add: became_active_def)
  }
  show "pool_tended pair s s' \<Longrightarrow> pool_bound_to pair s i x \<Longrightarrow> pool_bound_to pair s' i x"
    "pool_tended pair s s' \<Longrightarrow> pool_ok s' \<and> cv_lease_period s' = period"
    using pool_tended_ok ok by blast+
next
  fix s i x y assume "pool_bound_to pair s i x" "y \<le> x"
  then show "pool_bound_to pair s i y" by (auto simp: pool_bound_to_def voter_bound_to_def)
qed

end
