(* ===== verification/AgentRun.thy ===== *)
theory AgentRun
  imports AgentSystem ComponentLeaseVoters
begin

text \<open>
  One run of the agents in full, at which the safety properties are exercised: both agents and the third
  voter start, a lease period passes, agent 1 ticks and asks, the third voter grants its request, and
  agent 1 leads. Every state is computed from the handlers.
\<close>

definition run_clocks :: clocks where
  "run_clocks m t = max 0 t"

lemma run_clocks_agree: "0 \<le> allowance \<Longrightarrow> clocks_agree run_clocks period allowance"
  by (auto simp: clocks_agree_def run_clocks_def)

definition run_timing :: lease_timing where
  "run_timing = \<lparr>lt_period = 3000, lt_drift_allowance = 250, lt_renewal_interval = 1000\<rparr>"

definition run_agent :: "instance_id \<Rightarrow> pair_lease_agent" where
  "run_agent i = agent_started (projr (new_agent 7 i (peer_of i) third_voter_id run_timing 0 0 SayWhetherPeerMayLead))
     (Some (new_recorder no_promise False, None, no_statement)) 0"

definition run_time :: int where
  "run_time = 3000000000"

definition run_asking :: pair_lease_agent where
  "run_asking = snd (snd (projr (agent_on_tick (run_agent 1) run_time 500 0)))"

definition run_leading :: pair_lease_agent where
  "run_leading = snd (snd (projr (agent_on_grant run_asking third_voter_id 1 2 0 run_time)))"

definition run_request :: "instance_id \<Rightarrow> int \<Rightarrow> bool \<Rightarrow> lease_request" where
  "run_request i r leading = \<lparr>lrq_candidate = 1, lrq_pair_id = 7, lrq_epoch = 1, lrq_request_id = r,
     lrq_statement = (if leading then Some \<lparr>ls_leader_id = 1, ls_epoch = 1, ls_number = 1, ls_peer_may_lead = False\<rparr> else None)\<rparr>"

lemma run_starts:
  "is_ok (new_agent 7 1 2 third_voter_id run_timing 0 0 SayWhetherPeerMayLead)"
  "is_ok (new_agent 7 2 1 third_voter_id run_timing 0 0 SayWhetherPeerMayLead)"
  by (simp_all add: new_agent_def new_participant_def new_voter_def new_holder_def run_timing_def ms_def)

lemma run_asks:
  "agent_on_tick (run_agent 1) run_time 500 0 =
     Inr (NoChange, [ToPeer (run_request 1 1 False), ToThirdVoter (run_request 1 2 False)], run_asking)"
  by code_simp

lemma run_leads:
  "agent_on_grant run_asking third_voter_id 1 2 0 run_time =
     Inr (BecameLeader, [ToPeer (run_request 1 3 True), ToThirdVoter (run_request 1 4 True)], run_leading)"
  by code_simp

lemma run_leading_holds:
  "lh_state (lp_holder (pa_participant run_leading)) = Leading"
  "lh_epoch (lp_holder (pa_participant run_leading)) = 1"
  "run_time < holder_lease_expires_at (lp_holder (pa_participant run_leading))"
  by code_simp+

definition run_state :: "pair_lease_agent \<Rightarrow> int \<Rightarrow> 'v \<Rightarrow> lease_msg set \<Rightarrow> 'v agent_sys" where
  "run_state a t third net =
     \<lparr>as_time = t, as_agent = (\<lambda>i. if i = 1 then a else run_agent 2), as_incarnation = (\<lambda>_. 0),
      as_machine = (\<lambda>_. 0), as_third = third, as_net = net\<rparr>"

definition run_asked_net :: "lease_msg set" where
  "run_asked_net = {RequestMsg 2 1 0 1 1, RequestMsg third_voter_id 1 0 1 2}"

definition run_granted_net :: "lease_msg set" where
  "run_granted_net = insert (GrantMsg third_voter_id 1 0 1 2 run_time) run_asked_net"

definition run_leading_net :: "lease_msg set" where
  "run_leading_net = run_granted_net \<union> {RequestMsg 2 1 0 1 3, RequestMsg third_voter_id 1 0 1 4}"

lemma run_state_sel [simp]:
  "as_time (run_state a t v n) = t" "as_agent (run_state a t v n) 1 = a" "as_incarnation (run_state a t v n) i = 0"
  "as_third (run_state a t v n) = v" "as_net (run_state a t v n) = n" "as_machine (run_state a t v n) i = 0"
  "agent_now run_clocks (run_state a run_time v n) i = run_time"
  by (simp_all add: run_state_def agent_now_def run_clocks_def run_time_def)

lemma run_state_update:
  "(run_state a t v n)\<lparr>as_time := t'\<rparr> = run_state a t' v n"
  "(run_state a t v n)\<lparr>as_agent := (as_agent (run_state a t v n))(1 := b), as_time := t', as_net := n'\<rparr> = run_state b t' v n'"
  "(run_state a t v n)\<lparr>as_agent := (as_agent (run_state a t v n))(1 := b), as_net := n'\<rparr> = run_state b t v n'"
  "(run_state a t v n)\<lparr>as_third := w, as_net := n'\<rparr> = run_state a t w n'"
  by (auto simp: run_state_def)

lemma run_reachable:
  assumes start: "ok v" "restarted v 0 third"
    and grant: "decide third 1 1 run_time = Some (ans, w)" "ans_verdict ans = Granted"
  shows "agent_reachable run_clocks decide restarted tended ok run_timing (run_state run_leading run_time w run_leading_net)"
proof -
  let ?R = "agent_reachable run_clocks decide restarted tended ok run_timing"
  let ?step = "agent_step run_clocks decide restarted tended run_timing"
  have clock: "run_clocks 0 0 = 0" "run_clocks 0 run_time = run_time" by (simp_all add: run_clocks_def run_time_def)
  obtain a1 a2 where a: "new_agent 7 1 2 third_voter_id run_timing 0 0 SayWhetherPeerMayLead = Inr a1"
    "new_agent 7 2 1 third_voter_id run_timing 0 0 SayWhetherPeerMayLead = Inr a2" using run_starts by blast
  have "agent_init run_clocks restarted ok run_timing (run_state (run_agent 1) 0 third {})"
    unfolding run_state_def
    by (rule agent_init.intros [where v = v and pair = 7 and ?e1.0 = 0 and ?e2.0 = 0 and flag = SayWhetherPeerMayLead and ?a1.0 = a1
        and ?a2.0 = a2 and ?d1.0 = no_promise and ?d2.0 = no_promise])
      (use start clock a in \<open>simp_all add: run_agent_def peer_of_def no_promise_def\<close>)
  then have "?R (run_state (run_agent 1) 0 third {})" by (rule agent_reachable.agents_start)
  moreover have "?step (run_state (run_agent 1) 0 third {}) (run_state (run_agent 1) run_time third {})"
    using agent_step.agents_wait [of "run_state (run_agent 1) 0 third {}" run_time]
    by (simp add: run_state_update run_time_def)
  ultimately have "?R (run_state (run_agent 1) run_time third {})" by (rule agent_reachable.agents_step)
  moreover have "?step (run_state (run_agent 1) run_time third {}) (run_state run_asking run_time third run_asked_net)"
    using agent_step.agent_ticks [of 1 0 "run_state (run_agent 1) run_time third {}" run_clocks 500 NoChange
        "[ToPeer (run_request 1 1 False), ToThirdVoter (run_request 1 2 False)]" run_asking run_time] run_asks
    by (simp add: run_state_update clock request_msgs_def run_asked_net_def run_request_def peer_of_def)
  ultimately have "?R (run_state run_asking run_time third run_asked_net)" by (rule agent_reachable.agents_step)
  moreover have "?step (run_state run_asking run_time third run_asked_net) (run_state run_asking run_time w run_granted_net)"
    using agent_step.third_is_asked [of 1 0 1 2 "run_state run_asking run_time third run_asked_net" decide run_clocks ans w] grant
    by (simp add: run_state_update run_granted_net_def) (simp add: run_asked_net_def)
  ultimately have "?R (run_state run_asking run_time w run_granted_net)" by (rule agent_reachable.agents_step)
  moreover have "?step (run_state run_asking run_time w run_granted_net) (run_state run_leading run_time w run_leading_net)"
    using agent_step.agent_is_granted [of third_voter_id 1 "run_state run_asking run_time w run_granted_net" 1 2 run_time 0 run_clocks
        BecameLeader "[ToPeer (run_request 1 3 True), ToThirdVoter (run_request 1 4 True)]" run_leading] run_leads
    by (simp add: run_state_update request_msgs_def run_leading_net_def run_granted_net_def run_request_def peer_of_def)
  ultimately show ?thesis by (rule agent_reachable.agents_step)
qed

lemma run_acts: "0 \<le> late \<Longrightarrow> acts_as_leader run_clocks late (lease_view (run_state run_leading run_time w net)) 1"
  using run_leading_holds by (simp add: acts_as_leader_def)

end
