(* ===== verification/PromiseGaps.thy ===== *)
theory PromiseGaps
  imports AgentRun
begin

text \<open>
  Two runs in which a restart forgets a promise. Each breaks one of the two conditions that the steps of
  \<open>AgentSystem\<close> carry and the program does not check, so neither condition can be dropped. Both are runs of
  one agent, computed from its handlers.
\<close>

section \<open>Calls on one agent\<close>

datatype agent_call =
    CallTick time_point
  | CallRequest instance_id epoch int leader_statement time_point
  | CallGrant instance_id epoch int time_point
  | WriterFinishes

text \<open>The writer thread from its next look at the slot to the outcome stored, when the write succeeds.\<close>

definition write_finished :: "promise_recorder \<Rightarrow> promise_recorder" where
  "write_finished r =
     (if pr_requests_started r \<noteq> pr_requests_finished r \<and> pr_writer r = LookingForWork
      then r\<lparr>pr_disk := pr_slot r, pr_this_boot := True, pr_writer := LookingForWork, pr_last_write_succeeded := True,
             pr_requests_finished := pr_requests_finished r + 1\<rparr>
      else r)"

lemma write_finished_steps: "writer_step\<^sup>*\<^sup>* r (write_finished r)"
proof (cases "pr_requests_started r \<noteq> pr_requests_finished r \<and> pr_writer r = LookingForWork")
  case True
  let ?r1 = "r\<lparr>pr_writer := CopiedSlot (pr_slot r)\<rparr>"
  let ?r2 = "?r1\<lparr>pr_writer := ReplacedRecord, pr_disk := pr_slot r, pr_this_boot := True\<rparr>"
  have "writer_step r ?r1" using True by (intro writer_step.writer_copies) simp_all
  moreover have "writer_step ?r1 ?r2" by (rule writer_step.writer_replaces) simp
  moreover have "writer_step ?r2 (write_finished r)"
    using writer_step.writer_succeeds [of ?r2] True by (simp add: write_finished_def)
  ultimately show ?thesis by (meson converse_rtranclp_into_rtranclp rtranclp.rtrancl_refl)
qed (auto simp: write_finished_def)

definition run_call :: "agent_call \<Rightarrow> pair_lease_agent \<Rightarrow> pair_lease_agent result" where
  "run_call c a =
     (case c of
        CallTick now \<Rightarrow> bind_result (agent_on_tick a now 500 0) (\<lambda>(_, _, b). Inr b)
      | CallRequest i e r st now \<Rightarrow> bind_result (agent_on_request a 0 i e r st now) (\<lambda>(_, _, b). Inr b)
      | CallGrant v e r now \<Rightarrow> bind_result (agent_on_grant a v e r 0 now) (\<lambda>(_, _, b). Inr b)
      | WriterFinishes \<Rightarrow> Inr (a\<lparr>pa_recorder := map_option write_finished (pa_recorder a)\<rparr>))"

fun agent_calls :: "agent_call list \<Rightarrow> pair_lease_agent \<Rightarrow> pair_lease_agent result" where
  "agent_calls [] a = Inr a"
| "agent_calls (c # cs) a = bind_result (run_call c a) (agent_calls cs)"

text \<open>Starting anew on the same boot, with what the record on disk says.\<close>

definition restart_from_disk :: "pair_lease_agent \<Rightarrow> epoch \<Rightarrow> time_point \<Rightarrow> pair_lease_agent result" where
  "restart_from_disk a persisted_epoch now =
     (case pa_recorder a of
        None \<Rightarrow> Inl PreconditionAssertion
      | Some r \<Rightarrow> bind_result
          (new_agent (pa_pair_id a) (pa_self_id a) (pa_peer_id a) (pa_third_voter_id a) (pa_timing a) now persisted_epoch
             (lp_peer_statements (pa_participant a)))
          (\<lambda>b. Inr (agent_started b
             (Some (new_recorder (pr_disk r) (pr_this_boot r), if pr_this_boot r then Some (kept_on_disk r) else None,
                lpr_statement (pr_disk r))) now)))"

definition fresh_agent :: "peer_statements \<Rightarrow> instance_id \<Rightarrow> pair_lease_agent" where
  "fresh_agent flag i = agent_started (projr (new_agent 7 i (peer_of i) third_voter_id run_timing 0 0 flag))
     (Some (new_recorder no_promise False, None, no_statement)) 0"

section \<open>A record that names this instance lands after the promise to the peer\<close>

text \<open>
  The peer is granted, its lease lapses, this instance leads for a moment and starts writing that it does;
  the write is slow, and the lease runs out before it has finished.
\<close>

definition slow_write_calls :: "agent_call list" where
  "slow_write_calls =
     [CallRequest 2 2 1 no_statement (ms 3000), WriterFinishes, CallRequest 2 2 2 no_statement (ms 3100),
      CallTick (ms 6200), CallGrant third_voter_id 5 2 (ms 6200), CallTick (ms 9000)]"

definition slow_write_agent :: pair_lease_agent where
  "slow_write_agent = projr (agent_calls slow_write_calls (fresh_agent PeerAlwaysMayLead 1))"

definition slow_write_granting :: pair_lease_agent where
  "slow_write_granting = snd (snd (projr (agent_on_request slow_write_agent 0 2 10 3 no_statement (ms 9100))))"

definition slow_write_landed :: pair_lease_agent where
  "slow_write_landed = projr (agent_calls [WriterFinishes] slow_write_granting)"

definition slow_write_restarted :: pair_lease_agent where
  "slow_write_restarted = projr (restart_from_disk slow_write_landed 10 (ms 9300))"

section \<open>A record written while a restart is being waited out\<close>

text \<open>
  An agent that starts without a record of this boot waits a lease period, since it may have promised its
  vote before it restarted. Within that period it learns a newer statement and writes it.
\<close>

definition early_write_calls :: "agent_call list" where
  "early_write_calls =
     [CallRequest 2 6 1 \<lparr>ls_leader_id = 2, ls_epoch = 6, ls_number = 1, ls_peer_may_lead = True\<rparr> (ms 1000),
      CallTick (ms 1100), WriterFinishes]"

definition early_write_agent :: pair_lease_agent where
  "early_write_agent = projr (agent_calls early_write_calls (fresh_agent SayWhetherPeerMayLead 1))"

definition early_write_restarted :: pair_lease_agent where
  "early_write_restarted = projr (restart_from_disk early_write_agent 6 (ms 1200))"


end
