(* ===== verification/SlotStore.thy ===== *)
theory SlotStore
  imports Prelude
begin

text \<open>
  \<open>MappedSlotStore\<close>: records in a memory-mapped file, with the free list threaded through them as indices. The
  file is the state, so a process that dies leaves it exactly as its last store left it. A record's bytes
  are a value of the type \<open>'p\<close>; \<open>blank\<close> is what a new file holds in their place.
\<close>

section \<open>The file\<close>

definition no_slot :: nat where
  "no_slot = 4294967295"

definition store_magic :: nat where
  "store_magic = 1397509972"

definition store_version :: nat where
  "store_version = 5"

definition owner_value_count :: nat where
  "owner_value_count = 4"

record 'p slot =
  sl_live :: bool
  sl_next_free :: nat
  sl_seq_no :: int
  sl_payload :: 'p

record 'p slot_store =
  ss_magic :: nat
  ss_version :: nat
  ss_payload_size :: nat
  ss_slot_count :: nat
  ss_published :: int
  ss_free_head :: nat
  ss_payload_format :: nat
  ss_owner_values :: "int list"
  ss_slots :: "'p slot list"

section \<open>Opening\<close>

definition header_size :: nat where
  "header_size = 64"

definition slot_header_size :: nat where
  "slot_header_size = 16"

definition page_size :: nat where
  "page_size = 4096"

definition round_up :: "nat \<Rightarrow> nat \<Rightarrow> nat" where
  "round_up unit n = (n + unit - 1) div unit * unit"

definition slot_stride :: "nat \<Rightarrow> nat" where
  "slot_stride payload_size = round_up 8 (slot_header_size + payload_size)"

definition mapped_size :: "nat \<Rightarrow> nat \<Rightarrow> nat" where
  "mapped_size payload_size slot_count = round_up page_size (header_size + slot_stride payload_size * slot_count)"

text \<open>
  The file is given the size this process asks for before its header is looked at. A smaller size cuts records
  off the end of it, and a larger one fills the space with zeros. \<open>chop n p\<close> is the first \<open>n\<close> bytes of
  the record \<open>p\<close>, followed by zeros. A slot is cut at a multiple of eight bytes, because the stride, the header and the
  page are multiples of eight.
\<close>

definition zero_slot :: "'p \<Rightarrow> 'p slot" where
  "zero_slot blank = \<lparr>sl_live = False, sl_next_free = 0, sl_seq_no = 0, sl_payload = blank\<rparr>"

definition cut_slot :: "'p \<Rightarrow> (nat \<Rightarrow> 'p \<Rightarrow> 'p) \<Rightarrow> nat \<Rightarrow> 'p slot \<Rightarrow> 'p slot" where
  "cut_slot blank chop kept sl =
     (if kept = 0 then zero_slot blank
      else if kept < slot_header_size then sl\<lparr>sl_seq_no := 0, sl_payload := blank\<rparr>
      else sl\<lparr>sl_payload := chop (kept - slot_header_size) (sl_payload sl)\<rparr>)"

definition truncate_file :: "'p \<Rightarrow> (nat \<Rightarrow> 'p \<Rightarrow> 'p) \<Rightarrow> nat \<Rightarrow> 'p slot_store \<Rightarrow> 'p slot_store" where
  "truncate_file blank chop new_size file =
     file\<lparr>ss_slots := map (\<lambda>i. let start = header_size + slot_stride (ss_payload_size file) * i;
                                   past = start + slot_header_size + ss_payload_size file
                              in if length (ss_slots file) \<le> i then zero_slot blank
                                 else if past \<le> new_size then ss_slots file ! i
                                 else cut_slot blank chop (new_size - start) (ss_slots file ! i))
                        [0..<ss_slot_count file]\<rparr>"

definition new_store :: "'p \<Rightarrow> nat \<Rightarrow> nat \<Rightarrow> nat \<Rightarrow> 'p slot_store" where
  "new_store blank payload_size slot_count payload_format =
     \<lparr>ss_magic = store_magic, ss_version = store_version, ss_payload_size = payload_size, ss_slot_count = slot_count,
      ss_published = 0, ss_free_head = 0, ss_payload_format = payload_format, ss_owner_values = replicate owner_value_count 0,
      ss_slots = map (\<lambda>i. \<lparr>sl_live = False, sl_next_free = (if i + 1 < slot_count then i + 1 else no_slot),
                          sl_seq_no = 0, sl_payload = blank\<rparr>) [0..<slot_count]\<rparr>"

text \<open>
  \<open>None\<close> is a file that does not exist or is empty. The result is the file afterwards, and either the error or
  whether a store was already there.
\<close>

definition store_open ::
  "'p \<Rightarrow> (nat \<Rightarrow> 'p \<Rightarrow> 'p) \<Rightarrow> 'p slot_store option \<Rightarrow> nat \<Rightarrow> nat \<Rightarrow> nat \<Rightarrow> 'p slot_store option \<times> bool result" where
  "store_open blank chop file payload_size slot_count payload_format =
     (if payload_size = 0 \<or> slot_count = 0 \<or> slot_count = no_slot then (file, Inl PreconditionAssertion)
      else case file of
        None \<Rightarrow> (Some (new_store blank payload_size slot_count payload_format), Inr False)
      | Some f \<Rightarrow>
          let f' = truncate_file blank chop (mapped_size payload_size slot_count) f
          in if ss_magic f' \<noteq> store_magic then (Some f', Inl PubSubItcException)
             else if ss_version f' \<noteq> store_version \<or> ss_payload_size f' \<noteq> payload_size \<or> ss_slot_count f' \<noteq> slot_count \<or>
                     ss_payload_format f' \<noteq> payload_format
             then (Some f', Inl PubSubItcException)
             else (Some f', Inr True))"

section \<open>Writing\<close>

abbreviation slot_at :: "'p slot_store \<Rightarrow> nat \<Rightarrow> 'p slot" where
  "slot_at s i \<equiv> ss_slots s ! i"

definition acquire :: "'p slot_store \<Rightarrow> nat \<times> 'p slot_store" where
  "acquire s =
     (if ss_free_head s = no_slot then (no_slot, s)
      else (ss_free_head s, s\<lparr>ss_free_head := sl_next_free (slot_at s (ss_free_head s))\<rparr>))"

definition write_payload :: "nat \<Rightarrow> 'p \<Rightarrow> 'p slot_store \<Rightarrow> 'p slot_store" where
  "write_payload i p s = s\<lparr>ss_slots := (ss_slots s)[i := (slot_at s i)\<lparr>sl_payload := p\<rparr>]\<rparr>"

definition commit_slot :: "nat \<Rightarrow> int \<Rightarrow> 'p slot_store \<Rightarrow> 'p slot_store" where
  "commit_slot i seq_no s = s\<lparr>ss_slots := (ss_slots s)[i := (slot_at s i)\<lparr>sl_seq_no := seq_no, sl_live := True\<rparr>]\<rparr>"

definition release_slot :: "nat \<Rightarrow> 'p slot_store \<Rightarrow> 'p slot_store" where
  "release_slot i s =
     s\<lparr>ss_slots := (ss_slots s)[i := (slot_at s i)\<lparr>sl_live := False, sl_next_free := ss_free_head s\<rparr>], ss_free_head := i\<rparr>"

definition publish :: "int \<Rightarrow> 'p slot_store \<Rightarrow> 'p slot_store" where
  "publish seq_no s = s\<lparr>ss_published := seq_no\<rparr>"

definition mark_unusable :: "'p slot_store \<Rightarrow> 'p slot_store" where
  "mark_unusable s = s\<lparr>ss_magic := 0\<rparr>"

definition set_owner_value :: "nat \<Rightarrow> int \<Rightarrow> 'p slot_store \<Rightarrow> 'p slot_store result" where
  "set_owner_value index val s =
     (if owner_value_count \<le> index then Inl PreconditionAssertion
      else Inr (s\<lparr>ss_owner_values := (ss_owner_values s)[index := val]\<rparr>))"

section \<open>Reading\<close>

definition owner_value :: "nat \<Rightarrow> 'p slot_store \<Rightarrow> int result" where
  "owner_value index s = (if owner_value_count \<le> index then Inl PreconditionAssertion else Inr (ss_owner_values s ! index))"

definition is_recoverable :: "'p slot_store \<Rightarrow> nat \<Rightarrow> bool" where
  "is_recoverable s i \<longleftrightarrow>
     sl_live (slot_at s i) \<and> 0 < sl_seq_no (slot_at s i) \<and> sl_seq_no (slot_at s i) \<le> ss_published s"

text \<open>One turn of the loop of \<open>rebuild_free_list\<close>, which goes from the last slot to the first.\<close>

definition rebuild_slot :: "nat \<Rightarrow> 'p slot_store \<times> nat \<times> nat \<Rightarrow> 'p slot_store \<times> nat \<times> nat" where
  "rebuild_slot i state =
     (case state of (s, recoverable, head) \<Rightarrow>
       if is_recoverable s i then (s, recoverable + 1, head)
       else (s\<lparr>ss_slots := (ss_slots s)[i := (slot_at s i)\<lparr>sl_live := False, sl_next_free := head\<rparr>]\<rparr>, recoverable, i))"

definition rebuild_free_list :: "'p slot_store \<Rightarrow> nat \<times> 'p slot_store" where
  "rebuild_free_list s =
     (let (s', recoverable, head) = fold rebuild_slot (rev [0..<ss_slot_count s]) (s, 0, no_slot)
      in (recoverable, s'\<lparr>ss_free_head := head\<rparr>))"

section \<open>The free list\<close>

text \<open>\<open>free_chain ss i is\<close>: following the indices from \<open>i\<close> visits \<open>is\<close> and then ends.\<close>

fun free_chain :: "'p slot list \<Rightarrow> nat \<Rightarrow> nat list \<Rightarrow> bool" where
  "free_chain ss i [] = (i = no_slot)"
| "free_chain ss i (j # js) = (i = j \<and> j < length ss \<and> free_chain ss (sl_next_free (ss ! j)) js)"

text \<open>A store in which every slot is either live or on the free list, once.\<close>

definition store_ok :: "'p slot_store \<Rightarrow> bool" where
  "store_ok s \<longleftrightarrow>
     length (ss_slots s) = ss_slot_count s \<and> 0 < ss_slot_count s \<and> ss_slot_count s < no_slot \<and>
     length (ss_owner_values s) = owner_value_count \<and>
     (\<exists>free. free_chain (ss_slots s) (ss_free_head s) free \<and> distinct free \<and>
        set free = {i. i < ss_slot_count s \<and> \<not> sl_live (slot_at s i)})"

definition live_slots :: "'p slot_store \<Rightarrow> nat set" where
  "live_slots s = {i. i < ss_slot_count s \<and> sl_live (slot_at s i)}"

lemma free_chain_update:
  "free_chain ss i js \<Longrightarrow> k \<notin> set js \<Longrightarrow> free_chain (ss[k := x]) i js"
  by (induction js arbitrary: i) auto

lemma free_chain_update_payload:
  "free_chain ss i js \<Longrightarrow> sl_next_free x = sl_next_free (ss ! k) \<Longrightarrow> free_chain (ss[k := x]) i js"
proof (induction js arbitrary: i)
  case (Cons j js)
  then show ?case by (cases "k = j") (auto simp: nth_list_update)
qed simp

lemma free_chain_not_live: "free_chain ss i js \<Longrightarrow> set js \<subseteq> {j. j < length ss}"
  by (induction js arbitrary: i) auto

lemma store_ok_free_head:
  assumes "store_ok s" and "ss_free_head s \<noteq> no_slot"
  shows "ss_free_head s < ss_slot_count s" and "\<not> sl_live (slot_at s (ss_free_head s))"
proof -
  obtain free where f: "free_chain (ss_slots s) (ss_free_head s) free" "set free = {i. i < ss_slot_count s \<and> \<not> sl_live (slot_at s i)}"
    using assms(1) by (auto simp: store_ok_def)
  with assms(2) obtain js where "free = ss_free_head s # js" by (cases free) auto
  with f(2) show "ss_free_head s < ss_slot_count s" "\<not> sl_live (slot_at s (ss_free_head s))" by auto
qed

text \<open>The free list is empty exactly when every slot is live.\<close>

lemma store_full:
  assumes "store_ok s"
  shows "ss_free_head s = no_slot \<longleftrightarrow> live_slots s = {..<ss_slot_count s}"
proof -
  obtain free where f: "free_chain (ss_slots s) (ss_free_head s) free" "set free = {i. i < ss_slot_count s \<and> \<not> sl_live (slot_at s i)}"
    and n: "length (ss_slots s) < no_slot"
    using assms unfolding store_ok_def by metis
  have "ss_free_head s = no_slot \<longleftrightarrow> free = []"
    using f(1) n by (cases free) simp_all
  also have "\<dots> \<longleftrightarrow> set free = {}" by simp
  also have "\<dots> \<longleftrightarrow> live_slots s = {..<ss_slot_count s}" unfolding f(2) live_slots_def by blast
  finally show ?thesis .
qed

section \<open>Every operation keeps the store well formed\<close>

lemma store_okI:
  assumes "length (ss_slots s) = ss_slot_count s" and "0 < ss_slot_count s" and "ss_slot_count s < no_slot"
    and "length (ss_owner_values s) = owner_value_count" and "free_chain (ss_slots s) (ss_free_head s) free" and "distinct free"
    and "\<And>i. i \<in> set free \<longleftrightarrow> i < ss_slot_count s \<and> \<not> sl_live (slot_at s i)"
  shows "store_ok s"
proof -
  have "set free = {i. i < ss_slot_count s \<and> \<not> sl_live (slot_at s i)}" using assms(7) by blast
  with assms show ?thesis unfolding store_ok_def by blast
qed

lemma store_okE:
  assumes "store_ok s"
  obtains free where "length (ss_slots s) = ss_slot_count s" and "0 < ss_slot_count s" and "ss_slot_count s < no_slot"
    and "length (ss_owner_values s) = owner_value_count" and "free_chain (ss_slots s) (ss_free_head s) free" and "distinct free"
    and "set free = {i. i < ss_slot_count s \<and> \<not> sl_live (slot_at s i)}"
  using assms unfolding store_ok_def by blast

lemma store_ok_new: "0 < n \<Longrightarrow> n < no_slot \<Longrightarrow> store_ok (new_store blank size' n fmt)"
proof -
  assume n: "0 < n" "n < no_slot"
  let ?ss = "ss_slots (new_store blank size' n fmt)"
  have len: "length ?ss = n" by (simp add: new_store_def)
  have nxt: "sl_next_free (?ss ! i) = (if i + 1 < n then i + 1 else no_slot)" "\<not> sl_live (?ss ! i)" if "i < n" for i
    using that by (simp_all add: new_store_def)
  have chain: "free_chain ?ss (if k < n then k else no_slot) [k..<n]" if "k \<le> n" for k
    using that
  proof (induction "n - k" arbitrary: k)
    case (Suc d)
    then have "k < n" "free_chain ?ss (if Suc k < n then Suc k else no_slot) [Suc k..<n]" by auto
    then show ?case using nxt [of k] len by (cases "Suc k < n") (simp_all add: upt_conv_Cons [OF \<open>k < n\<close>] del: upt.simps)
  qed simp
  show ?thesis
  proof (rule store_okI [of _ "[0..<n]"])
    show "free_chain ?ss (ss_free_head (new_store blank size' n fmt)) [0..<n]"
      using chain [of 0] n by (simp add: new_store_def)
  qed (use n len nxt(2) in \<open>auto simp: new_store_def\<close>)
qed

text \<open>Taking a slot, writing the record and making it live.\<close>

definition store_add :: "'p \<Rightarrow> int \<Rightarrow> 'p slot_store \<Rightarrow> nat \<times> 'p slot_store" where
  "store_add p seq_no s =
     (let (i, s1) = acquire s in if i = no_slot then (no_slot, s1) else (i, commit_slot i seq_no (write_payload i p s1)))"

lemma store_add_full: "ss_free_head s = no_slot \<Longrightarrow> store_add p seq_no s = (no_slot, s)"
  by (simp add: store_add_def acquire_def)

lemma store_add_fields [simp]:
  "ss_slot_count (snd (store_add p q s)) = ss_slot_count s" "ss_owner_values (snd (store_add p q s)) = ss_owner_values s"
  "ss_published (snd (store_add p q s)) = ss_published s" "length (ss_slots (snd (store_add p q s))) = length (ss_slots s)"
  "ss_magic (snd (store_add p q s)) = ss_magic s" "ss_version (snd (store_add p q s)) = ss_version s"
  "ss_payload_size (snd (store_add p q s)) = ss_payload_size s" "ss_payload_format (snd (store_add p q s)) = ss_payload_format s"
  "ss_free_head s \<noteq> no_slot \<Longrightarrow> ss_free_head (snd (store_add p q s)) = sl_next_free (slot_at s (ss_free_head s))"
  by (simp_all add: store_add_def acquire_def Let_def commit_slot_def write_payload_def)

lemma store_add_slots:
  assumes "store_ok s" and "ss_free_head s \<noteq> no_slot"
  defines "i \<equiv> ss_free_head s"
  shows "fst (store_add p seq_no s) = i" and "i < ss_slot_count s" and "\<not> sl_live (slot_at s i)"
    and "ss_slots (snd (store_add p seq_no s)) =
      (ss_slots s)[i := \<lparr>sl_live = True, sl_next_free = sl_next_free (slot_at s i), sl_seq_no = seq_no, sl_payload = p\<rparr>]"
proof -
  show i: "i < ss_slot_count s" "\<not> sl_live (slot_at s i)" using store_ok_free_head assms by auto
  then have len: "i < length (ss_slots s)" using assms(1) by (simp add: store_ok_def)
  show "fst (store_add p seq_no s) = i" using assms by (simp add: store_add_def acquire_def Let_def)
  show "ss_slots (snd (store_add p seq_no s)) =
      (ss_slots s)[i := \<lparr>sl_live = True, sl_next_free = sl_next_free (slot_at s i), sl_seq_no = seq_no, sl_payload = p\<rparr>]"
    using assms(2) len
    by (cases "slot_at s i") (simp add: store_add_def acquire_def Let_def commit_slot_def write_payload_def i_def)
qed

lemma store_add_ok:
  assumes ok: "store_ok s"
  shows "store_ok (snd (store_add p seq_no s))"
proof (cases "ss_free_head s = no_slot")
  case False
  let ?i = "ss_free_head s" and ?t = "snd (store_add p seq_no s)"
  note i = store_add_slots(2,3) [OF ok False] and A4 = store_add_slots(4) [OF ok False, of p seq_no]
  obtain free where f: "length (ss_slots s) = ss_slot_count s" "0 < ss_slot_count s" "ss_slot_count s < no_slot"
      "length (ss_owner_values s) = owner_value_count" "free_chain (ss_slots s) ?i free" "distinct free"
      "set free = {i. i < ss_slot_count s \<and> \<not> sl_live (slot_at s i)}"
    by (rule store_okE [OF ok])
  from f(5) False obtain js where js: "free = ?i # js" "free_chain (ss_slots s) (sl_next_free (slot_at s ?i)) js" by (cases free) auto
  have live: "sl_live (slot_at ?t j) = (j = ?i \<or> sl_live (slot_at s j))" if "j < ss_slot_count s" for j
    unfolding A4 using that f(1) i(1) by (simp add: nth_list_update)
  show ?thesis
  proof (rule store_okI [of _ js])
    show "free_chain (ss_slots ?t) (ss_free_head ?t) js"
      using js f(6) False by (simp add: A4 free_chain_update)
    show "i \<in> set js \<longleftrightarrow> i < ss_slot_count ?t \<and> \<not> sl_live (slot_at ?t i)" for i
    proof (cases "i < ss_slot_count s")
      case True
      then have "i \<in> set (?i # js) \<longleftrightarrow> \<not> sl_live (slot_at s i)" using f(7) unfolding js(1) by (simp add: set_eq_iff)
      with True live [OF True] f(6) [unfolded js(1)] i show ?thesis by auto
    next
      case False
      then show ?thesis using f(7) js(1) by auto
    qed
  qed (use f(1-4,6) js in simp_all)
qed (simp add: store_add_full ok)

lemma release_ok:
  assumes ok: "store_ok s" and i: "i < ss_slot_count s" "sl_live (slot_at s i)"
  shows "store_ok (release_slot i s)"
proof -
  let ?t = "release_slot i s"
  obtain free where f: "length (ss_slots s) = ss_slot_count s" "0 < ss_slot_count s" "ss_slot_count s < no_slot"
      "length (ss_owner_values s) = owner_value_count" "free_chain (ss_slots s) (ss_free_head s) free" "distinct free"
      "set free = {i. i < ss_slot_count s \<and> \<not> sl_live (slot_at s i)}"
    by (rule store_okE [OF ok])
  have "i \<notin> set free" using f(7) i by simp
  then have "free_chain (ss_slots ?t) (ss_free_head s) free" using f(5) by (simp add: release_slot_def free_chain_update)
  then have chain: "free_chain (ss_slots ?t) (ss_free_head ?t) (i # free)" using i f(1) by (simp add: release_slot_def)
  show ?thesis
  proof (rule store_okI [OF _ _ _ _ chain])
    show "j \<in> set (i # free) \<longleftrightarrow> j < ss_slot_count ?t \<and> \<not> sl_live (slot_at ?t j)" for j
      using f(1,7) i by (cases "j = i") (simp_all add: release_slot_def)
  qed (use f \<open>i \<notin> set free\<close> in \<open>simp_all add: release_slot_def\<close>)
qed

lemma release_live: "i < length (ss_slots s) \<Longrightarrow> sl_live (slot_at (release_slot i s) j) = (j \<noteq> i \<and> sl_live (slot_at s j))"
  by (simp add: release_slot_def nth_list_update)

lemma store_ok_publish [simp]: "store_ok (publish n s) = store_ok s"
  by (simp add: store_ok_def publish_def)

lemma store_ok_owner_values: "length vs = owner_value_count \<Longrightarrow> store_ok s \<Longrightarrow> store_ok (s\<lparr>ss_owner_values := vs\<rparr>)"
  by (simp add: store_ok_def)

lemma store_ok_owner: "store_ok s \<Longrightarrow> set_owner_value k v s = Inr s' \<Longrightarrow> store_ok s'"
  by (auto simp: set_owner_value_def split: if_splits intro!: store_ok_owner_values) (simp add: store_ok_def)

section \<open>Recovery\<close>

text \<open>What the slots are that \<open>rebuild_free_list\<close> has come to, and the list it has threaded through them.\<close>

definition rebuilt :: "'p slot_store \<Rightarrow> nat \<Rightarrow> 'p slot_store \<Rightarrow> nat \<Rightarrow> nat \<Rightarrow> bool" where
  "rebuilt s k t recoverable head \<longleftrightarrow>
     (\<exists>ss. t = s\<lparr>ss_slots := ss\<rparr> \<and> length ss = length (ss_slots s) \<and>
        (\<forall>i < ss_slot_count s. if k \<le> i \<and> \<not> is_recoverable s i then \<not> sl_live (ss ! i) else ss ! i = slot_at s i) \<and>
        free_chain ss head (filter (\<lambda>i. \<not> is_recoverable s i) [k..<ss_slot_count s])) \<and>
     recoverable = length (filter (is_recoverable s) [k..<ss_slot_count s])"

lemma rebuiltI:
  assumes "t = s\<lparr>ss_slots := ss\<rparr>" and "length ss = length (ss_slots s)"
    and "\<And>i. i < ss_slot_count s \<Longrightarrow> if k \<le> i \<and> \<not> is_recoverable s i then \<not> sl_live (ss ! i) else ss ! i = slot_at s i"
    and "free_chain ss head (filter (\<lambda>i. \<not> is_recoverable s i) [k..<ss_slot_count s])"
    and "recoverable = length (filter (is_recoverable s) [k..<ss_slot_count s])"
  shows "rebuilt s k t recoverable head"
  using assms unfolding rebuilt_def by blast

lemma rebuilt_step:
  assumes "rebuilt s (Suc k) t r h" and k: "k < ss_slot_count s" and len: "length (ss_slots s) = ss_slot_count s"
    and "rebuild_slot k (t, r, h) = (t', r', h')"
  shows "rebuilt s k t' r' h'"
proof -
  from assms(1) obtain ss where t: "t = s\<lparr>ss_slots := ss\<rparr>" and l: "length ss = length (ss_slots s)"
    and same: "\<forall>i < ss_slot_count s. if Suc k \<le> i \<and> \<not> is_recoverable s i then \<not> sl_live (ss ! i) else ss ! i = slot_at s i"
    and chain: "free_chain ss h (filter (\<lambda>i. \<not> is_recoverable s i) [Suc k..<ss_slot_count s])"
    and r: "r = length (filter (is_recoverable s) [Suc k..<ss_slot_count s])"
    unfolding rebuilt_def by blast
  have ssk: "ss ! k = slot_at s k" using same k by auto
  then have rec: "is_recoverable t k = is_recoverable s k" by (simp add: is_recoverable_def t)
  have upt: "[k..<ss_slot_count s] = k # [Suc k..<ss_slot_count s]" using k by (rule upt_conv_Cons)
  show ?thesis
  proof (cases "is_recoverable s k")
    case True
    with assms(4) rec have e: "t' = t" "r' = r + 1" "h' = h" by (simp_all add: rebuild_slot_def)
    have "if k \<le> i \<and> \<not> is_recoverable s i then \<not> sl_live (ss ! i) else ss ! i = slot_at s i" if "i < ss_slot_count s" for i
      using same [rule_format, OF that] True by (cases "i = k") (auto split: if_splits)
    with True chain l show ?thesis unfolding rebuilt_def e upt t r by auto
  next
    case False
    let ?ss = "ss[k := (ss ! k)\<lparr>sl_live := False, sl_next_free := h\<rparr>]"
    from False assms(4) rec have e: "t' = s\<lparr>ss_slots := ?ss\<rparr>" "r' = r" "h' = k" by (auto simp: rebuild_slot_def t)
    have "if k \<le> i \<and> \<not> is_recoverable s i then \<not> sl_live (?ss ! i) else ?ss ! i = slot_at s i" if "i < ss_slot_count s" for i
      using same [rule_format, OF that] False k l len by (cases "i = k") (auto split: if_splits)
    moreover have "free_chain ?ss h (filter (\<lambda>i. \<not> is_recoverable s i) [Suc k..<ss_slot_count s])"
      using chain by (rule free_chain_update) simp
    ultimately show ?thesis using False k l len by (intro rebuiltI [OF e(1)]) (simp_all add: upt e r)
  qed
qed

lemma rebuilt_fold:
  assumes "length (ss_slots s) = ss_slot_count s" and "k \<le> ss_slot_count s"
    and "fold rebuild_slot (rev [k..<ss_slot_count s]) (s, 0, no_slot) = (t, r, h)"
  shows "rebuilt s k t r h"
  using assms(2,3)
proof (induction "ss_slot_count s - k" arbitrary: k t r h)
  case 0
  then have "t = s" "r = 0" "h = no_slot" "ss_slot_count s = k" by simp_all
  moreover have "s = s\<lparr>ss_slots := ss_slots s\<rparr>" by simp
  ultimately show ?case using 0(2) unfolding rebuilt_def by (auto intro!: exI [of _ "ss_slots s"])
next
  case (Suc d)
  then have k: "k < ss_slot_count s" by simp
  obtain t1 r1 h1 where one: "fold rebuild_slot (rev [Suc k..<ss_slot_count s]) (s, 0, no_slot) = (t1, r1, h1)" by (rule prod_cases3)
  have "rebuilt s (Suc k) t1 r1 h1" using Suc.hyps(1) [OF _ _ one] Suc.hyps(2) k by simp
  moreover have "rebuild_slot k (t1, r1, h1) = (t, r, h)" using Suc.prems(2) one by (simp add: upt_conv_Cons [OF k])
  ultimately show ?case using rebuilt_step k assms(1) by blast
qed

text \<open>
  Whatever a process left in the free list, rebuilding it gives a well-formed store whose live slots are
  the recoverable ones, with the records they held.
\<close>

lemma rebuild_free_list_ok:
  assumes len: "length (ss_slots s) = ss_slot_count s" and "0 < ss_slot_count s" "ss_slot_count s < no_slot"
    and "length (ss_owner_values s) = owner_value_count" and "rebuild_free_list s = (r, t)"
  shows "store_ok t" and "live_slots t = {i. i < ss_slot_count s \<and> is_recoverable s i}" and "r = card (live_slots t)"
    and "\<And>i. i \<in> live_slots t \<Longrightarrow> slot_at t i = slot_at s i"
    and "ss_published t = ss_published s" and "ss_owner_values t = ss_owner_values s" and "ss_slot_count t = ss_slot_count s"
proof -
  obtain t0 h where fold: "fold rebuild_slot (rev [0..<ss_slot_count s]) (s, 0, no_slot) = (t0, r, h)" and t: "t = t0\<lparr>ss_free_head := h\<rparr>"
    using assms(5) by (auto simp: rebuild_free_list_def split: prod.splits)
  from rebuilt_fold [OF len _ fold] obtain ss where t0: "t0 = s\<lparr>ss_slots := ss\<rparr>" and l: "length ss = length (ss_slots s)"
    and same: "\<And>i. i < ss_slot_count s \<Longrightarrow> if \<not> is_recoverable s i then \<not> sl_live (ss ! i) else ss ! i = slot_at s i"
    and chain: "free_chain ss h (filter (\<lambda>i. \<not> is_recoverable s i) [0..<ss_slot_count s])"
    and r: "r = length (filter (is_recoverable s) [0..<ss_slot_count s])"
    unfolding rebuilt_def by auto
  have live: "sl_live (ss ! i) = is_recoverable s i" if "i < ss_slot_count s" for i
    using same [OF that] by (auto simp: is_recoverable_def split: if_splits)
  show "store_ok t"
    by (rule store_okI [where free = "filter (\<lambda>i. \<not> is_recoverable s i) [0..<ss_slot_count s]"])
      (use assms(1-4) l chain live in \<open>auto simp: t t0\<close>)
  show L: "live_slots t = {i. i < ss_slot_count s \<and> is_recoverable s i}" using live by (auto simp: live_slots_def t t0)
  have "set (filter (is_recoverable s) [0..<ss_slot_count s]) = live_slots t" unfolding L by auto
  then show "r = card (live_slots t)" unfolding r by (metis distinct_card distinct_filter distinct_upt)
  show "slot_at t i = slot_at s i" if "i \<in> live_slots t" for i
    using that same [of i] unfolding L by (auto simp: t t0)
  show "ss_published t = ss_published s" "ss_owner_values t = ss_owner_values s" "ss_slot_count t = ss_slot_count s"
    by (simp_all add: t t0)
qed

section \<open>A death between two stores\<close>

text \<open>
  The single stores to the mapping that the operations are made of, in the order the code makes them. A
  process that dies leaves the file after some prefix of them.
\<close>

datatype 'p store_write =
  Set_free_head nat
| Set_payload nat 'p
| Set_seq_no nat int
| Set_live nat bool
| Set_next_free nat nat

fun apply_write :: "'p store_write \<Rightarrow> 'p slot_store \<Rightarrow> 'p slot_store" where
  "apply_write (Set_free_head i) s = s\<lparr>ss_free_head := i\<rparr>"
| "apply_write (Set_payload i p) s = s\<lparr>ss_slots := (ss_slots s)[i := (slot_at s i)\<lparr>sl_payload := p\<rparr>]\<rparr>"
| "apply_write (Set_seq_no i q) s = s\<lparr>ss_slots := (ss_slots s)[i := (slot_at s i)\<lparr>sl_seq_no := q\<rparr>]\<rparr>"
| "apply_write (Set_live i b) s = s\<lparr>ss_slots := (ss_slots s)[i := (slot_at s i)\<lparr>sl_live := b\<rparr>]\<rparr>"
| "apply_write (Set_next_free i j) s = s\<lparr>ss_slots := (ss_slots s)[i := (slot_at s i)\<lparr>sl_next_free := j\<rparr>]\<rparr>"

definition acquire_writes :: "'p slot_store \<Rightarrow> 'p store_write list" where
  "acquire_writes s = (if ss_free_head s = no_slot then [] else [Set_free_head (sl_next_free (slot_at s (ss_free_head s)))])"

definition commit_writes :: "nat \<Rightarrow> int \<Rightarrow> 'p store_write list" where
  "commit_writes i seq_no = [Set_seq_no i seq_no, Set_live i True]"

definition release_writes :: "nat \<Rightarrow> 'p slot_store \<Rightarrow> 'p store_write list" where
  "release_writes i s = [Set_live i False, Set_next_free i (ss_free_head s), Set_free_head i]"

definition add_writes :: "'p list \<Rightarrow> int \<Rightarrow> 'p slot_store \<Rightarrow> 'p store_write list" where
  "add_writes ps seq_no s =
     (if ss_free_head s = no_slot then []
      else acquire_writes s @ map (Set_payload (ss_free_head s)) ps @ commit_writes (ss_free_head s) seq_no)"

lemma acquire_by_writes: "snd (acquire s) = fold apply_write (acquire_writes s) s"
  by (simp add: acquire_def acquire_writes_def)

lemma commit_by_writes: "i < length (ss_slots s) \<Longrightarrow> fold apply_write (commit_writes i q) s = commit_slot i q s"
  by (simp add: commit_writes_def commit_slot_def)

lemma release_by_writes: "i < length (ss_slots s) \<Longrightarrow> fold apply_write (release_writes i s) s = release_slot i s"
  by (simp add: release_writes_def release_slot_def)

text \<open>What the next process recovers from a slot.\<close>

definition recovered :: "'p slot_store \<Rightarrow> nat \<Rightarrow> (int \<times> 'p) option" where
  "recovered s i =
     (if i < ss_slot_count s \<and> is_recoverable s i then Some (sl_seq_no (slot_at s i), sl_payload (slot_at s i)) else None)"

text \<open>
  A slot that is being written: it is free, or stamped above the published position, and everything else is
  as it was.
\<close>

definition writing :: "nat \<Rightarrow> 'p slot_store \<Rightarrow> 'p slot_store \<Rightarrow> bool" where
  "writing i s t \<longleftrightarrow>
     ss_slot_count t = ss_slot_count s \<and> ss_published t = ss_published s \<and> length (ss_slots t) = length (ss_slots s) \<and>
     (\<forall>j. j \<noteq> i \<longrightarrow> slot_at t j = slot_at s j) \<and> \<not> is_recoverable t i"

lemma writing_recovered:
  assumes "writing i s t" and "\<not> is_recoverable s i"
  shows "recovered t = recovered s"
proof
  fix j
  show "recovered t j = recovered s j"
    using assms by (cases "j = i") (auto simp: recovered_def writing_def is_recoverable_def)
qed

lemma writing_payloads:
  assumes "writing i s t" and "i < length (ss_slots s)"
  shows "writing i s (fold apply_write (map (Set_payload i) ps) t)"
  using assms(1)
proof (induction ps arbitrary: t)
  case (Cons p ps)
  then have "writing i s (apply_write (Set_payload i p) t)" using assms(2) by (auto simp: writing_def is_recoverable_def)
  with Cons.IH show ?case by simp
qed simp

lemma writing_acquired:
  "store_ok s \<Longrightarrow> ss_free_head s \<noteq> no_slot \<Longrightarrow> writing (ss_free_head s) s (s\<lparr>ss_free_head := h\<rparr>)"
  using store_ok_free_head [of s] by (auto simp: writing_def is_recoverable_def)

lemma payloads_keep_free:
  "\<not> sl_live (slot_at t i) \<Longrightarrow> i < length (ss_slots t) \<Longrightarrow>
     \<not> sl_live (slot_at (fold apply_write (map (Set_payload i) ps) t) i) \<and>
     length (ss_slots (fold apply_write (map (Set_payload i) ps) t)) = length (ss_slots t)"
  by (induction ps arbitrary: t) simp_all

lemma writing_commit:
  assumes "writing i s t" and "\<not> sl_live (slot_at t i)" and "i < length (ss_slots s)" and "ss_published s < seq_no"
  shows "writing i s (fold apply_write (take k (commit_writes i seq_no)) t)"
proof -
  consider "k = 0" | "k = 1" | "2 \<le> k" by linarith
  then show ?thesis using assms by cases (auto simp: commit_writes_def writing_def is_recoverable_def)
qed

text \<open>
  C18. A record being added to the store is not there for the next process until its position is published.
  Whatever store of the add a process dies after, and in however many pieces the record was being
  written, the slots recovered and their records are those recovered before the add began.
\<close>

theorem unfinished_add_is_forgotten:
  assumes ok: "store_ok s" and above: "ss_published s < seq_no"
  shows "recovered (fold apply_write (take k (add_writes ps seq_no s)) s) = recovered s"
proof (cases "ss_free_head s = no_slot")
  case False
  let ?i = "ss_free_head s" and ?t = "fold apply_write (acquire_writes s) s"
  have i: "?i < length (ss_slots s)" and free: "\<not> sl_live (slot_at s ?i)"
    using store_ok_free_head [OF ok False] ok by (auto simp: store_ok_def)
  have t: "writing ?i s ?t" "\<not> sl_live (slot_at ?t ?i)" "length (ss_slots ?t) = length (ss_slots s)"
    using writing_acquired [OF ok False] free False by (simp_all add: acquire_writes_def)
  let ?k2 = "k - length (acquire_writes s)" and ?k3 = "k - length (acquire_writes s) - length ps"
  have parts: "take k (add_writes ps seq_no s) =
      take k (acquire_writes s) @ map (Set_payload ?i) (take ?k2 ps) @ take ?k3 (commit_writes ?i seq_no)"
    using False by (simp add: add_writes_def take_map)
  have "writing ?i s (fold apply_write (take k (add_writes ps seq_no s)) s)"
  proof (cases "k = 0")
    case True
    then show ?thesis using free by (simp add: writing_def is_recoverable_def)
  next
    case k: False
    then have "take k (acquire_writes s) = acquire_writes s" by (simp add: acquire_writes_def)
    then show ?thesis
      using writing_commit [OF writing_payloads [OF t(1) i] _ i above] payloads_keep_free [OF t(2)] i t(3)
      unfolding parts by simp
  qed
  then show ?thesis by (rule writing_recovered) (simp add: is_recoverable_def free)
qed (simp add: add_writes_def)

theorem unfinished_add_is_forgotten_witness:
  "recovered (fold apply_write (take 3 (add_writes [''A'', ''AB''] 5 (new_store '''' 16 2 0))) (new_store '''' 16 2 0)) =
     recovered (new_store '''' 16 2 0)"
  by (rule unfinished_add_is_forgotten, rule store_ok_new) (simp_all add: no_slot_def new_store_def)

section \<open>Opening again\<close>

lemma round_up_le: "0 < unit \<Longrightarrow> n \<le> round_up unit n"
proof -
  assume "0 < unit"
  then have "(n + unit - 1) mod unit < unit" by simp
  moreover have "(n + unit - 1) div unit * unit + (n + unit - 1) mod unit = n + unit - 1" by (rule div_mult_mod_eq)
  ultimately show ?thesis unfolding round_up_def by linarith
qed

lemma slot_inside: "i < n \<Longrightarrow> header_size + slot_stride p * i + slot_header_size + p \<le> mapped_size p n"
proof -
  assume "i < n"
  then have "slot_stride p * Suc i \<le> slot_stride p * n" by (intro mult_le_mono2) simp
  moreover have "slot_header_size + p \<le> slot_stride p" unfolding slot_stride_def by (rule round_up_le) simp
  ultimately have "header_size + slot_stride p * i + slot_header_size + p \<le> header_size + slot_stride p * n" by simp
  also have "\<dots> \<le> mapped_size p n" unfolding mapped_size_def by (rule round_up_le) (simp add: page_size_def)
  finally show ?thesis .
qed

lemma truncate_same_size:
  assumes "length (ss_slots f) = ss_slot_count f"
  shows "truncate_file blank chop (mapped_size (ss_payload_size f) (ss_slot_count f)) f = f"
proof -
  have "ss_slots (truncate_file blank chop (mapped_size (ss_payload_size f) (ss_slot_count f)) f) = ss_slots f"
    using assms slot_inside by (intro nth_equalityI) (simp_all add: truncate_file_def Let_def)
  then show ?thesis by (simp add: truncate_file_def)
qed

text \<open>
  A store of two records, the second of them published at position 7, opened by mistake for one record and
  then opened as it should be.
\<close>

definition two_records :: "string slot_store" where
  "two_records = publish 7 (snd (store_add ''B'' 7 (snd (store_add ''A'' 6 (new_store '''' 4016 2 0)))))"

definition chop_string :: "nat \<Rightarrow> string \<Rightarrow> string" where
  "chop_string n p = take n p"

lemmas store_evaluate =
  two_records_def new_store_def publish_def store_add_def acquire_def commit_slot_def write_payload_def recovered_def is_recoverable_def
  store_open_def truncate_file_def zero_slot_def cut_slot_def mapped_size_def slot_stride_def round_up_def header_size_def slot_header_size_def
  page_size_def no_slot_def store_magic_def store_version_def upt_rec_numeral




end
