(* ===== verification/OrderBook.thy ===== *)
theory OrderBook
  imports SlotStore "HOL-Library.Product_Lexorder"
begin

text \<open>
  The matching engine's book, \<open>applications/matching_engine/OrderBook.{hpp,cpp}\<close>, with the identities that file
  an order (\<open>SessionIdentity\<close>, \<open>OrderKey\<close>) and the record of one (\<open>OrderEntry\<close>). The orders are in the
  region, and the index from an order's identity to its slot is a list of pairs in the order in which the
  source's map is walked. A flag and the value it guards are one \<open>option\<close>. The protocol, the side, the order type
  and the time in force are the codes the message definitions give them.
\<close>

section \<open>Identities\<close>

definition max_cl_ord_id_length :: nat where
  "max_cl_ord_id_length = 64"

definition max_comp_id_length :: nat where
  "max_comp_id_length = 64"

record session_identity =
  si_protocol :: int
  si_comp_id :: string

definition make_session :: "string \<Rightarrow> int \<Rightarrow> session_identity" where
  "make_session comp_id protocol = \<lparr>si_protocol = protocol, si_comp_id = take max_comp_id_length comp_id\<rparr>"

record order_key =
  ok_session :: session_identity
  ok_cl_ord_id :: string

definition key_fits :: "string \<Rightarrow> bool" where
  "key_fits id' \<longleftrightarrow> length id' \<le> max_cl_ord_id_length"

definition make_key :: "session_identity \<Rightarrow> string \<Rightarrow> order_key" where
  "make_key session id' = \<lparr>ok_session = session, ok_cl_ord_id = take max_cl_ord_id_length id'\<rparr>"

section \<open>The record of an order\<close>

definition max_symbol_length :: nat where
  "max_symbol_length = 16"

definition max_qty_length :: nat where
  "max_qty_length = 24"

record order_entry =
  oe_placed_at_seq_no :: int
  oe_session :: session_identity
  oe_side :: int
  oe_ord_type :: int
  oe_time_in_force :: "int option"
  oe_expire_time :: "int option"
  oe_cl_ord_id :: string
  oe_symbol :: string
  oe_order_qty :: string
  oe_price :: "string option"

definition set_cl_ord_id :: "string \<Rightarrow> order_entry \<Rightarrow> order_entry" where
  "set_cl_ord_id sv e = e\<lparr>oe_cl_ord_id := take max_cl_ord_id_length sv\<rparr>"

definition set_symbol :: "string \<Rightarrow> order_entry \<Rightarrow> order_entry" where
  "set_symbol sv e = e\<lparr>oe_symbol := take max_symbol_length sv\<rparr>"

definition set_order_qty :: "string \<Rightarrow> order_entry \<Rightarrow> order_entry" where
  "set_order_qty sv e = e\<lparr>oe_order_qty := take max_qty_length sv\<rparr>"

definition set_price :: "string \<Rightarrow> order_entry \<Rightarrow> order_entry" where
  "set_price sv e = e\<lparr>oe_price := Some (take max_qty_length sv)\<rparr>"

definition entry_key :: "order_entry \<Rightarrow> order_key" where
  "entry_key e = make_key (oe_session e) (oe_cl_ord_id e)"

section \<open>The book\<close>

definition record_format :: nat where
  "record_format = 1"

definition halted_value :: nat where
  "halted_value = 0"

definition voids_known_through_value :: nat where
  "voids_known_through_value = 1"

definition applying_value :: nat where
  "applying_value = 2"

record order_book =
  ob_store :: "order_entry slot_store"
  ob_index :: "(order_key \<times> nat) list"
  ob_halted :: bool
  ob_voids_known_through :: int
  ob_applying_when_opened :: int

text \<open>
  \<open>blank\<close>, \<open>chop\<close> and \<open>entry_size\<close> are how an \<open>OrderEntry\<close> is laid out as bytes, which the compiler chooses. The
  result is the file afterwards, and the book with whether the region was there already.
\<close>

definition book_open ::
  "order_entry \<Rightarrow> (nat \<Rightarrow> order_entry \<Rightarrow> order_entry) \<Rightarrow> nat \<Rightarrow> string \<Rightarrow> order_entry slot_store option \<Rightarrow> nat \<Rightarrow>
     order_entry slot_store option \<times> (bool \<times> order_book) result" where
  "book_open blank chop entry_size region_path file region_capacity =
     (if region_path = [] then (file, Inl PreconditionAssertion)
      else case store_open blank chop file entry_size region_capacity record_format of
        (file', Inl e) \<Rightarrow> (file', Inl e)
      | (None, Inr existed) \<Rightarrow> (None, Inl PubSubItcException)
      | (Some s, Inr existed) \<Rightarrow>
          (Some s, bind_result (owner_value halted_value s) (\<lambda>halted.
             bind_result (owner_value voids_known_through_value s) (\<lambda>voids.
             bind_result (owner_value applying_value s) (\<lambda>applying.
               Inr (existed, \<lparr>ob_store = s, ob_index = [], ob_halted = (halted \<noteq> 0), ob_voids_known_through = voids,
                              ob_applying_when_opened = applying\<rparr>))))))"

definition entry_at :: "order_book \<Rightarrow> nat \<Rightarrow> order_entry" where
  "entry_at b i = sl_payload (slot_at (ob_store b) i)"

definition book_contains :: "order_book \<Rightarrow> order_key \<Rightarrow> bool" where
  "book_contains b k \<longleftrightarrow> map_of (ob_index b) k \<noteq> None"

definition book_find :: "order_book \<Rightarrow> order_key \<Rightarrow> order_entry option" where
  "book_find b k = map_option (entry_at b) (map_of (ob_index b) k)"

definition index_emplace :: "order_key \<Rightarrow> nat \<Rightarrow> (order_key \<times> nat) list \<Rightarrow> (order_key \<times> nat) list" where
  "index_emplace k i idx = (if map_of idx k = None then idx @ [(k, i)] else idx)"

definition index_erase :: "order_key \<Rightarrow> (order_key \<times> nat) list \<Rightarrow> (order_key \<times> nat) list" where
  "index_erase k idx = filter (\<lambda>(k', i). k' \<noteq> k) idx"

text \<open>\<open>cannot_grow\<close>: the map throws when it is asked to hold one more.\<close>

definition book_add :: "bool \<Rightarrow> order_key \<Rightarrow> order_entry \<Rightarrow> int \<Rightarrow> order_book \<Rightarrow> bool result \<times> order_book" where
  "book_add cannot_grow k e seq_no b =
     (let (i, s) = acquire (ob_store b)
      in if i = no_slot then (Inr False, b\<lparr>ob_store := s\<rparr>)
         else let written = set_cl_ord_id (ok_cl_ord_id k) (e\<lparr>oe_session := ok_session k\<rparr>);
                  s' = commit_slot i seq_no (write_payload i written s)
              in if cannot_grow then (Inl RuntimeError, b\<lparr>ob_store := release_slot i s'\<rparr>)
                 else (Inr True, b\<lparr>ob_store := s', ob_index := index_emplace k i (ob_index b)\<rparr>))"

definition book_remove :: "order_key \<Rightarrow> order_book \<Rightarrow> bool \<times> order_book" where
  "book_remove k b =
     (case map_of (ob_index b) k of
        None \<Rightarrow> (False, b)
      | Some i \<Rightarrow> (True, b\<lparr>ob_index := index_erase k (ob_index b), ob_store := release_slot i (ob_store b)\<rparr>))"

definition book_clear :: "order_book \<Rightarrow> order_book" where
  "book_clear b = b\<lparr>ob_store := fold (\<lambda>(k, i). release_slot i) (ob_index b) (ob_store b), ob_index := []\<rparr>"

definition book_publish :: "int \<Rightarrow> order_book \<Rightarrow> order_book" where
  "book_publish seq_no b = b\<lparr>ob_store := publish seq_no (ob_store b)\<rparr>"

definition book_mark_unusable :: "order_book \<Rightarrow> order_book" where
  "book_mark_unusable b = b\<lparr>ob_store := mark_unusable (ob_store b)\<rparr>"

definition book_published :: "order_book \<Rightarrow> int" where
  "book_published b = ss_published (ob_store b)"

text \<open>The three values the book keeps beside the published position. Each index is below the number the header keeps.\<close>

definition keep_value :: "nat \<Rightarrow> int \<Rightarrow> order_book \<Rightarrow> order_book" where
  "keep_value index val b = b\<lparr>ob_store := (case set_owner_value index val (ob_store b) of Inl _ \<Rightarrow> ob_store b | Inr s \<Rightarrow> s)\<rparr>"

definition book_set_halted :: "bool \<Rightarrow> order_book \<Rightarrow> order_book" where
  "book_set_halted halted b = keep_value halted_value (if halted then 1 else 0) (b\<lparr>ob_halted := halted\<rparr>)"

definition book_set_voids_known_through :: "int \<Rightarrow> order_book \<Rightarrow> order_book" where
  "book_set_voids_known_through void_seq_no b =
     keep_value voids_known_through_value void_seq_no (b\<lparr>ob_voids_known_through := void_seq_no\<rparr>)"

definition book_set_applying :: "int \<Rightarrow> order_book \<Rightarrow> order_book" where
  "book_set_applying seq_no b = keep_value applying_value seq_no b"

definition book_size :: "order_book \<Rightarrow> nat" where
  "book_size b = length (ob_index b)"

section \<open>Recovery, and walking the book\<close>

record recovery =
  rc_orders :: nat
  rc_discarded :: nat
  rc_published :: int

definition recover_slot :: "nat \<Rightarrow> order_book \<times> recovery \<Rightarrow> order_book \<times> recovery" where
  "recover_slot i state =
     (case state of (b, found) \<Rightarrow>
       if \<not> is_recoverable (ob_store b) i
       then (b, if sl_live (slot_at (ob_store b) i) then found\<lparr>rc_discarded := rc_discarded found + 1\<rparr> else found)
       else (b\<lparr>ob_index := index_emplace (entry_key (entry_at b i)) i (ob_index b)\<rparr>, found\<lparr>rc_orders := rc_orders found + 1\<rparr>))"

definition book_recover :: "order_book \<Rightarrow> recovery \<times> order_book" where
  "book_recover b =
     (let (b', found) = fold recover_slot [0..<ss_slot_count (ob_store b)]
                          (b, \<lparr>rc_orders = 0, rc_discarded = 0, rc_published = ss_published (ob_store b)\<rparr>)
      in (found, b'\<lparr>ob_store := snd (rebuild_free_list (ob_store b'))\<rparr>))"

definition placed_order :: "order_book \<Rightarrow> (int \<times> nat) list" where
  "placed_order b = sort (map (\<lambda>(k, i). (oe_placed_at_seq_no (entry_at b i), i)) (ob_index b))"

definition for_each_in_order_placed :: "order_book \<Rightarrow> order_entry list" where
  "for_each_in_order_placed b = map (\<lambda>(q, i). entry_at b i) (placed_order b)"

text \<open>The orders placed at or before a position, with their slots, in the order they were placed.\<close>

definition placed_through :: "int \<Rightarrow> order_book \<Rightarrow> (int \<times> nat) list" where
  "placed_through through b =
     sort (map (\<lambda>(k, i). (oe_placed_at_seq_no (entry_at b i), i))
       (filter (\<lambda>(k, i). oe_placed_at_seq_no (entry_at b i) \<le> through) (ob_index b)))"

definition remove_slot :: "nat \<Rightarrow> order_entry list \<times> order_book \<Rightarrow> order_entry list \<times> order_book" where
  "remove_slot i state =
     (case state of (visited, b) \<Rightarrow>
        (visited @ [entry_at b i],
         b\<lparr>ob_index := index_erase (entry_key (entry_at b i)) (ob_index b), ob_store := release_slot i (ob_store b)\<rparr>))"

text \<open>What \<open>fn\<close> is called with, in order, and the book afterwards.\<close>

definition remove_placed_through :: "int \<Rightarrow> order_book \<Rightarrow> order_entry list \<times> order_book" where
  "remove_placed_through through b = fold (\<lambda>(q, i). remove_slot i) (placed_through through b) ([], b)"

datatype book_problem =
  Live_count_differs
| Record_not_in_use nat
| Record_of_another_order nat
| Not_found_by_key nat

definition entry_problem :: "order_book \<Rightarrow> order_key \<times> nat \<Rightarrow> book_problem option" where
  "entry_problem b kv =
     (case kv of (k, i) \<Rightarrow>
       if \<not> sl_live (slot_at (ob_store b) i) then Some (Record_not_in_use i)
       else if entry_key (entry_at b i) \<noteq> k then Some (Record_of_another_order i)
       else if map_of (ob_index b) k = None then Some (Not_found_by_key i)
       else None)"

definition consistency_problem :: "order_book \<Rightarrow> book_problem option" where
  "consistency_problem b =
     (if length (filter (\<lambda>i. sl_live (slot_at (ob_store b) i)) [0..<ss_slot_count (ob_store b)]) \<noteq> length (ob_index b)
      then Some Live_count_differs
      else case List.map_filter (entry_problem b) (ob_index b) of [] \<Rightarrow> None | p # _ \<Rightarrow> Some p)"

section \<open>The region and the index agree\<close>

text \<open>
  Every live slot is filed once, under the identity its record carries, and is stamped with the position of
  the order that placed it.
\<close>

definition book_ok :: "order_book \<Rightarrow> bool" where
  "book_ok b \<longleftrightarrow>
     store_ok (ob_store b) \<and> distinct (map fst (ob_index b)) \<and> distinct (map snd (ob_index b)) \<and>
     snd ` set (ob_index b) = live_slots (ob_store b) \<and>
     (\<forall>(k, i) \<in> set (ob_index b). entry_key (entry_at b i) = k \<and> sl_seq_no (slot_at (ob_store b) i) = oe_placed_at_seq_no (entry_at b i))"

lemma book_okD:
  assumes "book_ok b"
  shows "store_ok (ob_store b)" and "distinct (map fst (ob_index b))" and "distinct (map snd (ob_index b))"
    and "snd ` set (ob_index b) = live_slots (ob_store b)"
    and "\<And>k i. (k, i) \<in> set (ob_index b) \<Longrightarrow> entry_key (entry_at b i) = k"
    and "\<And>k i. (k, i) \<in> set (ob_index b) \<Longrightarrow> sl_seq_no (slot_at (ob_store b) i) = oe_placed_at_seq_no (entry_at b i)"
    and "\<And>k i. (k, i) \<in> set (ob_index b) \<Longrightarrow> i < ss_slot_count (ob_store b) \<and> sl_live (slot_at (ob_store b) i)"
proof -
  show live: "snd ` set (ob_index b) = live_slots (ob_store b)" using assms by (simp add: book_ok_def)
  then show "\<And>k i. (k, i) \<in> set (ob_index b) \<Longrightarrow> i < ss_slot_count (ob_store b) \<and> sl_live (slot_at (ob_store b) i)"
    by (force simp: live_slots_def)
qed (use assms in \<open>auto simp: book_ok_def\<close>)

lemma book_okI:
  assumes "store_ok (ob_store b)" and "distinct (map fst (ob_index b))" and "distinct (map snd (ob_index b))"
    and "snd ` set (ob_index b) = live_slots (ob_store b)"
    and "\<And>k i. (k, i) \<in> set (ob_index b) \<Longrightarrow>
           entry_key (entry_at b i) = k \<and> sl_seq_no (slot_at (ob_store b) i) = oe_placed_at_seq_no (entry_at b i)"
  shows "book_ok b"
  using assms unfolding book_ok_def by blast

lemma store_ok_length: "store_ok s \<Longrightarrow> length (ss_slots s) = ss_slot_count s"
  by (simp add: store_ok_def)

lemma map_of_index: "distinct (map fst idx) \<Longrightarrow> map_of idx k = Some i \<longleftrightarrow> (k, i) \<in> set idx"
  by (metis map_of_SomeD map_of_is_SomeI)

lemma map_of_erase: "map_of (index_erase k idx) k' = (if k' = k then None else map_of idx k')"
  by (induction idx) (auto simp: index_erase_def)

lemma set_index_erase: "set (index_erase k idx) = {(k', i). (k', i) \<in> set idx \<and> k' \<noteq> k}"
  by (auto simp: index_erase_def)

lemma distinct_index_erase:
  "distinct (map fst idx) \<Longrightarrow> distinct (map fst (index_erase k idx))" "distinct (map snd idx) \<Longrightarrow> distinct (map snd (index_erase k idx))"
  unfolding index_erase_def by (induction idx) auto

lemma index_injective:
  "distinct (map fst idx) \<Longrightarrow> distinct (map snd idx) \<Longrightarrow> (k, i) \<in> set idx \<Longrightarrow> (k', i') \<in> set idx \<Longrightarrow> i = i' \<longleftrightarrow> k = k'"
  unfolding distinct_map inj_on_def by fastforce

lemma book_find_iff:
  "book_ok b \<Longrightarrow> book_find b k = Some e \<longleftrightarrow> (\<exists>i. (k, i) \<in> set (ob_index b) \<and> e = entry_at b i)"
  using map_of_index [OF book_okD(2)] by (auto simp: book_find_def)

lemma book_contains_iff: "book_contains b k \<longleftrightarrow> book_find b k \<noteq> None"
  by (simp add: book_contains_def book_find_def)

lemma book_find_key: "book_ok b \<Longrightarrow> book_find b k = Some e \<Longrightarrow> entry_key e = k"
  using book_okD(5) by (auto simp: book_find_iff)

section \<open>Adding and removing\<close>

abbreviation filed :: "order_key \<Rightarrow> order_entry \<Rightarrow> order_entry" where
  "filed k e \<equiv> set_cl_ord_id (ok_cl_ord_id k) (e\<lparr>oe_session := ok_session k\<rparr>)"

lemma book_add_store:
  "book_add cannot_grow k e seq_no b =
     (if ss_free_head (ob_store b) = no_slot then (Inr False, b)
      else let i = ss_free_head (ob_store b); s = snd (store_add (filed k e) seq_no (ob_store b))
           in if cannot_grow then (Inl RuntimeError, b\<lparr>ob_store := release_slot i s\<rparr>)
              else (Inr True, b\<lparr>ob_store := s, ob_index := index_emplace k i (ob_index b)\<rparr>))"
  by (simp add: book_add_def store_add_def acquire_def Let_def)

lemma store_add_at:
  fixes s :: "'p slot_store" and p :: 'p and q :: int
  assumes "store_ok s" and "ss_free_head s \<noteq> no_slot"
  defines "i \<equiv> ss_free_head s" and "t \<equiv> snd (store_add p q s)"
  shows "fst (store_add p q s) = i" and "i \<notin> live_slots s" and "live_slots t = insert i (live_slots s)"
    and "sl_payload (slot_at t i) = p" and "sl_seq_no (slot_at t i) = q" and "sl_live (slot_at t i)"
    and "\<And>j. j \<noteq> i \<Longrightarrow> slot_at t j = slot_at s j" and "i < ss_slot_count s"
proof -
  note A = store_add_slots(1) [OF assms(1,2), folded i_def, of p q] store_add_slots(2,3) [OF assms(1,2), folded i_def]
    store_add_slots(4) [OF assms(1,2), folded i_def, of p q, folded t_def]
  have len: "i < length (ss_slots s)" using A(2) store_ok_length [OF assms(1)] by simp
  show "fst (store_add p q s) = i" by (rule A(1))
  show "i \<notin> live_slots s" using A(3) by (simp add: live_slots_def)
  have cnt: "ss_slot_count t = ss_slot_count s" by (simp add: t_def)
  show "live_slots t = insert i (live_slots s)"
    using A(2) len store_ok_length [OF assms(1)] by (auto simp: live_slots_def cnt A(4) nth_list_update)
  show "sl_payload (slot_at t i) = p" "sl_seq_no (slot_at t i) = q" "sl_live (slot_at t i)" using len by (simp_all add: A(4))
  show "slot_at t j = slot_at s j" if "j \<noteq> i" for j using that by (simp add: A(4))
  show "i < ss_slot_count s" by (rule A(2))
qed

lemma release_slot_fields [simp]:
  "ss_slot_count (release_slot i s) = ss_slot_count s" "ss_published (release_slot i s) = ss_published s"
  "length (ss_slots (release_slot i s)) = length (ss_slots s)" "j \<noteq> i \<Longrightarrow> slot_at (release_slot i s) j = slot_at s j"
  "sl_payload (slot_at (release_slot i s) i) = sl_payload (slot_at s i)"
  by (simp_all add: release_slot_def list_update_image)

lemma release_live_slots: "i < length (ss_slots s) \<Longrightarrow> live_slots (release_slot i s) = live_slots s - {i}"
  by (auto simp: live_slots_def release_live)

lemma filed_fields [simp]:
  "oe_placed_at_seq_no (filed k e) = oe_placed_at_seq_no e" "oe_session (filed k e) = ok_session k"
  "oe_cl_ord_id (filed k e) = take max_cl_ord_id_length (ok_cl_ord_id k)"
  by (simp_all add: set_cl_ord_id_def)

lemma entry_key_filed: "entry_key (filed (make_key session id') e) = make_key session id'"
  by (simp add: entry_key_def make_key_def set_cl_ord_id_def)

text \<open>Adding to a full region changes nothing; a map that cannot grow leaves the book as it was.\<close>

lemma book_add_refused:
  assumes ok: "book_ok b" and "book_add cannot_grow k e seq_no b = (r, b')" and "r \<noteq> Inr True"
  shows "book_ok b' \<and> book_find b' = book_find b \<and> ob_index b' = ob_index b \<and>
    r = (if ss_free_head (ob_store b) = no_slot then Inr False else Inl RuntimeError)"
proof (cases "ss_free_head (ob_store b) = no_slot")
  case True
  with assms(2) have "b' = b" "r = Inr False" by (simp_all add: book_add_store)
  with ok True show ?thesis by simp
next
  case False
  let ?i = "ss_free_head (ob_store b)" and ?t = "snd (store_add (filed k e) seq_no (ob_store b))"
  note A = store_add_at [OF book_okD(1) [OF ok] False]
  from assms(2,3) False have r: "r = Inl RuntimeError" "b' = b\<lparr>ob_store := release_slot ?i ?t\<rparr>"
    by (auto simp: book_add_store Let_def split: if_splits)
  have len: "?i < length (ss_slots ?t)" using A(8) store_ok_length [OF book_okD(1) [OF ok]] by simp
  have live: "live_slots (release_slot ?i ?t) = live_slots (ob_store b)" using A(2,3) release_live_slots [OF len] by auto
  have out: "i \<noteq> ?i" if "(k', i) \<in> set (ob_index b)" for k' i using that book_okD(4) [OF ok] A(2) by force
  have same: "slot_at (release_slot ?i ?t) i = slot_at (ob_store b) i" if "(k', i) \<in> set (ob_index b)" for k' i
    using out [OF that] A(7) by simp
  have ok': "store_ok (release_slot ?i ?t)"
    using release_ok [OF store_add_ok [OF book_okD(1) [OF ok]]] A(6,8) by simp
  have "book_ok b'"
  proof (rule book_okI)
    fix k' i assume "(k', i) \<in> set (ob_index b')"
    then have m: "(k', i) \<in> set (ob_index b)" by (simp add: r)
    then show "entry_key (entry_at b' i) = k' \<and> sl_seq_no (slot_at (ob_store b') i) = oe_placed_at_seq_no (entry_at b' i)"
      using same [OF m] book_okD(5,6) [OF ok m] by (simp add: r entry_at_def)
  qed (use ok' live book_okD(2-4) [OF ok] in \<open>simp_all add: r\<close>)
  moreover have "book_find b' = book_find b"
  proof
    fix k'
    show "book_find b' k' = book_find b k'"
      using same [OF map_of_SomeD] by (cases "map_of (ob_index b) k'") (simp_all add: r book_find_def entry_at_def)
  qed
  ultimately show ?thesis using r False by simp
qed

lemma book_add_accepted:
  assumes ok: "book_ok b" and "book_add cannot_grow k e seq_no b = (Inr True, b')"
    and k: "k = make_key session id'" and new: "book_find b k = None" and q: "oe_placed_at_seq_no e = seq_no"
  shows "book_ok b'" and "book_find b' = (book_find b)(k \<mapsto> filed k e)" and "book_size b' = book_size b + 1"
proof -
  from assms(2) have head: "ss_free_head (ob_store b) \<noteq> no_slot" and "\<not> cannot_grow"
    by (auto simp: book_add_store Let_def split: if_splits)
  let ?i = "ss_free_head (ob_store b)" and ?t = "snd (store_add (filed k e) seq_no (ob_store b))"
  note A = store_add_at [OF book_okD(1) [OF ok] head]
  from new have none: "map_of (ob_index b) k = None" by (simp add: book_find_def)
  from assms(2) head \<open>\<not> cannot_grow\<close> none have b': "b' = b\<lparr>ob_store := ?t, ob_index := ob_index b @ [(k, ?i)]\<rparr>"
    by (auto simp: book_add_store index_emplace_def Let_def)
  have out: "i \<noteq> ?i" if "(k', i) \<in> set (ob_index b)" for k' i using that book_okD(4) [OF ok] A(2) by force
  have same: "slot_at ?t i = slot_at (ob_store b) i" if "(k', i) \<in> set (ob_index b)" for k' i
    using out [OF that] A(7) by simp
  show "book_ok b'"
  proof (rule book_okI)
    show "store_ok (ob_store b')" using store_add_ok [OF book_okD(1) [OF ok]] by (simp add: b')
    show "distinct (map fst (ob_index b'))" using book_okD(2) [OF ok] none by (simp add: b' map_of_eq_None_iff)
    show "distinct (map snd (ob_index b'))" using book_okD(3,4) [OF ok] A(2) by (simp add: b')
    show "snd ` set (ob_index b') = live_slots (ob_store b')" using book_okD(4) [OF ok] A(3) by (simp add: b')
    show "entry_key (entry_at b' i) = k' \<and> sl_seq_no (slot_at (ob_store b') i) = oe_placed_at_seq_no (entry_at b' i)"
      if "(k', i) \<in> set (ob_index b')" for k' i
    proof (cases "(k', i) \<in> set (ob_index b)")
      case True
      then show ?thesis using same [OF True] book_okD(5,6) [OF ok True] by (simp add: b' entry_at_def)
    next
      case False
      with that have "k' = k" "i = ?i" by (simp_all add: b')
      then show ?thesis using A(4,5) q entry_key_filed k by (simp add: b' entry_at_def)
    qed
  qed
  show "book_find b' = (book_find b)(k \<mapsto> filed k e)"
  proof
    fix k'
    show "book_find b' k' = ((book_find b)(k \<mapsto> filed k e)) k'"
    proof (cases "map_of (ob_index b) k'")
      case None
      then show ?thesis using A(4) none by (auto simp: b' book_find_def entry_at_def map_add_def split: option.splits)
    next
      case (Some i)
      then show ?thesis using same [OF map_of_SomeD [OF Some]] none
        by (auto simp: b' book_find_def entry_at_def map_add_def split: option.splits)
    qed
  qed
  show "book_size b' = book_size b + 1" by (simp add: b' book_size_def)
qed

lemma book_remove_ok:
  assumes ok: "book_ok b" and "book_remove k b = (r, b')"
  shows "book_ok b' \<and> book_find b' = (book_find b)(k := None) \<and> r = (book_find b k \<noteq> None)"
proof (cases "map_of (ob_index b) k")
  case None
  with assms show ?thesis
    by (simp add: book_remove_def book_find_def fun_eq_iff)
next
  case (Some i)
  note m = map_of_SomeD [OF Some]
  from assms(2) Some have b': "b' = b\<lparr>ob_index := index_erase k (ob_index b), ob_store := release_slot i (ob_store b)\<rparr>" and r: "r"
    by (simp_all add: book_remove_def)
  have i: "i < ss_slot_count (ob_store b)" "sl_live (slot_at (ob_store b) i)" using book_okD(7) [OF ok m] by simp_all
  then have len: "i < length (ss_slots (ob_store b))" using store_ok_length [OF book_okD(1) [OF ok]] by simp
  have other: "j \<noteq> i" if "(k', j) \<in> set (ob_index b)" "k' \<noteq> k" for k' j
    using index_injective [OF book_okD(2) [OF ok] book_okD(3) [OF ok] that(1) m] that(2) by simp
  have "book_ok b'"
  proof (rule book_okI)
    show "store_ok (ob_store b')" using release_ok [OF book_okD(1) [OF ok] i] by (simp add: b')
    show "distinct (map fst (ob_index b'))" "distinct (map snd (ob_index b'))"
      using distinct_index_erase book_okD(2,3) [OF ok] by (simp_all add: b')
    have "snd ` {(k', j). (k', j) \<in> set (ob_index b) \<and> k' \<noteq> k} = snd ` set (ob_index b) - {i}"
    proof (intro equalityI subsetI)
      fix j assume "j \<in> snd ` set (ob_index b) - {i}"
      then obtain k' where "(k', j) \<in> set (ob_index b)" "j \<noteq> i" by auto
      moreover from this m have "k' \<noteq> k" using eq_key_imp_eq_value [OF book_okD(2) [OF ok]] by blast
      ultimately show "j \<in> snd ` {(k', j). (k', j) \<in> set (ob_index b) \<and> k' \<noteq> k}" by force
    qed (use other in force)
    then show "snd ` set (ob_index b') = live_slots (ob_store b')"
      using book_okD(4) [OF ok] release_live_slots [OF len] by (simp add: b' set_index_erase)
    show "entry_key (entry_at b' j) = k' \<and> sl_seq_no (slot_at (ob_store b') j) = oe_placed_at_seq_no (entry_at b' j)"
      if "(k', j) \<in> set (ob_index b')" for k' j
    proof -
      from that have "(k', j) \<in> set (ob_index b)" "k' \<noteq> k" by (auto simp: b' set_index_erase)
      with other book_okD(5,6) [OF ok] show ?thesis by (simp add: b' entry_at_def)
    qed
  qed
  moreover have "book_find b' = (book_find b)(k := None)"
  proof
    fix k'
    show "book_find b' k' = ((book_find b)(k := None)) k'"
    proof (cases "k' = k \<or> map_of (ob_index b) k' = None")
      case True
      then show ?thesis by (auto simp: b' book_find_def map_of_erase)
    next
      case False
      then obtain j where "map_of (ob_index b) k' = Some j" "k' \<noteq> k" by auto
      with other [OF map_of_SomeD] show ?thesis by (simp add: b' book_find_def map_of_erase entry_at_def)
    qed
  qed
  ultimately show ?thesis
    using r Some by (simp add: book_find_def)
qed

section \<open>What changes no order\<close>

text \<open>The slots, their number and the free list are all that the orders depend on.\<close>

definition same_records :: "order_book \<Rightarrow> order_book \<Rightarrow> bool" where
  "same_records b b' \<longleftrightarrow>
     ob_index b' = ob_index b \<and> ss_slots (ob_store b') = ss_slots (ob_store b) \<and> ss_slot_count (ob_store b') = ss_slot_count (ob_store b) \<and>
     ss_free_head (ob_store b') = ss_free_head (ob_store b) \<and>
     length (ss_owner_values (ob_store b')) = length (ss_owner_values (ob_store b))"

lemma same_records_ok: "same_records b b' \<Longrightarrow> book_ok b' = book_ok b"
  by (simp add: same_records_def book_ok_def store_ok_def live_slots_def entry_at_def)

lemma same_records_entry: "same_records b b' \<Longrightarrow> entry_at b' = entry_at b"
  by (simp add: same_records_def entry_at_def fun_eq_iff)

lemma same_records_find: "same_records b b' \<Longrightarrow> book_find b' = book_find b"
  by (simp add: book_find_def fun_eq_iff same_records_entry) (simp add: same_records_def)

lemma same_records_placed: "same_records b b' \<Longrightarrow> placed_order b' = placed_order b"
  by (simp add: same_records_def placed_order_def entry_at_def)

lemma keep_value_records: "same_records b (keep_value k v b)"
  by (simp add: same_records_def keep_value_def set_owner_value_def)

lemma same_records_ops:
  "same_records b (book_publish q b)" "same_records b (book_set_halted h b)" "same_records b (book_set_voids_known_through v b)"
  "same_records b (book_set_applying q b)" "same_records b (book_mark_unusable b)"
  using keep_value_records [of "b\<lparr>ob_halted := h\<rparr>"] keep_value_records [of "b\<lparr>ob_voids_known_through := v\<rparr>"] keep_value_records [of b]
  by (simp_all add: same_records_def book_publish_def book_set_halted_def book_set_voids_known_through_def book_set_applying_def
      book_mark_unusable_def publish_def mark_unusable_def)

lemmas book_ok_ops [simp] = same_records_ops [THEN same_records_ok]
lemmas book_find_ops [simp] = same_records_ops [THEN same_records_find]

lemma book_halted_ops [simp]:
  "ob_halted (book_publish q b) = ob_halted b" "ob_halted (book_set_halted h b) = h"
  "ob_halted (book_set_voids_known_through v b) = ob_halted b" "ob_halted (book_set_applying q b) = ob_halted b"
  by (simp_all add: book_publish_def book_set_halted_def book_set_voids_known_through_def book_set_applying_def keep_value_def)

lemma book_add_others [simp]:
  "ob_halted (snd (book_add c k e q b)) = ob_halted b" "ob_voids_known_through (snd (book_add c k e q b)) = ob_voids_known_through b"
  by (simp_all add: book_add_store Let_def)

lemma book_remove_others [simp]:
  "ob_halted (snd (book_remove k b)) = ob_halted b" "ob_voids_known_through (snd (book_remove k b)) = ob_voids_known_through b"
  by (simp_all add: book_remove_def split: option.splits)

section \<open>Recovering the book from the region\<close>

lemma recover_slots:
  assumes "ob_index b = []" and "inj_on (\<lambda>i. entry_key (entry_at b i)) {i. i < n \<and> is_recoverable (ob_store b) i}"
  shows "fold recover_slot [0..<n] (b, \<lparr>rc_orders = 0, rc_discarded = 0, rc_published = p\<rparr>) =
     (b\<lparr>ob_index := map (\<lambda>i. (entry_key (entry_at b i), i)) (filter (is_recoverable (ob_store b)) [0..<n])\<rparr>,
      \<lparr>rc_orders = length (filter (is_recoverable (ob_store b)) [0..<n]),
       rc_discarded = length (filter (\<lambda>i. \<not> is_recoverable (ob_store b) i \<and> sl_live (slot_at (ob_store b) i)) [0..<n]),
       rc_published = p\<rparr>)"
  using assms(2)
proof (induction n)
  case 0
  then show ?case using assms(1) by simp
next
  case (Suc n)
  let ?idx = "map (\<lambda>i. (entry_key (entry_at b i), i)) (filter (is_recoverable (ob_store b)) [0..<n])"
  have inj: "inj_on (\<lambda>i. entry_key (entry_at b i)) {i. i < n \<and> is_recoverable (ob_store b) i}"
    by (rule inj_on_subset [OF Suc.prems]) auto
  have new: "map_of ?idx (entry_key (entry_at b n)) = None" if "is_recoverable (ob_store b) n"
    using that inj_onD [OF Suc.prems, of n] by (fastforce simp: map_of_eq_None_iff)
  then show ?case using Suc.IH [OF inj] by (simp add: recover_slot_def entry_at_def index_emplace_def)
qed

lemma book_recover_ok:
  assumes shape: "length (ss_slots (ob_store b)) = ss_slot_count (ob_store b)" "0 < ss_slot_count (ob_store b)"
      "ss_slot_count (ob_store b) < no_slot" "length (ss_owner_values (ob_store b)) = owner_value_count"
    and empty: "ob_index b = []"
    and inj: "inj_on (\<lambda>i. entry_key (entry_at b i)) {i. i < ss_slot_count (ob_store b) \<and> is_recoverable (ob_store b) i}"
    and stamp: "\<And>i. i < ss_slot_count (ob_store b) \<Longrightarrow> is_recoverable (ob_store b) i \<Longrightarrow>
        sl_seq_no (slot_at (ob_store b) i) = oe_placed_at_seq_no (entry_at b i)"
    and "book_recover b = (found, b')"
  shows "book_ok b'"
    and "book_find b' k = Some e \<longleftrightarrow>
      (\<exists>i < ss_slot_count (ob_store b). is_recoverable (ob_store b) i \<and> entry_key (entry_at b i) = k \<and> e = entry_at b i)"
    and "rc_orders found = book_size b'" and "rc_published found = ss_published (ob_store b)"
    and "ob_halted b' = ob_halted b" and "ss_published (ob_store b') = ss_published (ob_store b)"
    and "ss_slot_count (ob_store b') = ss_slot_count (ob_store b)"
proof -
  let ?rec = "filter (is_recoverable (ob_store b)) [0..<ss_slot_count (ob_store b)]"
  let ?idx = "map (\<lambda>i. (entry_key (entry_at b i), i)) ?rec"
  obtain r t where rt: "rebuild_free_list (ob_store b) = (r, t)" by fastforce
  note R = rebuild_free_list_ok [OF shape rt]
  from assms(8) have b': "b' = b\<lparr>ob_index := ?idx, ob_store := t\<rparr>" and f: "rc_orders found = length ?rec" "rc_published found = ss_published (ob_store b)"
    using recover_slots [OF empty inj] rt by (auto simp: book_recover_def)
  have at: "slot_at t i = slot_at (ob_store b) i" if "i < ss_slot_count (ob_store b)" "is_recoverable (ob_store b) i" for i
    using R(2,4) that by auto
  show ok: "book_ok b'"
  proof (rule book_okI)
    show "store_ok (ob_store b')" using R(1) by (simp add: b')
    show "distinct (map fst (ob_index b'))" using inj by (auto simp: b' distinct_map inj_on_def)
    show "distinct (map snd (ob_index b'))" by (simp add: b' comp_def)
    show "snd ` set (ob_index b') = live_slots (ob_store b')" using R(2) by (auto simp: b' image_image)
    show "entry_key (entry_at b' i) = k \<and> sl_seq_no (slot_at (ob_store b') i) = oe_placed_at_seq_no (entry_at b' i)"
      if "(k, i) \<in> set (ob_index b')" for k i
      using that at stamp by (auto simp: b' entry_at_def)
  qed
  have "(k, i) \<in> set (ob_index b') \<and> e = entry_at b' i \<longleftrightarrow>
      i < ss_slot_count (ob_store b) \<and> is_recoverable (ob_store b) i \<and> entry_key (entry_at b i) = k \<and> e = entry_at b i" for i
    using at by (auto simp: b' entry_at_def)
  then show "book_find b' k = Some e \<longleftrightarrow>
      (\<exists>i < ss_slot_count (ob_store b). is_recoverable (ob_store b) i \<and> entry_key (entry_at b i) = k \<and> e = entry_at b i)"
    unfolding book_find_iff [OF ok] by blast
  show "rc_orders found = book_size b'" "rc_published found = ss_published (ob_store b)" "ob_halted b' = ob_halted b"
    "ss_published (ob_store b') = ss_published (ob_store b)" "ss_slot_count (ob_store b') = ss_slot_count (ob_store b)"
    using f R(5,7) by (simp_all add: b' book_size_def)
qed

section \<open>Removing every order placed up to a position\<close>

lemma remove_slot_is_remove:
  "book_ok b \<Longrightarrow> (k, i) \<in> set (ob_index b) \<Longrightarrow> remove_slot i (visited, b) = (visited @ [entry_at b i], snd (book_remove k b))"
  using map_of_index [OF book_okD(2), of b k i] by (simp add: remove_slot_def book_remove_def book_okD(5))

lemma book_remove_index:
  assumes ok: "book_ok b" and "(k, i) \<in> set (ob_index b)"
  shows "ob_index (snd (book_remove k b)) = index_erase k (ob_index b)" and "\<And>j. j \<noteq> i \<Longrightarrow> entry_at (snd (book_remove k b)) j = entry_at b j"
  using map_of_index [OF book_okD(2) [OF ok], of k i] assms(2) by (simp_all add: book_remove_def entry_at_def)

lemma remove_slots:
  assumes "book_ok b" and "distinct is" and "\<And>i. i \<in> set is \<Longrightarrow> \<exists>k. (k, i) \<in> set (ob_index b)"
  shows "\<exists>b'. fold remove_slot is (visited, b) = (visited @ map (entry_at b) is, b') \<and> book_ok b' \<and>
     set (ob_index b') = {(k, i). (k, i) \<in> set (ob_index b) \<and> i \<notin> set is} \<and>
     (\<forall>i. i \<notin> set is \<longrightarrow> entry_at b' i = entry_at b i) \<and>
     ob_halted b' = ob_halted b \<and> ob_voids_known_through b' = ob_voids_known_through b"
  using assms
proof (induction "is" arbitrary: b visited)
  case (Cons i "is")
  from Cons.prems(3) obtain k where k: "(k, i) \<in> set (ob_index b)" by auto
  let ?b = "snd (book_remove k b)"
  have ok: "book_ok ?b" using book_remove_ok [OF Cons.prems(1)] by (metis prod.collapse)
  note B = book_remove_index [OF Cons.prems(1) k]
  have idx: "set (ob_index ?b) = {(k', j). (k', j) \<in> set (ob_index b) \<and> j \<noteq> i}"
    using index_injective [OF book_okD(2,3) [OF Cons.prems(1)] _ k] by (auto simp: B(1) set_index_erase)
  have sub: "\<exists>k. (k, j) \<in> set (ob_index ?b)" if "j \<in> set is" for j
    using that Cons.prems(2,3) by (force simp: idx)
  from Cons.IH [OF ok _ sub, of "visited @ [entry_at b i]"] Cons.prems(2)
  obtain b' where b': "fold remove_slot is (visited @ [entry_at b i], ?b) = ((visited @ [entry_at b i]) @ map (entry_at ?b) is, b')"
      "book_ok b'" "set (ob_index b') = {(k, j). (k, j) \<in> set (ob_index ?b) \<and> j \<notin> set is}"
      "\<forall>j. j \<notin> set is \<longrightarrow> entry_at b' j = entry_at ?b j" "ob_halted b' = ob_halted ?b" "ob_voids_known_through b' = ob_voids_known_through ?b"
    by auto
  have "map (entry_at ?b) is = map (entry_at b) is" using Cons.prems(2) by (intro map_cong refl B(2)) auto
  then show ?case
    using b' B(2) remove_slot_is_remove [OF Cons.prems(1) k] by (intro exI [of _ b']) (auto simp: idx)
qed simp

lemma placed_through_slots:
  fixes b :: order_book and through :: int
  defines "ps \<equiv> placed_through through b"
  assumes ok: "book_ok b"
  shows "distinct (map snd ps)" and "set (map snd ps) = {i. \<exists>k. (k, i) \<in> set (ob_index b) \<and> oe_placed_at_seq_no (entry_at b i) \<le> through}"
    and "sorted (map (oe_placed_at_seq_no \<circ> entry_at b) (map snd ps))"
    and "fold (\<lambda>(q, i). remove_slot i) ps st = fold remove_slot (map snd ps) st"
proof -
  note ps_def = ps_def [unfolded placed_through_def]
  have fst_ps: "fst p = oe_placed_at_seq_no (entry_at b (snd p))" if "p \<in> set ps" for p using that by (auto simp: ps_def)
  have "distinct (map snd (filter P (ob_index b)))" for P using book_okD(3) [OF ok] by (simp add: distinct_map_filter)
  then have dis: "distinct (map snd (map (\<lambda>(k, i). (oe_placed_at_seq_no (entry_at b i), i)) (filter P (ob_index b))))" for P
    by (simp add: comp_def case_prod_beta)
  show "distinct (map snd ps)"
  proof -
    have "distinct ps" using dis unfolding ps_def distinct_sort by (rule distinct_mapI)
    moreover have "inj_on snd (set ps)" using fst_ps unfolding inj_on_def by (metis prod_eqI)
    ultimately show ?thesis by (simp add: distinct_map)
  qed
  show "set (map snd ps) = {i. \<exists>k. (k, i) \<in> set (ob_index b) \<and> oe_placed_at_seq_no (entry_at b i) \<le> through}"
    by (force simp: ps_def)
  have "sorted (map fst ps)" unfolding ps_def by (rule sorted_map_mono [where f = fst]) (auto simp: monotone_on_def less_eq_prod_def)
  moreover have "map fst ps = map (oe_placed_at_seq_no \<circ> entry_at b) (map snd ps)" using fst_ps by simp
  ultimately show "sorted (map (oe_placed_at_seq_no \<circ> entry_at b) (map snd ps))" by simp
  show "fold (\<lambda>(q, i). remove_slot i) ps st = fold remove_slot (map snd ps) st" by (simp add: fold_map comp_def split_def)
qed

lemma ran_book_find: "book_ok b \<Longrightarrow> e \<in> ran (book_find b) \<longleftrightarrow> (\<exists>k i. (k, i) \<in> set (ob_index b) \<and> e = entry_at b i)"
  by (simp add: ran_def book_find_iff)

lemma entry_at_injective:
  assumes ok: "book_ok b" and "(k, i) \<in> set (ob_index b)" "(k', j) \<in> set (ob_index b)" "entry_at b i = entry_at b j"
  shows "i = j"
  using index_injective [OF book_okD(2) [OF ok] book_okD(3) [OF ok] assms(2,3)] book_okD(5) [OF ok assms(2)] book_okD(5) [OF ok assms(3)] assms(4)
  by simp

lemma remove_placed_through_facts:
  assumes ok: "book_ok b" and "remove_placed_through n b = (visited, b')"
  shows "book_ok b' \<and> (\<forall>k. book_find b' k = (case book_find b k of None \<Rightarrow> None | Some e \<Rightarrow> if oe_placed_at_seq_no e \<le> n then None else Some e)) \<and>
      set visited = {e \<in> ran (book_find b). oe_placed_at_seq_no e \<le> n} \<and> sorted (map oe_placed_at_seq_no visited) \<and>
      length visited + book_size b' = book_size b \<and> distinct visited \<and>
      ob_halted b' = ob_halted b \<and> ob_voids_known_through b' = ob_voids_known_through b"
proof -
  define ps where "ps = placed_through n b"
  note P = placed_through_slots [OF ok, of n, folded ps_def]
  have "\<exists>k. (k, i) \<in> set (ob_index b)" if "i \<in> set (map snd ps)" for i using that P(2) by auto
  from remove_slots [OF ok P(1) this, of "[]"] assms(2)
  have v: "visited = map (entry_at b) (map snd ps)" and ok': "book_ok b'"
    and idx: "set (ob_index b') = {(k, i). (k, i) \<in> set (ob_index b) \<and> i \<notin> set (map snd ps)}"
    and at: "\<And>i. i \<notin> set (map snd ps) \<Longrightarrow> entry_at b' i = entry_at b i"
    and fields: "ob_halted b' = ob_halted b" "ob_voids_known_through b' = ob_voids_known_through b"
    by (auto simp: remove_placed_through_def P(4) simp flip: ps_def simp del: set_map)
  have M: "i \<in> set (map snd ps) \<longleftrightarrow> (\<exists>k. (k, i) \<in> set (ob_index b) \<and> oe_placed_at_seq_no (entry_at b i) \<le> n)" for i
    unfolding P(2) by simp
  have kept: "(k, i) \<in> set (ob_index b') \<longleftrightarrow> (k, i) \<in> set (ob_index b) \<and> \<not> oe_placed_at_seq_no (entry_at b i) \<le> n" for k i
    unfolding idx mem_Collect_eq prod.case M by blast
  have at': "entry_at b' i = entry_at b i" if "(k, i) \<in> set (ob_index b')" for k i
    using that at unfolding idx by blast
  have find: "book_find b' k = (case book_find b k of None \<Rightarrow> None | Some e \<Rightarrow> if oe_placed_at_seq_no e \<le> n then None else Some e)" for k
  proof -
    have "book_find b' k = Some e \<longleftrightarrow> book_find b k = Some e \<and> \<not> oe_placed_at_seq_no e \<le> n" for e
      unfolding book_find_iff [OF ok'] book_find_iff [OF ok] using kept at' by metis
    then show ?thesis by (intro option_eqI) (auto split: option.splits)
  qed
  have inj: "inj_on (entry_at b) (set (map snd ps))"
    using entry_at_injective [OF ok] M unfolding inj_on_def by metis
  then have "distinct visited" unfolding v distinct_map [of "entry_at b"] using P(1) by blast
  moreover have "set visited = {e \<in> ran (book_find b). oe_placed_at_seq_no e \<le> n}"
  proof (rule set_eqI)
    fix e
    have "e \<in> set visited \<longleftrightarrow> (\<exists>i. i \<in> set (map snd ps) \<and> e = entry_at b i)" unfolding v set_map [of "entry_at b"] by blast
    also have "\<dots> \<longleftrightarrow> e \<in> {e \<in> ran (book_find b). oe_placed_at_seq_no e \<le> n}" unfolding mem_Collect_eq ran_book_find [OF ok] M by blast
    finally show "e \<in> set visited \<longleftrightarrow> e \<in> {e \<in> ran (book_find b). oe_placed_at_seq_no e \<le> n}" .
  qed
  moreover have "length visited + book_size b' = book_size b"
  proof -
    let ?I = "set (ob_index b)"
    have "card (snd ` ?I) = length (ob_index b)" using book_okD(3) [OF ok] by (metis distinct_card length_map list.set_map)
    moreover have "card (snd ` set (ob_index b')) = length (ob_index b')" using book_okD(3) [OF ok'] by (metis distinct_card length_map list.set_map)
    moreover have "card (set (map snd ps)) = length visited" using distinct_card [OF P(1)] by (simp add: v)
    moreover have "snd ` ?I = snd ` set (ob_index b') \<union> set (map snd ps)"
    proof (rule set_eqI)
      fix i
      have eq: "i \<in> snd ` X \<longleftrightarrow> (\<exists>k. (k, i) \<in> X)" for X :: "(order_key \<times> nat) set" by force
      show "i \<in> snd ` ?I \<longleftrightarrow> i \<in> snd ` set (ob_index b') \<union> set (map snd ps)" unfolding Un_iff eq M kept by blast
    qed
    moreover have "snd ` set (ob_index b') \<inter> set (map snd ps) = {}"
    proof -
      have "False" if "(k, i) \<in> set (ob_index b')" "i \<in> set (map snd ps)" for k i using that unfolding M kept by blast
      then show ?thesis by force
    qed
    ultimately show ?thesis by (simp add: book_size_def card_Un_disjoint)
  qed
  moreover have "sorted (map oe_placed_at_seq_no visited)" using P(3) by (simp add: v comp_assoc)
  ultimately show ?thesis using ok' find fields by blast
qed

lemma remove_placed_through_visits:
  assumes ok: "book_ok b" and "remove_placed_through n b = (visited, b')"
  shows "visited = map (entry_at b) (map snd (placed_through n b))"
proof -
  note P = placed_through_slots [OF ok, of n]
  have "\<exists>k. (k, i) \<in> set (ob_index b)" if "i \<in> set (map snd (placed_through n b))" for i using that P(2) by auto
  from remove_slots [OF ok P(1) this, of "[]"] assms(2) show ?thesis by (auto simp: remove_placed_through_def P(4))
qed

text \<open>What is removed depends on the orders and not on the slots they are in.\<close>

lemma remove_placed_through_same:
  assumes b: "book_ok b" "remove_placed_through n b = (visited, b')" and c: "book_ok c" "remove_placed_through n c = (visited', c')"
    and find: "book_find c = book_find b" and inj: "inj_on oe_placed_at_seq_no (ran (book_find b))"
  shows "visited' = visited" and "book_find c' = book_find b'"
proof -
  note B = remove_placed_through_facts [OF b] and C = remove_placed_through_facts [OF c]
  show "visited' = visited"
  proof (rule same_by_key [where key = oe_placed_at_seq_no])
    show "inj_on oe_placed_at_seq_no (set visited)" using inj B by (auto intro: inj_on_subset)
  qed (use B C find in simp_all)
  show "book_find c' = book_find b'" using B C find by (simp add: fun_eq_iff)
qed


section \<open>A new book\<close>

definition new_book :: "order_entry \<Rightarrow> nat \<Rightarrow> nat \<Rightarrow> order_book" where
  "new_book blank entry_size region_capacity =
     \<lparr>ob_store = new_store blank entry_size region_capacity record_format, ob_index = [], ob_halted = False,
      ob_voids_known_through = 0, ob_applying_when_opened = 0\<rparr>"

lemma book_open_new:
  "0 < entry_size \<Longrightarrow> 0 < n \<Longrightarrow> n < no_slot \<Longrightarrow> path \<noteq> [] \<Longrightarrow>
     book_open blank chop entry_size path None n =
       (Some (new_store blank entry_size n record_format), Inr (False, new_book blank entry_size n))"
  by (simp add: book_open_def store_open_def owner_value_def new_store_def owner_value_count_def new_book_def
      halted_value_def voids_known_through_value_def applying_value_def nth_Cons')

lemma book_ok_new: "0 < n \<Longrightarrow> n < no_slot \<Longrightarrow> book_ok (new_book blank entry_size n)"
  using store_ok_new [of n blank entry_size record_format]
  by (auto simp: book_ok_def new_book_def live_slots_def) (simp add: new_store_def)

lemma book_find_new [simp]: "book_find (new_book blank entry_size n) k = None"
  by (simp add: book_find_def new_book_def)

section \<open>The check of the book\<close>

lemma live_count:
  "length (filter (\<lambda>i. sl_live (slot_at s i)) [0..<ss_slot_count s]) = card (live_slots s)"
proof -
  have "set (filter (\<lambda>i. sl_live (slot_at s i)) [0..<ss_slot_count s]) = live_slots s" by (auto simp: live_slots_def)
  then show ?thesis by (metis distinct_card distinct_filter distinct_upt)
qed

text \<open>
  C25. The check that the engine's tests run on a book finds nothing wrong exactly when the region and the index
  agree: every live slot is filed, under the identity its record carries. It holds for a well-formed region and an
  index in which no identity and no slot beyond the region occurs twice.
\<close>

theorem consistency_problem_exact:
  assumes "store_ok (ob_store b)" and dis: "distinct (map fst (ob_index b))"
    and inside: "\<forall>(k, i) \<in> set (ob_index b). i < ss_slot_count (ob_store b)"
  shows "consistency_problem b = None \<longleftrightarrow>
    snd ` set (ob_index b) = live_slots (ob_store b) \<and> (\<forall>(k, i) \<in> set (ob_index b). entry_key (entry_at b i) = k)"
proof -
  have found: "map_of (ob_index b) k \<noteq> None" if "(k, i) \<in> set (ob_index b)" for k i using that weak_map_of_SomeI by fastforce
  have "entry_problem b (k, i) = None \<longleftrightarrow> i \<in> live_slots (ob_store b) \<and> entry_key (entry_at b i) = k" if "(k, i) \<in> set (ob_index b)" for k i
    using found [OF that] bspec [OF inside that] by (auto simp: entry_problem_def live_slots_def)
  then have each: "(\<forall>kv \<in> set (ob_index b). entry_problem b kv = None) \<longleftrightarrow>
      (\<forall>(k, i) \<in> set (ob_index b). i \<in> live_slots (ob_store b) \<and> entry_key (entry_at b i) = k)"
    by (intro ball_cong refl) (simp add: split_paired_all)
  have "consistency_problem b = None \<longleftrightarrow>
      card (live_slots (ob_store b)) = length (ob_index b) \<and> (\<forall>kv \<in> set (ob_index b). entry_problem b kv = None)"
    unfolding consistency_problem_def live_count map_filter_empty [symmetric] by (auto split: list.splits)
  also have "\<dots> \<longleftrightarrow> card (live_slots (ob_store b)) = length (ob_index b) \<and>
      (\<forall>(k, i) \<in> set (ob_index b). i \<in> live_slots (ob_store b) \<and> entry_key (entry_at b i) = k)"
    using each by simp
  also have "\<dots> \<longleftrightarrow> snd ` set (ob_index b) = live_slots (ob_store b) \<and> (\<forall>(k, i) \<in> set (ob_index b). entry_key (entry_at b i) = k)"
    (is "?L \<longleftrightarrow> ?R")
  proof -
    have fin: "finite (live_slots (ob_store b))" by (simp add: live_slots_def)
    have card: "card (snd ` set (ob_index b)) = length (ob_index b)" if "\<forall>(k, i) \<in> set (ob_index b). entry_key (entry_at b i) = k"
    proof -
      have "fst x = entry_key (entry_at b (snd x))" if "x \<in> set (ob_index b)" for x
        using bspec [OF \<open>\<forall>(k, i) \<in> set (ob_index b). _ i = k\<close> that] by (simp add: split_def)
      then have "inj_on snd (set (ob_index b))" by (intro inj_onI prod_eqI) simp_all
      then show ?thesis using distinct_card [OF distinct_mapI [OF dis]] by (simp add: card_image)
    qed
    show ?thesis
    proof
      assume L: ?L
      then have keys: "\<forall>(k, i) \<in> set (ob_index b). entry_key (entry_at b i) = k" and sub: "snd ` set (ob_index b) \<subseteq> live_slots (ob_store b)" by auto
      with card_subset_eq [OF fin sub] card L show ?R by simp
    next
      assume ?R
      then show ?L using card by force
    qed
  qed
  finally show ?thesis .
qed

text \<open>A book of two orders, the later of them added first.\<close>

definition example_session :: session_identity where
  "example_session = make_session ''CLIENT1'' 1"

definition example_entry :: "int \<Rightarrow> string \<Rightarrow> order_entry" where
  "example_entry seq_no id' =
     \<lparr>oe_placed_at_seq_no = seq_no, oe_session = example_session, oe_side = 49, oe_ord_type = 50, oe_time_in_force = None,
      oe_expire_time = None, oe_cl_ord_id = id', oe_symbol = ''VOD'', oe_order_qty = ''100'', oe_price = Some ''1.25''\<rparr>"

definition example_book :: order_book where
  "example_book =
     snd (book_add False (make_key example_session ''B'') (example_entry 5 ''B'') 5
       (snd (book_add False (make_key example_session ''A'') (example_entry 6 ''A'') 6 (new_book (example_entry 0 '''') 280 3))))"

lemmas book_evaluate =
  book_add_def acquire_def write_payload_def commit_slot_def new_book_def new_store_def set_cl_ord_id_def example_entry_def make_key_def
  max_cl_ord_id_length_def index_emplace_def entry_key_def entry_at_def no_slot_def example_session_def make_session_def max_comp_id_length_def

lemma example_book_value:
  "ob_index example_book = [(make_key example_session ''A'', 0), (make_key example_session ''B'', 1)]"
  "entry_at example_book 0 = example_entry 6 ''A''" "entry_at example_book 1 = example_entry 5 ''B''"
  "entry_at example_book (Suc 0) = example_entry 5 ''B''"
  "ss_slot_count (ob_store example_book) = 3"
  by (simp_all add: example_book_def book_evaluate upt_rec_numeral)

lemma example_book_ok: "book_ok example_book"
proof -
  let ?b0 = "new_book (example_entry 0 '''') 280 3"
  let ?b1 = "snd (book_add False (make_key example_session ''A'') (example_entry 6 ''A'') 6 ?b0)"
  have n: "(3::nat) < no_slot" by (simp add: no_slot_def)
  have 1: "book_add False (make_key example_session ''A'') (example_entry 6 ''A'') 6 ?b0 = (Inr True, ?b1)"
    by (simp add: book_add_def acquire_def new_book_def new_store_def no_slot_def Let_def)
  have 2: "book_add False (make_key example_session ''B'') (example_entry 5 ''B'') 5 ?b1 = (Inr True, example_book)"
    unfolding example_book_def by (simp add: book_add_def acquire_def new_book_def new_store_def no_slot_def Let_def
        write_payload_def commit_slot_def upt_rec_numeral)
  note a = book_add_accepted [OF book_ok_new [OF _ n] 1 refl]
  have ok1: "book_ok ?b1" and f1: "book_find ?b1 = [make_key example_session ''A'' \<mapsto> filed (make_key example_session ''A'') (example_entry 6 ''A'')]"
    using a by (simp_all add: example_entry_def fun_eq_iff)
  have "book_find ?b1 (make_key example_session ''B'') = None" unfolding f1 by (simp add: make_key_def max_cl_ord_id_length_def)
  then show ?thesis using book_add_accepted(1) [OF ok1 2 refl] by (simp add: example_entry_def)
qed

theorem consistency_problem_exact_witness: "consistency_problem example_book = None"
proof -
  have "snd ` set (ob_index example_book) = live_slots (ob_store example_book)" "\<forall>(k, i) \<in> set (ob_index example_book). entry_key (entry_at example_book i) = k"
    using book_okD(4,5) [OF example_book_ok] by auto
  then show ?thesis
    using consistency_problem_exact [OF book_okD(1,2) [OF example_book_ok]] by (simp add: example_book_value)
qed


end
