(* ===== verification/VoidedCommands.thy ===== *)
theory VoidedCommands
  imports Prelude
begin

text \<open>
  \<open>applications/fix_common/VoidedCommandList.hpp\<close>: the commands of a trading day's WAL that are answered with a
  rejection instead of being applied. The list is kept in the order of the voids' positions.
\<close>

datatype void_reason = EngineDiedApplying | HeldWhenTradingHalted

record voided_range =
  vr_void_seq_no :: int
  vr_first_seq_no :: int
  vr_last_seq_no :: int
  vr_new_orders_only :: bool
  vr_reason :: void_reason

datatype voided_kind = Void_new_order | Void_cancel

definition voids_at :: "int \<Rightarrow> voided_range list \<Rightarrow> voided_range option" where
  "voids_at void_seq_no voids = find (\<lambda>held. vr_void_seq_no held = void_seq_no) voids"

fun voids_insert :: "voided_range \<Rightarrow> voided_range list \<Rightarrow> voided_range list" where
  "voids_insert voided [] = [voided]"
| "voids_insert voided (held # voids) =
     (if vr_void_seq_no voided < vr_void_seq_no held then voided # held # voids else held # voids_insert voided voids)"

definition voids_add :: "voided_range \<Rightarrow> voided_range list \<Rightarrow> bool \<times> voided_range list" where
  "voids_add voided voids =
     (if voids_at (vr_void_seq_no voided) voids \<noteq> None then (False, voids) else (True, voids_insert voided voids))"

definition voiding :: "int \<Rightarrow> voided_kind \<Rightarrow> voided_range list \<Rightarrow> voided_range option" where
  "voiding sequence_number kind voids =
     find (\<lambda>held. vr_first_seq_no held \<le> sequence_number \<and> sequence_number \<le> vr_last_seq_no held \<and>
                  (kind = Void_new_order \<or> \<not> vr_new_orders_only held)) voids"

definition discard_after :: "int \<Rightarrow> voided_range list \<Rightarrow> voided_range list" where
  "discard_after seq_no voids = filter (\<lambda>held. \<not> seq_no < vr_void_seq_no held) voids"

section \<open>The order of the list\<close>

definition voids_ok :: "voided_range list \<Rightarrow> bool" where
  "voids_ok voids \<longleftrightarrow> sorted_wrt (<) (map vr_void_seq_no voids)"

lemma voids_ok_Nil [simp]: "voids_ok []"
  by (simp add: voids_ok_def)

lemma set_voids_insert [simp]: "set (voids_insert v voids) = insert v (set voids)"
  by (induction voids) auto

lemma voids_at_iff: "voids_ok voids \<Longrightarrow> voids_at q voids = Some v \<longleftrightarrow> v \<in> set voids \<and> vr_void_seq_no v = q"
  unfolding voids_ok_def voids_at_def by (induction voids) auto

lemma voids_at_None: "voids_at q voids = None \<longleftrightarrow> q \<notin> vr_void_seq_no ` set voids"
  by (auto simp: voids_at_def find_None_iff)

lemma voids_ok_insert: "voids_ok voids \<Longrightarrow> vr_void_seq_no v \<notin> vr_void_seq_no ` set voids \<Longrightarrow> voids_ok (voids_insert v voids)"
  unfolding voids_ok_def by (induction voids) auto

lemma voids_add_ok: "voids_ok voids \<Longrightarrow> voids_ok (snd (voids_add v voids))"
  by (auto simp: voids_add_def voids_at_None intro: voids_ok_insert)

lemma voids_discard_ok: "voids_ok voids \<Longrightarrow> voids_ok (discard_after q voids)"
  unfolding voids_ok_def discard_after_def by (induction voids) auto

lemma set_voids_add:
  "set (snd (voids_add v voids)) = (if vr_void_seq_no v \<in> vr_void_seq_no ` set voids then set voids else insert v (set voids))"
  by (simp add: voids_add_def voids_at_None)

lemma voids_add_all:
  assumes "inj_on vr_void_seq_no (set vs \<union> set voids)" and "voids_ok voids"
  shows "voids_ok (fold (\<lambda>v. snd \<circ> voids_add v) vs voids) \<and> set (fold (\<lambda>v. snd \<circ> voids_add v) vs voids) = set vs \<union> set voids"
  using assms
proof (induction vs arbitrary: voids)
  case (Cons v vs)
  have "set (snd (voids_add v voids)) = insert v (set voids)"
    using Cons.prems(1) by (auto simp: set_voids_add inj_on_def)
  with Cons.IH [of "snd (voids_add v voids)"] Cons.prems voids_add_ok show ?case by simp
qed simp

text \<open>
  C26. An engine may be told of the voids of a day in any order and any number of times. Two engines told of the
  same voids hold the same list, and so answer every command alike. A command is answered as voided exactly when some
  void of the list covers it, and a void of new orders only never covers a cancel.
\<close>

theorem voids_in_any_order:
  assumes "set vs = set ws" and "inj_on vr_void_seq_no (set vs)"
  shows "fold (\<lambda>v. snd \<circ> voids_add v) vs [] = fold (\<lambda>v. snd \<circ> voids_add v) ws [] \<and>
    (voiding q kind (fold (\<lambda>v. snd \<circ> voids_add v) vs []) \<noteq> None \<longleftrightarrow>
       (\<exists>v \<in> set vs. vr_first_seq_no v \<le> q \<and> q \<le> vr_last_seq_no v \<and> (kind = Void_new_order \<or> \<not> vr_new_orders_only v)))"
proof -
  let ?f = "\<lambda>vs. fold (\<lambda>v. snd \<circ> voids_add v) vs []"
  have V: "voids_ok (?f vs)" "set (?f vs) = set vs" and W: "voids_ok (?f ws)" "set (?f ws) = set ws"
    using voids_add_all [of vs "[]"] voids_add_all [of ws "[]"] assms by simp_all
  have "sorted (map vr_void_seq_no us) \<and> distinct us" if "voids_ok us" for us
    using that unfolding voids_ok_def strict_sorted_iff by (simp add: distinct_map)
  with V W assms have "?f vs = ?f ws" by (intro same_by_key [where key = vr_void_seq_no]) simp_all
  then show ?thesis using V(2) by (auto simp: voiding_def find_None_iff)
qed

definition example_voids :: "voided_range list" where
  "example_voids =
     [\<lparr>vr_void_seq_no = 12, vr_first_seq_no = 8, vr_last_seq_no = 9, vr_new_orders_only = True, vr_reason = HeldWhenTradingHalted\<rparr>,
      \<lparr>vr_void_seq_no = 7, vr_first_seq_no = 5, vr_last_seq_no = 5, vr_new_orders_only = False, vr_reason = EngineDiedApplying\<rparr>]"

theorem voids_in_any_order_witness:
  "fold (\<lambda>v. snd \<circ> voids_add v) example_voids [] = fold (\<lambda>v. snd \<circ> voids_add v) (rev example_voids) [] \<and>
   voiding 8 Void_cancel (fold (\<lambda>v. snd \<circ> voids_add v) example_voids []) = None"
proof -
  have "inj_on vr_void_seq_no (set example_voids)" by (simp add: example_voids_def)
  moreover have "\<not> (\<exists>v \<in> set example_voids. vr_first_seq_no v \<le> 8 \<and> 8 \<le> vr_last_seq_no v \<and> \<not> vr_new_orders_only v)"
    by (simp add: example_voids_def)
  ultimately show ?thesis using voids_in_any_order [OF set_rev [symmetric], of example_voids 8 Void_cancel] by auto
qed

end
