(* ===== verification/GroupEcho.thy ===== *)
theory GroupEcho
  imports SlotStore
begin

text \<open>
  The groups of a new order that its acknowledgement repeats: the bump allocator the copies are made in,
  \<open>libraries/pubsub_itc_fw/include/pubsub_itc_fw/BumpAllocator.hpp\<close>, and \<open>echo_underlyings\<close>, \<open>echo_parties\<close> and the
  loop around them in \<open>applications/matching_engine/MatchingEngineStateMachine.cpp\<close>. The sizes of the generated
  structures are parameters.
\<close>

section \<open>The bump allocator\<close>

record bump_allocator =
  ba_storage :: bool
  ba_capacity :: nat
  ba_used :: nat

definition new_allocator :: "bool \<Rightarrow> nat \<Rightarrow> bump_allocator" where
  "new_allocator storage capacity = \<lparr>ba_storage = storage, ba_capacity = capacity, ba_used = 0\<rparr>"

text \<open>Space for \<open>n\<close> objects, at the offset returned where there is room. \<open>alignment\<close> is a power of two.\<close>

definition bump_allocate :: "nat \<Rightarrow> nat \<Rightarrow> nat \<Rightarrow> bump_allocator \<Rightarrow> (nat option \<times> bump_allocator) result" where
  "bump_allocate alignment object_size n a =
     (if n = 0 then Inl PreconditionAssertion
      else let aligned_offset = round_up alignment (ba_used a);
               required = aligned_offset + object_size * n
           in Inr (if \<not> ba_storage a \<or> ba_capacity a < required then None else Some aligned_offset, a\<lparr>ba_used := required\<rparr>))"

definition bump_reset :: "bump_allocator \<Rightarrow> bump_allocator" where
  "bump_reset a = a\<lparr>ba_used := 0\<rparr>"

definition bytes_remaining :: "bump_allocator \<Rightarrow> nat" where
  "bytes_remaining a = (if ba_capacity a \<le> ba_used a then 0 else ba_capacity a - ba_used a)"

definition is_measuring :: "bump_allocator \<Rightarrow> bool" where
  "is_measuring a \<longleftrightarrow> \<not> ba_storage a"

section \<open>The groups\<close>

record underlying =
  ul_symbol :: "string option"
  ul_security_id :: "string option"
  ul_qty :: "string option"

record party_sub_id =
  ps_id :: "string option"
  ps_type :: "int option"

record party_id =
  pa_id :: "string option"
  pa_source :: "int option"
  pa_role :: "int option"
  pa_sub_ids :: "party_sub_id list"

text \<open>How large each structure is, and the alignment they share.\<close>

record group_sizes =
  gz_alignment :: nat
  gz_underlying :: nat
  gz_party :: nat
  gz_sub_id :: nat

definition echo_underlyings :: "group_sizes \<Rightarrow> underlying list \<Rightarrow> bump_allocator \<Rightarrow> underlying list \<times> bump_allocator" where
  "echo_underlyings gz source arena =
     (if source = [] then ([], arena)
      else case bump_allocate (gz_alignment gz) (gz_underlying gz) (length source) arena of
        Inl _ \<Rightarrow> ([], arena)
      | Inr (None, arena') \<Rightarrow> ([], arena')
      | Inr (Some _, arena') \<Rightarrow> (source, arena'))"

text \<open>One turn of the loop of \<open>echo_parties\<close>: the party, with its sub-ids where there was room for them.\<close>

definition echo_party :: "group_sizes \<Rightarrow> party_id \<Rightarrow> bump_allocator \<Rightarrow> party_id \<times> bump_allocator" where
  "echo_party gz p arena =
     (if pa_sub_ids p = [] then (p, arena)
      else case bump_allocate (gz_alignment gz) (gz_sub_id gz) (length (pa_sub_ids p)) arena of
        Inl _ \<Rightarrow> (p, arena)
      | Inr (None, arena') \<Rightarrow> (p\<lparr>pa_sub_ids := []\<rparr>, arena')
      | Inr (Some _, arena') \<Rightarrow> (p, arena'))"

fun echo_party_list :: "group_sizes \<Rightarrow> party_id list \<Rightarrow> bump_allocator \<Rightarrow> party_id list \<times> bump_allocator" where
  "echo_party_list gz [] arena = ([], arena)"
| "echo_party_list gz (p # ps) arena =
     (let (p', arena') = echo_party gz p arena; (ps', arena'') = echo_party_list gz ps arena' in (p' # ps', arena''))"

definition echo_parties :: "group_sizes \<Rightarrow> party_id list \<Rightarrow> bump_allocator \<Rightarrow> party_id list \<times> bump_allocator" where
  "echo_parties gz source arena =
     (if source = [] then ([], arena)
      else case bump_allocate (gz_alignment gz) (gz_party gz) (length source) arena of
        Inl _ \<Rightarrow> ([], arena)
      | Inr (None, arena') \<Rightarrow> ([], arena')
      | Inr (Some _, arena') \<Rightarrow> echo_party_list gz source arena')"

definition echo_groups :: "group_sizes \<Rightarrow> underlying list \<Rightarrow> party_id list \<Rightarrow> nat \<Rightarrow> underlying list \<times> party_id list \<times> nat" where
  "echo_groups gz underlyings parties capacity =
     (let (us, arena) = echo_underlyings gz underlyings (new_allocator True capacity);
          (ps, arena') = echo_parties gz parties arena
      in (us, ps, ba_used arena'))"

definition initial_er_group_arena_size :: nat where
  "initial_er_group_arena_size = 4096"

definition max_er_group_arena_size :: nat where
  "max_er_group_arena_size = 1048576"

text \<open>The loop: what is echoed, and the size of the arena the engine keeps.\<close>

function echo_loop :: "group_sizes \<Rightarrow> underlying list \<Rightarrow> party_id list \<Rightarrow> nat \<Rightarrow> underlying list \<times> party_id list \<times> nat" where
  "echo_loop gz underlyings parties arena_size =
     (case echo_groups gz underlyings parties arena_size of (us, ps, used) \<Rightarrow>
        if used \<le> arena_size \<or> max_er_group_arena_size \<le> arena_size then (us, ps, arena_size)
        else echo_loop gz underlyings parties (max used (arena_size * 2)))"
  by pat_completeness auto
termination
  by (relation "measure (\<lambda>(gz, us, ps, arena_size). max_er_group_arena_size - arena_size)") auto

declare echo_loop.simps [simp del]

section \<open>How much the groups need\<close>

definition need_after :: "group_sizes \<Rightarrow> nat \<Rightarrow> nat \<Rightarrow> nat \<Rightarrow> nat" where
  "need_after gz object_size n used = (if n = 0 then used else round_up (gz_alignment gz) used + object_size * n)"

definition groups_need :: "group_sizes \<Rightarrow> underlying list \<Rightarrow> party_id list \<Rightarrow> nat" where
  "groups_need gz underlyings parties =
     fold (\<lambda>p. need_after gz (gz_sub_id gz) (length (pa_sub_ids p))) parties
       (need_after gz (gz_party gz) (length parties) (need_after gz (gz_underlying gz) (length underlyings) 0))"

lemma need_after_le: "0 < gz_alignment gz \<Longrightarrow> used \<le> need_after gz object_size n used"
  using round_up_le [of "gz_alignment gz" used] by (simp add: need_after_def)

lemma needs_le: "0 < gz_alignment gz \<Longrightarrow> used \<le> fold (\<lambda>p. need_after gz (gz_sub_id gz) (length (pa_sub_ids p))) ps used"
proof (induction ps arbitrary: used)
  case (Cons p ps)
  then show ?case using need_after_le [of gz used] order_trans by fastforce
qed simp

text \<open>\<open>holds a xs xs' used used'\<close>: what one step of the copying keeps, for an arena of capacity \<open>c\<close>.\<close>

definition copies :: "nat \<Rightarrow> 'a \<Rightarrow> nat \<Rightarrow> 'a \<Rightarrow> nat \<Rightarrow> bool" where
  "copies c xs need xs' used' \<longleftrightarrow> (used' \<le> c \<longrightarrow> xs' = xs \<and> used' = need) \<and> (need \<le> c \<longrightarrow> used' \<le> c)"

lemma echo_underlyings_copies:
  assumes "echo_underlyings gz us a = (us', a')" and "ba_storage a"
  shows "copies (ba_capacity a) us (need_after gz (gz_underlying gz) (length us) (ba_used a)) us' (ba_used a') \<and>
    ba_capacity a' = ba_capacity a \<and> ba_storage a'"
  using assms by (auto simp: echo_underlyings_def bump_allocate_def copies_def need_after_def Let_def split: if_splits)

lemma echo_party_copies:
  assumes "echo_party gz p a = (p', a')" and "ba_storage a"
  shows "ba_used a' = need_after gz (gz_sub_id gz) (length (pa_sub_ids p)) (ba_used a)" and "ba_capacity a' = ba_capacity a"
    and "ba_storage a'" and "ba_used a' \<le> ba_capacity a \<Longrightarrow> p' = p"
  using assms by (auto simp: echo_party_def bump_allocate_def need_after_def Let_def split: if_splits)

abbreviation sub_ids_need :: "group_sizes \<Rightarrow> party_id list \<Rightarrow> nat \<Rightarrow> nat" where
  "sub_ids_need gz \<equiv> fold (\<lambda>p. need_after gz (gz_sub_id gz) (length (pa_sub_ids p)))"

lemma echo_party_list_copies:
  assumes "0 < gz_alignment gz" and "echo_party_list gz ps a = (ps', a')" and "ba_storage a"
  shows "ba_used a' = sub_ids_need gz ps (ba_used a) \<and> (ba_used a' \<le> ba_capacity a \<longrightarrow> ps' = ps)"
  using assms(2,3)
proof (induction ps arbitrary: a ps')
  case (Cons p ps)
  obtain p1 a1 where 1: "echo_party gz p a = (p1, a1)" by fastforce
  note P = echo_party_copies [OF 1 Cons.prems(2)]
  obtain ps1 where 2: "echo_party_list gz ps a1 = (ps1, a')" and e: "ps' = p1 # ps1"
    using Cons.prems(1) 1 by (auto split: prod.splits)
  note Q = Cons.IH [OF 2 P(3)]
  have "ba_used a1 \<le> ba_used a'" using needs_le [OF assms(1)] Q by simp
  then have "ps' = p # ps" if "ba_used a' \<le> ba_capacity a" using that P(2,4) Q e by simp
  moreover have "ba_used a' = sub_ids_need gz (p # ps) (ba_used a)" using Q P(1) by simp
  ultimately show ?case by blast
qed simp

lemma echo_parties_copies:
  assumes gz: "0 < gz_alignment gz" and "echo_parties gz ps a = (ps', a')" and "ba_storage a"
  shows "copies (ba_capacity a) ps
      (fold (\<lambda>p. need_after gz (gz_sub_id gz) (length (pa_sub_ids p))) ps (need_after gz (gz_party gz) (length ps) (ba_used a)))
      ps' (ba_used a')"
proof (cases "ps = []")
  case True
  with assms show ?thesis by (simp add: echo_parties_def copies_def need_after_def)
next
  case False
  define n where "n = need_after gz (gz_party gz) (length ps) (ba_used a)"
  have alloc: "bump_allocate (gz_alignment gz) (gz_party gz) (length ps) a =
      Inr (if ba_capacity a < n then None else Some (round_up (gz_alignment gz) (ba_used a)), a\<lparr>ba_used := n\<rparr>)"
    using False assms(3) by (simp add: bump_allocate_def Let_def n_def need_after_def)
  show ?thesis
  proof (cases "ba_capacity a < n")
    case True
    with False alloc assms(2) have "ba_used a' = n" by (auto simp: echo_parties_def)
    moreover have "ba_capacity a < sub_ids_need gz ps n" using True needs_le [OF gz, of n ps] by linarith
    ultimately show ?thesis using True unfolding n_def [symmetric] copies_def by linarith
  next
    case fits: False
    with False alloc assms(2) have "echo_party_list gz ps (a\<lparr>ba_used := n\<rparr>) = (ps', a')" by (simp add: echo_parties_def)
    from echo_party_list_copies [OF gz this] assms(3) show ?thesis unfolding n_def [symmetric] copies_def by simp
  qed
qed

lemma echo_groups_copies:
  assumes gz: "0 < gz_alignment gz" and e: "echo_groups gz us ps c = (us', ps', used)"
  shows "copies c (us, ps) (groups_need gz us ps) (us', ps') used"
proof -
  obtain a a' where 1: "echo_underlyings gz us (new_allocator True c) = (us', a)" and 2: "echo_parties gz ps a = (ps', a')" and u: "used = ba_used a'"
    using e by (auto simp: echo_groups_def Let_def split: prod.splits)
  let ?n1 = "need_after gz (gz_underlying gz) (length us) 0"
  have U: "copies c us ?n1 us' (ba_used a)" "ba_capacity a = c" "ba_storage a"
    using echo_underlyings_copies [OF 1] by (simp_all add: new_allocator_def)
  note P = echo_parties_copies [OF gz 2 U(3)]
  have "ba_used a \<le> used" if "used \<le> c"
    using that P needs_le [OF gz] need_after_le [OF gz] order_trans unfolding u U(2) copies_def by metis
  moreover have "?n1 \<le> groups_need gz us ps"
    unfolding groups_need_def using needs_le [OF gz] need_after_le [OF gz] order_trans by metis
  ultimately show ?thesis using U(1) P unfolding U(2) u copies_def groups_need_def by auto
qed

lemma echo_loop_whole:
  assumes gz: "0 < gz_alignment gz" and "groups_need gz us ps \<le> max_er_group_arena_size"
  shows "\<exists>arena_size' \<ge> arena_size. echo_loop gz us ps arena_size = (us, ps, arena_size')"
proof (induction "max_er_group_arena_size - arena_size" arbitrary: arena_size rule: less_induct)
  case less
  obtain us' ps' used where e: "echo_groups gz us ps arena_size = (us', ps', used)" by (metis prod_cases3)
  note C = echo_groups_copies [OF gz e]
  show ?case
  proof (cases "used \<le> arena_size \<or> max_er_group_arena_size \<le> arena_size")
    case True
    with C assms(2) have "us' = us" "ps' = ps" unfolding copies_def by auto
    with True e show ?thesis by (subst echo_loop.simps) auto
  next
    case False
    then have "max_er_group_arena_size - max used (arena_size * 2) < max_er_group_arena_size - arena_size" by linarith
    from less.hyps [OF this] False e show ?thesis by (subst echo_loop.simps) (auto simp: max_def split: if_splits)
  qed
qed

text \<open>
  C29. The acknowledgement of an order repeats its groups whole. The loop that echoes them ends for groups of any
  size, because the arena grows on every turn and stops growing at its ceiling; where what they need is within
  that ceiling, every underlying, every party and every sub-id is on the report, however small the arena
  was to begin with.
\<close>

theorem groups_echoed_whole:
  assumes gz: "0 < gz_alignment gz" and "groups_need gz us ps \<le> max_er_group_arena_size"
  shows "\<exists>arena_size' \<ge> arena_size. echo_loop gz us ps arena_size = (us, ps, arena_size')"
  using assms by (rule echo_loop_whole)

definition example_sizes :: group_sizes where
  "example_sizes = \<lparr>gz_alignment = 8, gz_underlying = 72, gz_party = 64, gz_sub_id = 32\<rparr>"

theorem groups_echoed_whole_witness:
  "\<exists>arena_size' \<ge> 16. echo_loop example_sizes [\<lparr>ul_symbol = Some ''VOD'', ul_security_id = None, ul_qty = None\<rparr>]
     [\<lparr>pa_id = Some ''BROKER'', pa_source = None, pa_role = Some 1, pa_sub_ids = [\<lparr>ps_id = Some ''DESK'', ps_type = None\<rparr>]\<rparr>] 16 =
     ([\<lparr>ul_symbol = Some ''VOD'', ul_security_id = None, ul_qty = None\<rparr>],
      [\<lparr>pa_id = Some ''BROKER'', pa_source = None, pa_role = Some 1, pa_sub_ids = [\<lparr>ps_id = Some ''DESK'', ps_type = None\<rparr>]\<rparr>], arena_size')"
  by (rule groups_echoed_whole)
    (simp_all add: example_sizes_def groups_need_def need_after_def round_up_def max_er_group_arena_size_def)

end
