(* ===== verification/Ff1Cipher.thy ===== *)
theory Ff1Cipher
  imports Prelude
begin

text \<open>
  FF1, as \<open>applications/matching_engine/Ff1Cipher.cpp\<close> has it: ten Feistel rounds over the two halves of a
  string of numerals. AES is a parameter, the function \<open>aes\<close> from a block of 16 bytes to a block, and the
  results hold whatever it is. Bytes and 64-bit numbers are natural numbers, with the wrap-around of
  \<open>uint64_t\<close> and \<open>unsigned __int128\<close> written out.
\<close>

section \<open>Helpers\<close>

definition uint64_max :: nat where
  "uint64_max = 2 ^ 64 - 1"

definition wrap64 :: "nat \<Rightarrow> nat" where
  "wrap64 n = n mod 2 ^ 64"

lemma wrap64_id: "n \<le> uint64_max \<Longrightarrow> wrap64 n = n"
  by (simp add: wrap64_def uint64_max_def)

fun power_loop :: "nat \<Rightarrow> nat \<Rightarrow> nat \<Rightarrow> nat" where
  "power_loop radix 0 result = result"
| "power_loop radix (Suc steps) result =
     (if uint64_max div radix < result then 0 else power_loop radix steps (wrap64 (result * radix)))"

definition power_or_zero :: "nat \<Rightarrow> nat \<Rightarrow> nat" where
  "power_or_zero radix exponent = power_loop radix exponent 1"

definition number_of :: "nat \<Rightarrow> nat list \<Rightarrow> nat" where
  "number_of radix numerals = foldl (\<lambda>val numeral. wrap64 (val * radix + numeral)) 0 numerals"

fun numerals_of :: "nat \<Rightarrow> nat \<Rightarrow> nat \<Rightarrow> nat list" where
  "numerals_of radix 0 val = []"
| "numerals_of radix (Suc count) val = numerals_of radix count (val div radix) @ [val mod radix]"

fun bit_length :: "nat \<Rightarrow> nat" where
  "bit_length n = (if n = 0 then 0 else Suc (bit_length (n div 2)))"

declare bit_length.simps [simp del]

definition bits_for :: "nat \<Rightarrow> nat \<Rightarrow> nat" where
  "bits_for radix count = bit_length (power_or_zero radix count - 1)"

definition byte_at :: "nat \<Rightarrow> nat \<Rightarrow> nat" where
  "byte_at val shift = val div 2 ^ shift mod 256"

definition block_size :: nat where
  "block_size = 16"

definition max_numerals :: nat where
  "max_numerals = 64"

definition max_tweak_bytes :: nat where
  "max_tweak_bytes = 255"

section \<open>The rounds\<close>

datatype direction = Encrypt | Decrypt

text \<open>The first block, which describes the parameters: \<open>n\<close> numerals, \<open>u\<close> of them in the first half, a tweak of \<open>t\<close> bytes.\<close>

definition parameter_block :: "nat \<Rightarrow> nat \<Rightarrow> nat \<Rightarrow> nat \<Rightarrow> nat list" where
  "parameter_block radix u n t =
     [1, 2, 1, byte_at radix 16, byte_at radix 8, byte_at radix 0, 10, u mod 256,
      byte_at n 24, byte_at n 16, byte_at n 8, byte_at n 0, byte_at t 24, byte_at t 16, byte_at t 8, byte_at t 0]"

text \<open>The number \<open>val\<close> as \<open>b\<close> bytes, most significant first.\<close>

definition number_bytes :: "nat \<Rightarrow> nat \<Rightarrow> nat list" where
  "number_bytes b val = map (\<lambda>byte. let shift = 8 * (b - 1 - byte) in if 64 \<le> shift then 0 else byte_at val shift) [0..<b]"

definition round_block :: "nat list \<Rightarrow> nat \<Rightarrow> nat \<Rightarrow> nat \<Rightarrow> nat list" where
  "round_block tweak b i round_input =
     (let padding = (block_size - (length tweak + b + 1) mod block_size) mod block_size
      in tweak @ replicate padding 0 @ [i mod 256] @ number_bytes b round_input)"

text \<open>AES in CBC mode, keeping the last block.\<close>

function cbc_last :: "(nat list \<Rightarrow> nat list) \<Rightarrow> nat list \<Rightarrow> nat list \<Rightarrow> nat list" where
  "cbc_last aes r q =
     (if q = [] then r
      else cbc_last aes (aes (map2 (\<lambda>x y. xor x y mod 256) r (take block_size q))) (drop block_size q))"
  by auto
termination
  by (relation "measure (\<lambda>(aes, r, q). length q)") (auto simp: block_size_def)

declare cbc_last.simps [simp del]

text \<open>The first \<open>d\<close> bytes of a block as a number held in 128 bits.\<close>

definition wide_number :: "nat list \<Rightarrow> nat" where
  "wide_number bytes = foldl (\<lambda>y byte. (y * 256 + byte) mod 2 ^ 128) 0 bytes"

definition round_value :: "(nat list \<Rightarrow> nat list) \<Rightarrow> nat \<Rightarrow> nat list \<Rightarrow> nat \<Rightarrow> nat \<Rightarrow> nat \<Rightarrow> nat" where
  "round_value aes radix tweak n i round_input =
     (let u = n div 2; v = n - u;
          b = (bits_for radix v + 7) div 8;
          d = 4 * ((b + 3) div 4) + 4;
          after_p = aes (parameter_block radix u n (length tweak));
          r = cbc_last aes after_p (round_block tweak b i round_input)
      in wide_number (take d r))"

text \<open>One round, of the two halves \<open>a\<close> and \<open>bee\<close>; \<open>y\<close> is the round's number as a function of its input.\<close>

definition encrypt_round :: "(nat \<Rightarrow> nat \<Rightarrow> nat) \<Rightarrow> nat \<Rightarrow> nat \<Rightarrow> nat \<Rightarrow> nat \<times> nat \<Rightarrow> nat \<times> nat" where
  "encrypt_round y modulus_u modulus_v i halves =
     (case halves of (a, bee) \<Rightarrow>
       let modulus = (if i mod 2 = 0 then modulus_u else modulus_v)
       in (bee, (a + y i bee mod modulus) mod modulus))"

definition decrypt_round :: "(nat \<Rightarrow> nat \<Rightarrow> nat) \<Rightarrow> nat \<Rightarrow> nat \<Rightarrow> nat \<Rightarrow> nat \<times> nat \<Rightarrow> nat \<times> nat" where
  "decrypt_round y modulus_u modulus_v i halves =
     (case halves of (a, bee) \<Rightarrow>
       let modulus = (if i mod 2 = 0 then modulus_u else modulus_v)
       in ((bee + modulus - y i a mod modulus) mod modulus, a))"

definition run_rounds :: "(nat \<Rightarrow> nat \<Rightarrow> nat) \<Rightarrow> nat \<Rightarrow> nat \<Rightarrow> direction \<Rightarrow> nat \<times> nat \<Rightarrow> nat \<times> nat" where
  "run_rounds y modulus_u modulus_v direction halves =
     (case direction of
        Encrypt \<Rightarrow> fold (encrypt_round y modulus_u modulus_v) [0..<10] halves
      | Decrypt \<Rightarrow> fold (decrypt_round y modulus_u modulus_v) (map (\<lambda>step. 9 - step) [0..<10]) halves)"

definition ff1_run :: "(nat list \<Rightarrow> nat list) \<Rightarrow> nat \<Rightarrow> nat list \<Rightarrow> nat list \<Rightarrow> direction \<Rightarrow> nat list result" where
  "ff1_run aes radix numerals tweak direction =
     (let n = length numerals; u = n div 2; v = n - u;
          modulus_u = power_or_zero radix u; modulus_v = power_or_zero radix v
      in if n < 2 \<or> max_numerals < n then Inl PreconditionAssertion
         else if max_tweak_bytes < length tweak then Inl PreconditionAssertion
         else if \<exists>x \<in> set numerals. radix \<le> x then Inl PreconditionAssertion
         else if modulus_v = 0 then Inl PreconditionAssertion
         else let (a, bee) = run_rounds (round_value aes radix tweak n) modulus_u modulus_v direction
                (number_of radix (take u numerals), number_of radix (drop u numerals))
              in Inr (numerals_of radix u a @ numerals_of radix v bee))"

text \<open>The constructor, whose key only chooses the block function.\<close>

definition ff1_cipher :: "nat list \<Rightarrow> nat \<Rightarrow> unit result" where
  "ff1_cipher key radix =
     (if radix < 2 \<or> 65536 < radix then Inl PreconditionAssertion
      else if length key \<in> {16, 24, 32} then Inr () else Inl PreconditionAssertion)"

section \<open>Powers and numerals\<close>

lemma power_loop_eq:
  assumes "2 \<le> radix" and "0 < result" and "result \<le> uint64_max"
  shows "power_loop radix steps result = (if result * radix ^ steps \<le> uint64_max then result * radix ^ steps else 0)"
  using assms
proof (induction steps arbitrary: result)
  case 0
  then show ?case by simp
next
  case (Suc steps)
  have le: "uint64_max div radix < result \<longleftrightarrow> uint64_max < result * radix"
    using Suc.prems(1) by (simp add: div_less_iff_less_mult)
  show ?case
  proof (cases "uint64_max < result * radix")
    case True
    have "result * radix \<le> result * radix ^ Suc steps" using Suc.prems by simp
    with True have "\<not> result * radix ^ Suc steps \<le> uint64_max" by linarith
    with True le show ?thesis by (simp only: power_loop.simps if_True if_False)
  next
    case False
    with Suc.prems have "0 < result * radix" "wrap64 (result * radix) = result * radix" by (simp_all add: wrap64_id)
    with Suc.IH [of "result * radix"] Suc.prems False le show ?thesis by (simp add: algebra_simps)
  qed
qed

lemma power_or_zero_eq: "2 \<le> radix \<Longrightarrow> power_or_zero radix n = (if radix ^ n \<le> uint64_max then radix ^ n else 0)"
  using power_loop_eq [of radix 1 n] by (simp add: power_or_zero_def uint64_max_def)

lemma power_fits: "0 < radix \<Longrightarrow> radix * radix ^ n \<le> m \<Longrightarrow> radix ^ n \<le> m" for radix m :: nat
  by (erule le_trans [rotated]) simp

lemma number_of_snoc: "number_of radix (xs @ [x]) = wrap64 (number_of radix xs * radix + x)"
  by (simp add: number_of_def)

lemma number_of_bound:
  assumes "\<forall>x \<in> set xs. x < radix" and "radix ^ length xs \<le> uint64_max"
  shows "number_of radix xs < radix ^ length xs"
  using assms
proof (induction xs rule: rev_induct)
  case Nil
  then show ?case by (simp add: number_of_def)
next
  case (snoc x xs)
  then have r: "0 < radix" "x < radix" by auto
  then have "radix ^ length xs \<le> uint64_max" using snoc.prems(2) power_fits [of radix "length xs"] by simp
  with snoc have "number_of radix xs < radix ^ length xs" by auto
  then have "number_of radix xs + 1 \<le> radix ^ length xs" by simp
  then have "(number_of radix xs + 1) * radix \<le> radix ^ length xs * radix" by (rule mult_right_mono) simp
  then have b: "number_of radix xs * radix + x < radix ^ length (xs @ [x])"
    using r by (simp add: algebra_simps)
  with snoc.prems(2) show ?case by (simp add: number_of_snoc wrap64_id)
qed

lemma numerals_of_number:
  assumes "\<forall>x \<in> set xs. x < radix" and "radix ^ length xs \<le> uint64_max"
  shows "numerals_of radix (length xs) (number_of radix xs) = xs"
  using assms
proof (induction xs rule: rev_induct)
  case Nil
  then show ?case by simp
next
  case (snoc x xs)
  then have r: "0 < radix" "x < radix" by auto
  then have le: "radix ^ length xs \<le> uint64_max" using snoc.prems(2) power_fits [of radix "length xs"] by simp
  with snoc have IH: "numerals_of radix (length xs) (number_of radix xs) = xs" "radix ^ length xs \<le> uint64_max" by auto
  have "number_of radix xs < radix ^ length xs" using number_of_bound snoc.prems IH(2) by simp
  then have "(number_of radix xs + 1) * radix \<le> radix ^ length xs * radix" by (intro mult_right_mono) simp_all
  then have "number_of radix xs * radix + x < radix ^ length (xs @ [x])" using r by (simp add: algebra_simps)
  with snoc.prems(2) have "number_of radix (xs @ [x]) = number_of radix xs * radix + x" by (simp add: number_of_snoc wrap64_id)
  with IH(1) r show ?case by simp
qed

lemma length_numerals_of [simp]: "length (numerals_of radix n val) = n"
  by (induction n arbitrary: val) simp_all

lemma numerals_of_less: "0 < radix \<Longrightarrow> x \<in> set (numerals_of radix n val) \<Longrightarrow> x < radix"
  by (induction n arbitrary: val) auto

lemma number_of_numerals:
  assumes "val < radix ^ n" and "radix ^ n \<le> uint64_max"
  shows "number_of radix (numerals_of radix n val) = val"
  using assms
proof (induction n arbitrary: val)
  case 0
  then show ?case by (simp add: number_of_def)
next
  case (Suc n)
  then have r: "0 < radix" by (cases "radix = 0") auto
  then have "val div radix < radix ^ n" using Suc.prems(1) by (simp add: div_less_iff_less_mult algebra_simps)
  moreover have "radix ^ n \<le> uint64_max" using Suc.prems(2) power_fits [OF r, of n] by simp
  ultimately have "number_of radix (numerals_of radix n (val div radix)) = val div radix" by (rule Suc.IH)
  then have "number_of radix (numerals_of radix (Suc n) val) = wrap64 (val div radix * radix + val mod radix)"
    by (simp add: number_of_snoc)
  also have "\<dots> = val" using Suc.prems by (simp add: wrap64_id)
  finally show ?case .
qed

section \<open>The rounds undo one another\<close>

lemma encrypt_round_range:
  assumes "0 < modulus_u" and "0 < modulus_v"
    and "a < (if i mod 2 = 0 then modulus_u else modulus_v)" and "bee < (if i mod 2 = 0 then modulus_v else modulus_u)"
    and "encrypt_round y modulus_u modulus_v i (a, bee) = (a', bee')"
  shows "a' < (if Suc i mod 2 = 0 then modulus_u else modulus_v)" and "bee' < (if Suc i mod 2 = 0 then modulus_v else modulus_u)"
  using assms by (auto simp: encrypt_round_def Let_def mod_Suc split: if_splits)

lemma add_sub_mod:
  fixes x y m :: nat
  assumes "x < m"
  shows "((x + y mod m) mod m + m - y mod m) mod m = x" and "((x + m - y mod m) mod m + y mod m) mod m = x"
proof -
  define r where "r = y mod m"
  have r: "r < m" unfolding r_def using assms by (intro mod_less_divisor) simp
  have over: "z mod m = z - m" if "m \<le> z" "z < m + m" for z
    using that by (simp add: le_mod_geq)
  show "((x + y mod m) mod m + m - y mod m) mod m = x"
  proof (cases "x + r < m")
    case True
    then show ?thesis using assms over [of "x + m"] by (simp add: r_def [symmetric])
  next
    case False
    with r assms over [of "x + r"] show ?thesis by (simp add: r_def [symmetric])
  qed
  show "((x + m - y mod m) mod m + y mod m) mod m = x"
  proof (cases "x < r")
    case True
    then show ?thesis using r assms over [of "x + m"] by (simp add: r_def [symmetric])
  next
    case False
    with r assms over [of "x + m - r"] show ?thesis by (simp add: r_def [symmetric])
  qed
qed

lemma decrypt_encrypt_round:
  assumes "a < (if i mod 2 = 0 then modulus_u else modulus_v)"
  shows "decrypt_round y modulus_u modulus_v i (encrypt_round y modulus_u modulus_v i (a, bee)) = (a, bee)"
  using assms by (simp add: encrypt_round_def decrypt_round_def Let_def add_sub_mod)

lemma encrypt_decrypt_round:
  assumes "bee < (if i mod 2 = 0 then modulus_u else modulus_v)"
  shows "encrypt_round y modulus_u modulus_v i (decrypt_round y modulus_u modulus_v i (a, bee)) = (a, bee)"
  using assms by (simp add: encrypt_round_def decrypt_round_def Let_def add_sub_mod)

text \<open>The halves in range before round \<open>i\<close>.\<close>

definition halves_ok :: "nat \<Rightarrow> nat \<Rightarrow> nat \<Rightarrow> nat \<times> nat \<Rightarrow> bool" where
  "halves_ok modulus_u modulus_v i halves \<longleftrightarrow>
     fst halves < (if i mod 2 = 0 then modulus_u else modulus_v) \<and> snd halves < (if i mod 2 = 0 then modulus_v else modulus_u)"

lemma encrypt_rounds:
  assumes "0 < modulus_u" and "0 < modulus_v" and "halves_ok modulus_u modulus_v 0 h"
  shows "halves_ok modulus_u modulus_v n (fold (encrypt_round y modulus_u modulus_v) [0..<n] h)"
    and "fold (decrypt_round y modulus_u modulus_v) (rev [0..<n]) (fold (encrypt_round y modulus_u modulus_v) [0..<n] h) = h"
proof (induction n)
  case (Suc n)
  let ?h = "fold (encrypt_round y modulus_u modulus_v) [0..<n] h"
  obtain a bee where h: "?h = (a, bee)" by fastforce
  case 1
  obtain a' bee' where h': "encrypt_round y modulus_u modulus_v n (a, bee) = (a', bee')" by fastforce
  from encrypt_round_range [OF assms(1,2) _ _ h'] Suc.IH(1) h h' show ?case by (simp add: halves_ok_def)
  case 2
  from Suc.IH(1) h have "decrypt_round y modulus_u modulus_v n (encrypt_round y modulus_u modulus_v n ?h) = ?h"
    by (simp add: decrypt_encrypt_round halves_ok_def)
  with Suc.IH(2) show ?case by simp
qed (use assms in simp_all)

lemma decrypt_round_range:
  assumes "0 < modulus_u" and "0 < modulus_v" and "halves_ok modulus_u modulus_v (Suc i) h"
  shows "halves_ok modulus_u modulus_v i (decrypt_round y modulus_u modulus_v i h)"
  using assms by (cases h) (auto simp: halves_ok_def decrypt_round_def Let_def mod_Suc split: if_splits)

lemma decrypt_rounds_range:
  assumes "0 < modulus_u" and "0 < modulus_v"
  shows "halves_ok modulus_u modulus_v n h \<Longrightarrow>
    halves_ok modulus_u modulus_v 0 (fold (decrypt_round y modulus_u modulus_v) (rev [0..<n]) h)"
  by (induction n arbitrary: h) (simp_all add: decrypt_round_range [OF assms])

lemma encrypt_decrypt_rounds:
  assumes "0 < modulus_u" and "0 < modulus_v"
  shows "halves_ok modulus_u modulus_v n h \<Longrightarrow>
    fold (encrypt_round y modulus_u modulus_v) [0..<n] (fold (decrypt_round y modulus_u modulus_v) (rev [0..<n]) h) = h"
proof (induction n arbitrary: h)
  case (Suc n)
  have "snd h < (if n mod 2 = 0 then modulus_u else modulus_v)" using Suc.prems by (simp add: halves_ok_def mod_Suc split: if_splits)
  then have "encrypt_round y modulus_u modulus_v n (decrypt_round y modulus_u modulus_v n h) = h"
    using encrypt_decrypt_round [of "snd h" n modulus_u modulus_v y "fst h"] by simp
  with Suc.IH [OF decrypt_round_range [OF assms Suc.prems]] show ?case by simp
qed simp

lemma ten_rounds_backwards: "map (\<lambda>step. 9 - step) [0..<10] = rev [0..<10::nat]"
  by code_simp

lemma run_rounds_inverse:
  assumes "0 < modulus_u" and "0 < modulus_v" and "halves_ok modulus_u modulus_v 0 h"
  shows "halves_ok modulus_u modulus_v 0 (run_rounds y modulus_u modulus_v dir h)"
    and "run_rounds y modulus_u modulus_v Decrypt (run_rounds y modulus_u modulus_v Encrypt h) = h"
    and "run_rounds y modulus_u modulus_v Encrypt (run_rounds y modulus_u modulus_v Decrypt h) = h"
proof -
  have ten: "halves_ok modulus_u modulus_v 10 g = halves_ok modulus_u modulus_v 0 g" for g by (simp add: halves_ok_def)
  show "halves_ok modulus_u modulus_v 0 (run_rounds y modulus_u modulus_v dir h)"
    using encrypt_rounds(1) [OF assms, of 10 y] decrypt_rounds_range [OF assms(1,2), of 10 h y] assms(3)
    by (cases dir) (simp_all only: run_rounds_def direction.case ten ten_rounds_backwards)
  show "run_rounds y modulus_u modulus_v Decrypt (run_rounds y modulus_u modulus_v Encrypt h) = h"
    using encrypt_rounds(2) [OF assms, of y 10] by (simp only: run_rounds_def direction.case ten_rounds_backwards)
  show "run_rounds y modulus_u modulus_v Encrypt (run_rounds y modulus_u modulus_v Decrypt h) = h"
    using encrypt_decrypt_rounds [OF assms(1,2), of 10 h y] assms(3) by (simp only: run_rounds_def direction.case ten ten_rounds_backwards)
qed

section \<open>What the cipher accepts, and that it is one-to-one\<close>

definition ff1_accepts :: "nat \<Rightarrow> nat list \<Rightarrow> nat list \<Rightarrow> bool" where
  "ff1_accepts radix numerals tweak \<longleftrightarrow>
     2 \<le> length numerals \<and> length numerals \<le> max_numerals \<and> length tweak \<le> max_tweak_bytes \<and>
     (\<forall>x \<in> set numerals. x < radix) \<and> radix ^ (length numerals - length numerals div 2) \<le> uint64_max"

lemma ff1_run_cases:
  assumes "2 \<le> radix"
  shows "ff1_run aes radix xs tweak dir =
    (if ff1_accepts radix xs tweak
     then let u = length xs div 2; v = length xs - u;
              (a, bee) = run_rounds (round_value aes radix tweak (length xs)) (radix ^ u) (radix ^ v) dir
                (number_of radix (take u xs), number_of radix (drop u xs))
          in Inr (numerals_of radix u a @ numerals_of radix v bee)
     else Inl PreconditionAssertion)"
proof -
  let ?u = "length xs div 2"
  have "radix ^ ?u \<le> radix ^ (length xs - ?u)" using assms by (intro power_increasing) simp_all
  then have "radix ^ ?u \<le> uint64_max" if "ff1_accepts radix xs tweak" using that by (simp add: ff1_accepts_def)
  then show ?thesis using assms
    by (auto simp: ff1_run_def ff1_accepts_def Let_def power_or_zero_eq not_le not_less split: prod.split)
qed

lemma half_fits:
  assumes "2 \<le> radix" and "ff1_accepts radix xs tweak"
  defines "u \<equiv> length xs div 2"
  shows "radix ^ u \<le> uint64_max" and "radix ^ (length xs - u) \<le> uint64_max"
    and "number_of radix (take u xs) < radix ^ u" and "number_of radix (drop u xs) < radix ^ (length xs - u)"
    and "numerals_of radix u (number_of radix (take u xs)) = take u xs"
    and "numerals_of radix (length xs - u) (number_of radix (drop u xs)) = drop u xs"
proof -
  have "radix ^ u \<le> radix ^ (length xs - u)" using assms(1) by (intro power_increasing) (simp_all add: u_def)
  moreover have "radix ^ (length xs - u) \<le> uint64_max" using assms(2) by (simp add: ff1_accepts_def u_def)
  ultimately show fits: "radix ^ u \<le> uint64_max" "radix ^ (length xs - u) \<le> uint64_max" by (auto intro: le_trans)
  have len: "length (take u xs) = u" "length (drop u xs) = length xs - u" by (simp_all add: u_def)
  have less: "\<forall>x \<in> set (take u xs). x < radix" "\<forall>x \<in> set (drop u xs). x < radix"
    using assms(2) in_set_takeD in_set_dropD by (fastforce simp: ff1_accepts_def)+
  show "number_of radix (take u xs) < radix ^ u" "number_of radix (drop u xs) < radix ^ (length xs - u)"
    using number_of_bound [OF less(1)] number_of_bound [OF less(2)] fits unfolding len by simp_all
  show "numerals_of radix u (number_of radix (take u xs)) = take u xs"
    "numerals_of radix (length xs - u) (number_of radix (drop u xs)) = drop u xs"
    using numerals_of_number [OF less(1)] numerals_of_number [OF less(2)] fits unfolding len by simp_all
qed

lemma ff1_invert:
  assumes radix: "2 \<le> radix" and ok: "ff1_accepts radix xs tweak"
    and inv: "\<And>y m n h. 0 < m \<Longrightarrow> 0 < n \<Longrightarrow> halves_ok m n 0 h \<Longrightarrow> run_rounds y m n dir' (run_rounds y m n dir h) = h"
  shows "\<exists>ys. ff1_run aes radix xs tweak dir = Inr ys \<and> length ys = length xs \<and> ff1_accepts radix ys tweak \<and>
    ff1_run aes radix ys tweak dir' = Inr xs"
proof -
  let ?n = "length xs" and ?y = "round_value aes radix tweak (length xs)"
  let ?u = "?n div 2" and ?v = "?n - ?n div 2"
  let ?h = "(number_of radix (take ?u xs), number_of radix (drop ?u xs))"
  note H = half_fits [OF radix ok]
  have pos: "0 < radix ^ ?u" "0 < radix ^ ?v" using radix by simp_all
  have ok0: "halves_ok (radix ^ ?u) (radix ^ ?v) 0 ?h" using H by (simp add: halves_ok_def)
  obtain a bee where ab: "run_rounds ?y (radix ^ ?u) (radix ^ ?v) dir ?h = (a, bee)" by fastforce
  have in_range: "a < radix ^ ?u" "bee < radix ^ ?v"
    using run_rounds_inverse(1) [OF pos ok0, of ?y dir] ab by (simp_all add: halves_ok_def)
  let ?ys = "numerals_of radix ?u a @ numerals_of radix ?v bee"
  have len: "length ?ys = ?n" by simp
  have acc: "ff1_accepts radix ?ys tweak"
    using ok numerals_of_less [of radix] radix by (fastforce simp: ff1_accepts_def)
  have undone: "run_rounds ?y (radix ^ ?u) (radix ^ ?v) dir' (a, bee) = ?h" using inv [OF pos ok0, of ?y] ab by simp
  have "take ?u ?ys = numerals_of radix ?u a" "drop ?u ?ys = numerals_of radix ?v bee" by simp_all
  then have "ff1_run aes radix ?ys tweak dir' = Inr xs"
    using acc undone H in_range by (simp add: ff1_run_cases [OF radix] len Let_def number_of_numerals)
  moreover have "ff1_run aes radix xs tweak dir = Inr ?ys" using ok ab by (simp add: ff1_run_cases [OF radix] Let_def)
  ultimately show ?thesis using len acc by blast
qed

text \<open>
  C28. FF1 is one-to-one whatever the block cipher is: every string of numerals it accepts is encrypted to a
  string of the same length in the same radix, which decrypts to the string it came from; and every such
  string is the encryption of the one it decrypts to.
\<close>

theorem ff1_round_trip:
  assumes "2 \<le> radix" and "ff1_accepts radix xs tweak"
  shows "(\<exists>ys. ff1_run aes radix xs tweak Encrypt = Inr ys \<and> length ys = length xs \<and> (\<forall>y \<in> set ys. y < radix) \<and>
      ff1_run aes radix ys tweak Decrypt = Inr xs) \<and>
    (\<exists>zs. ff1_run aes radix xs tweak Decrypt = Inr zs \<and> length zs = length xs \<and> (\<forall>z \<in> set zs. z < radix) \<and>
      ff1_run aes radix zs tweak Encrypt = Inr xs)"
  using ff1_invert [OF assms run_rounds_inverse(2), of aes] ff1_invert [OF assms run_rounds_inverse(3), of aes]
  by (fastforce simp: ff1_accepts_def)

lemma ff1_accepts_identifier: "length xs = 16 \<Longrightarrow> \<forall>x \<in> set xs. x < 16 \<Longrightarrow> ff1_accepts 16 xs []"
  by (simp add: ff1_accepts_def max_numerals_def max_tweak_bytes_def uint64_max_def)

theorem ff1_round_trip_witness:
  "\<exists>ys. ff1_run (\<lambda>block. rev block) 16 (replicate 15 3 @ [7]) [] Encrypt = Inr ys \<and> length ys = 16 \<and>
     ff1_run (\<lambda>block. rev block) 16 ys [] Decrypt = Inr (replicate 15 3 @ [7])"
  using ff1_round_trip [of 16 "replicate 15 3 @ [7]" "[]" "\<lambda>block. rev block"] ff1_accepts_identifier [of "replicate 15 3 @ [7]"]
  by auto

end
