(* ===== verification/ReportIdentifiers.thy ===== *)
theory ReportIdentifiers
  imports Ff1Cipher Decimals
begin

text \<open>
  The matching engine's OrderID and ExecID values, as \<open>applications/matching_engine/ReportIdentifiers.cpp\<close>
  makes them from positions in the WAL and turns them back. HMAC-SHA256 and AES are the fields of \<open>crypto\<close>;
  no property of either is assumed. Bytes are natural numbers.
\<close>

record crypto =
  cr_hmac :: "nat list \<Rightarrow> string \<Rightarrow> nat list"
  cr_aes :: "nat list \<Rightarrow> nat list \<Rightarrow> nat list"

section \<open>Dates and hexadecimal digits\<close>

definition trading_date_text :: "int \<Rightarrow> string" where
  "trading_date_text d = padded 4 (c_div d 10000) @ ''-'' @ padded 2 (c_mod (c_div d 100) 100) @ ''-'' @ padded 2 (c_mod d 100)"

definition hex_value :: "char \<Rightarrow> int" where
  "hex_value c =
     (let n = of_char c :: int
      in if 48 \<le> n \<and> n \<le> 57 then n - 48
         else if 97 \<le> n \<and> n \<le> 102 then n - 97 + 10
         else if 65 \<le> n \<and> n \<le> 70 then n - 65 + 10
         else -1)"

definition hex_digits :: string where
  "hex_digits = ''0123456789ABCDEF''"

section \<open>The secret\<close>

definition secret_size :: nat where
  "secret_size = 32"

text \<open>\<open>std::isspace\<close> in the C locale.\<close>

definition is_space :: "char \<Rightarrow> bool" where
  "is_space c \<longleftrightarrow> (of_char c :: nat) \<in> {9, 10, 11, 12, 13, 32}"

fun hex_pairs :: "string \<Rightarrow> nat list option" where
  "hex_pairs [] = Some []"
| "hex_pairs [c] = None"
| "hex_pairs (h # l # rest) =
     (if hex_value h < 0 \<or> hex_value l < 0 then None
      else map_option (\<lambda>bytes. nat (hex_value h * 16 + hex_value l) # bytes) (hex_pairs rest))"

text \<open>The contents of the file, or \<open>None\<close> where it cannot be opened.\<close>

definition read_secret_file :: "string option \<Rightarrow> nat list result" where
  "read_secret_file contents =
     (case contents of
        None \<Rightarrow> Inl RuntimeError
      | Some c \<Rightarrow>
          let text = rev (dropWhile is_space (rev c))
          in if length text \<noteq> 2 * secret_size then Inl RuntimeError
             else case hex_pairs text of None \<Rightarrow> Inl RuntimeError | Some secret \<Rightarrow> Inr secret)"

section \<open>Making and reading identifiers\<close>

datatype identifier_kind = KindOrder | KindReport

record identifier_position =
  ip_kind :: identifier_kind
  ip_sequence_number :: int
  ip_place :: int

record report_identifiers =
  ri_secret :: "nat list"
  ri_trading_date :: int
  ri_ciphers :: "(nat list \<times> nat list) option"

definition new_identifiers :: "nat list \<Rightarrow> report_identifiers" where
  "new_identifiers secret = \<lparr>ri_secret = secret, ri_trading_date = -1, ri_ciphers = None\<rparr>"

definition sequence_number_limit :: int where
  "sequence_number_limit = 2 ^ 36"

definition place_limit :: int where
  "place_limit = 2 ^ 28"

definition identifier_fits :: "int \<Rightarrow> int \<Rightarrow> bool" where
  "identifier_fits sequence_number place \<longleftrightarrow>
     0 \<le> sequence_number \<and> sequence_number < sequence_number_limit \<and> 0 \<le> place \<and> place < place_limit"

definition use_trading_date :: "crypto \<Rightarrow> int \<Rightarrow> report_identifiers \<Rightarrow> report_identifiers" where
  "use_trading_date cr trading_date ids =
     (if trading_date = ri_trading_date ids then ids
      else let day_key = cr_hmac cr (ri_secret ids) (trading_date_text trading_date)
           in ids\<lparr>ri_ciphers := Some (cr_hmac cr day_key ''OrderID'', cr_hmac cr day_key ''ExecID''),
                  ri_trading_date := trading_date\<rparr>)"

definition packed_position :: "int \<Rightarrow> int \<Rightarrow> nat" where
  "packed_position sequence_number place = nat (sequence_number * 2 ^ 28 + place)"

definition packed_numerals :: "nat \<Rightarrow> nat list" where
  "packed_numerals packed = map (\<lambda>index. packed div 2 ^ (4 * (15 - index)) mod 16) [0..<16]"

definition make_identifier :: "crypto \<Rightarrow> char \<Rightarrow> nat list \<Rightarrow> int \<Rightarrow> int \<Rightarrow> string result" where
  "make_identifier cr letter key sequence_number place =
     (if \<not> identifier_fits sequence_number place then Inl PreconditionAssertion
      else bind_result (ff1_run (cr_aes cr key) 16 (packed_numerals (packed_position sequence_number place)) [] Encrypt)
             (\<lambda>numerals. Inr (letter # map (\<lambda>numeral. hex_digits ! numeral) numerals)))"

definition order_id :: "crypto \<Rightarrow> report_identifiers \<Rightarrow> int \<Rightarrow> string result" where
  "order_id cr ids placed_at_seq_no =
     (case ri_ciphers ids of
        None \<Rightarrow> Inl PreconditionAssertion
      | Some (order_key, _) \<Rightarrow> make_identifier cr (CHR ''O'') order_key placed_at_seq_no 0)"

definition exec_id :: "crypto \<Rightarrow> report_identifiers \<Rightarrow> int \<Rightarrow> int \<Rightarrow> string result" where
  "exec_id cr ids sequence_number place =
     (case ri_ciphers ids of
        None \<Rightarrow> Inl PreconditionAssertion
      | Some (_, report_key) \<Rightarrow> make_identifier cr (CHR ''E'') report_key sequence_number place)"

definition position_of :: "crypto \<Rightarrow> report_identifiers \<Rightarrow> string \<Rightarrow> identifier_position option result" where
  "position_of cr ids identifier =
     (case ri_ciphers ids of
        None \<Rightarrow> Inl PreconditionAssertion
      | Some (order_key, report_key) \<Rightarrow>
          if length identifier \<noteq> 17 \<or> (hd identifier \<noteq> CHR ''O'' \<and> hd identifier \<noteq> CHR ''E'') then Inr None
          else if \<exists>c \<in> set (tl identifier). hex_value c < 0 then Inr None
          else let kind = (if hd identifier = CHR ''O'' then KindOrder else KindReport)
               in bind_result (ff1_run (cr_aes cr (if kind = KindOrder then order_key else report_key)) 16
                      (map (\<lambda>c. nat (hex_value c)) (tl identifier)) [] Decrypt)
                    (\<lambda>numerals. let packed = foldl (\<lambda>p numeral. wrap64 (p * 16) + numeral) 0 numerals
                       in Inr (Some \<lparr>ip_kind = kind, ip_sequence_number = int (packed div 2 ^ 28),
                                     ip_place = int (packed mod 2 ^ 28)\<rparr>)))"

text \<open>The first eight bytes of the digest, as a signed 64-bit number.\<close>

definition secret_fingerprint :: "crypto \<Rightarrow> report_identifiers \<Rightarrow> int" where
  "secret_fingerprint cr ids =
     (let v = foldl (\<lambda>v byte. wrap64 (v * 256) + byte) 0 (take 8 (cr_hmac cr (ri_secret ids) ''fingerprint''))
      in if 2 ^ 63 \<le> v then int v - 2 ^ 64 else int v)"

section \<open>Packing\<close>

lemma packed_numerals_ok: "length (packed_numerals p) = 16" "\<forall>x \<in> set (packed_numerals p). x < 16"
  by (auto simp: packed_numerals_def)

lemma packed_numerals_rec:
  "packed_numerals p = numerals_of 16 16 p"
proof -
  have gen: "map (\<lambda>index. p div 2 ^ (4 * (n - 1 - index)) mod 16) [0..<n] = numerals_of 16 n p" for n
  proof (induction n arbitrary: p)
    case (Suc n)
    have "map (\<lambda>index. p div 2 ^ (4 * (Suc n - 1 - index)) mod 16) [0..<n] =
        map (\<lambda>index. p div 16 div 2 ^ (4 * (n - 1 - index)) mod 16) [0..<n]"
    proof (rule map_cong [OF refl])
      fix i assume "i \<in> set [0..<n]"
      then have "4 * (Suc n - 1 - i) = 4 + 4 * (n - 1 - i)" by auto
      then have "(2 :: nat) ^ (4 * (Suc n - 1 - i)) = 16 * 2 ^ (4 * (n - 1 - i))" by (simp only: power_add) simp
      then show "p div 2 ^ (4 * (Suc n - 1 - i)) mod 16 = p div 16 div 2 ^ (4 * (n - 1 - i)) mod 16"
        by (simp only: div_mult2_eq)
    qed
    with Suc.IH [of "p div 16"] show ?case by simp
  qed simp
  show ?thesis using gen [of 16] by (simp add: packed_numerals_def)
qed

lemma packed_range:
  assumes "identifier_fits s k"
  shows "packed_position s k < 16 ^ 16" and "int (packed_position s k div 2 ^ 28) = s" and "int (packed_position s k mod 2 ^ 28) = k"
proof -
  have b: "0 \<le> s" "s < 68719476736" "0 \<le> k" "k < 268435456"
    using assms by (simp_all add: identifier_fits_def sequence_number_limit_def place_limit_def)
  have p: "packed_position s k = nat s * 268435456 + nat k"
    using b by (simp add: packed_position_def nat_add_distrib nat_mult_distrib)
  from b show "packed_position s k < 16 ^ 16" by (simp add: p)
  from b show "int (packed_position s k div 2 ^ 28) = s" "int (packed_position s k mod 2 ^ 28) = k" by (simp_all add: p)
qed

lemma unpack_numerals:
  "n \<le> 16 \<Longrightarrow> p < 16 ^ n \<Longrightarrow> foldl (\<lambda>p numeral. wrap64 (p * 16) + numeral) 0 (numerals_of 16 n p) = p"
proof (induction n arbitrary: p)
  case (Suc n)
  then have "p div 16 < 16 ^ n" by (simp add: div_less_iff_less_mult)
  moreover have "(16 :: nat) ^ Suc n \<le> 16 ^ 16" using Suc.prems(1) by (intro power_increasing) simp_all
  then have "p < 2 ^ 64" using Suc.prems(2) by simp
  then have "wrap64 (p div 16 * 16) = p div 16 * 16" by (intro wrap64_id) (simp add: uint64_max_def)
  ultimately show ?case using Suc by simp
qed simp

section \<open>Identifiers and positions are in one-to-one correspondence\<close>

lemma hex_round_trip:
  assumes "x < 16"
  shows "nat (hex_value (hex_digits ! x)) = x" and "\<not> hex_value (hex_digits ! x) < 0"
proof -
  have "\<forall>x < 16. nat (hex_value (hex_digits ! x)) = x \<and> \<not> hex_value (hex_digits ! x) < 0" by code_simp
  with assms show "nat (hex_value (hex_digits ! x)) = x" "\<not> hex_value (hex_digits ! x) < 0" by blast+
qed

lemma make_identifier_position:
  assumes fits: "identifier_fits s k" and letter: "letter = CHR ''O'' \<or> letter = CHR ''E''"
    and ciphers: "ri_ciphers ids = Some (order_key, report_key)" and key: "key = (if letter = CHR ''O'' then order_key else report_key)"
  shows "\<exists>identifier. make_identifier cr letter key s k = Inr identifier \<and> length identifier = 17 \<and>
    position_of cr ids identifier =
      Inr (Some \<lparr>ip_kind = (if letter = CHR ''O'' then KindOrder else KindReport), ip_sequence_number = s, ip_place = k\<rparr>)"
proof -
  let ?p = "packed_position s k"
  have acc: "ff1_accepts 16 (packed_numerals ?p) []" using packed_numerals_ok by (rule ff1_accepts_identifier)
  obtain ys where ys: "ff1_run (cr_aes cr key) 16 (packed_numerals ?p) [] Encrypt = Inr ys" "length ys = 16"
    "ff1_accepts 16 ys []" "ff1_run (cr_aes cr key) 16 ys [] Decrypt = Inr (packed_numerals ?p)"
    using ff1_invert [OF _ acc run_rounds_inverse(2), of "cr_aes cr key"] packed_numerals_ok(1) by auto
  let ?t = "map (\<lambda>numeral. hex_digits ! numeral) ys"
  have less: "y < 16" if "y \<in> set ys" for y using ys(3) that by (simp add: ff1_accepts_def)
  have "map (\<lambda>c. nat (hex_value c)) ?t = ys" using less by (simp add: map_idI hex_round_trip)
  moreover have "\<not> (\<exists>c \<in> set ?t. hex_value c < 0)" using less hex_round_trip(2) by auto
  moreover have "foldl (\<lambda>p numeral. wrap64 (p * 16) + numeral) 0 (packed_numerals ?p) = ?p"
    unfolding packed_numerals_rec using packed_range(1) [OF fits] by (intro unpack_numerals) simp_all
  ultimately have "position_of cr ids (letter # ?t) =
      Inr (Some \<lparr>ip_kind = (if letter = CHR ''O'' then KindOrder else KindReport), ip_sequence_number = s, ip_place = k\<rparr>)"
    using ys letter ciphers key packed_range(2,3) [OF fits] by (auto simp: position_of_def Let_def)
  moreover have "make_identifier cr letter key s k = Inr (letter # ?t)" using fits ys(1) by (simp add: make_identifier_def)
  ultimately show ?thesis using ys(2) by auto
qed

lemma order_id_position:
  assumes "identifier_fits s 0" and "ri_ciphers ids \<noteq> None"
  shows "\<exists>identifier. order_id cr ids s = Inr identifier \<and>
    position_of cr ids identifier = Inr (Some \<lparr>ip_kind = KindOrder, ip_sequence_number = s, ip_place = 0\<rparr>)"
proof -
  from assms(2) obtain ok rk where c: "ri_ciphers ids = Some (ok, rk)" by auto
  from make_identifier_position [OF assms(1), of "CHR ''O''" ids ok rk ok cr] c show ?thesis by (auto simp: order_id_def)
qed

lemma exec_id_position:
  assumes "identifier_fits s k" and "ri_ciphers ids \<noteq> None"
  shows "\<exists>identifier. exec_id cr ids s k = Inr identifier \<and>
    position_of cr ids identifier = Inr (Some \<lparr>ip_kind = KindReport, ip_sequence_number = s, ip_place = k\<rparr>)"
proof -
  from assms(2) obtain ok rk where c: "ri_ciphers ids = Some (ok, rk)" by auto
  from make_identifier_position [OF assms(1), of "CHR ''E''" ids ok rk rk cr] c show ?thesis by (auto simp: exec_id_def)
qed

lemma exec_id_inject:
  assumes "identifier_fits s k" and "identifier_fits s' k'" and "ri_ciphers ids \<noteq> None" and "exec_id cr ids s k = exec_id cr ids s' k'"
  shows "s = s'" and "k = k'"
  using exec_id_position [OF assms(1,3), of cr] exec_id_position [OF assms(2,3), of cr] assms(4) by auto

text \<open>
  C27. Once a trading date has been given, every position that fits has an OrderID and an ExecID, and each of
  them is turned back into the position it was made from. So no two positions share an identifier, and no
  OrderID is an ExecID.
\<close>

theorem identifiers_name_one_position:
  assumes "identifier_fits s k" and "ri_trading_date ids \<noteq> date"
  shows "\<exists>e. exec_id cr (use_trading_date cr date ids) s k = Inr e \<and>
      position_of cr (use_trading_date cr date ids) e =
        Inr (Some \<lparr>ip_kind = KindReport, ip_sequence_number = s, ip_place = k\<rparr>) \<and>
    (\<exists>x. order_id cr (use_trading_date cr date ids) s = Inr x \<and>
      position_of cr (use_trading_date cr date ids) x =
        Inr (Some \<lparr>ip_kind = KindOrder, ip_sequence_number = s, ip_place = 0\<rparr>))"
proof -
  have "ri_ciphers (use_trading_date cr date ids) \<noteq> None" using assms(2) by (simp add: use_trading_date_def Let_def)
  moreover have "identifier_fits s 0" using assms(1) by (simp add: identifier_fits_def place_limit_def)
  ultimately show ?thesis using exec_id_position [OF assms(1)] order_id_position by meson
qed

theorem identifiers_name_one_position_witness:
  "\<exists>e. exec_id \<lparr>cr_hmac = (\<lambda>_ _. []), cr_aes = (\<lambda>_ b. b)\<rparr>
     (use_trading_date \<lparr>cr_hmac = (\<lambda>_ _. []), cr_aes = (\<lambda>_ b. b)\<rparr> 20261025 (new_identifiers [])) 41 3 = Inr e"
  using identifiers_name_one_position [of 41 3 "new_identifiers []" 20261025 "\<lparr>cr_hmac = (\<lambda>_ _. []), cr_aes = (\<lambda>_ b. b)\<rparr>"]
  by (auto simp: identifier_fits_def new_identifiers_def sequence_number_limit_def place_limit_def)

end
