(* ===== verification/MatchingEngine.thy ===== *)
theory MatchingEngine
  imports OrderBook VoidedCommands GroupEcho ReportIdentifiers
begin

text \<open>
  \<open>applications/matching_engine/MatchingEngineStateMachine.{hpp,cpp}\<close>: how the engine applies a command of the WAL.
  The state is the class's, with the book and the maker of identifiers it is given references to, and the
  calls it makes of its outputs in the order it makes them. A function that can throw returns the error beside
  the state as it was left. What can throw is a field of \<open>faults\<close>: the index that cannot grow, and the outputs'
  \<open>send_report\<close>, of the command's report and of the rejection after a failure. Logging is left out.
\<close>

section \<open>Messages\<close>

datatype exec_type = Exec_new | Exec_canceled | Exec_rejected

datatype ord_status = Status_new | Status_canceled | Status_rejected

datatype ord_rej_reason = ExchangeClosed | UnknownOrder | DuplicateOrder | OtherReason

record execution_report =
  er_order_id :: string
  er_exec_id :: string
  er_exec_type :: exec_type
  er_ord_status :: ord_status
  er_symbol :: string
  er_side :: int
  er_leaves_qty :: string
  er_cum_qty :: string
  er_avg_px :: string
  er_transact_time :: int
  er_cl_ord_id :: "string option"
  er_orig_cl_ord_id :: "string option"
  er_order_qty :: "string option"
  er_ord_rej_reason :: "ord_rej_reason option"
  er_text :: "string option"
  er_ord_type :: "int option"
  er_time_in_force :: "int option"
  er_expire_time :: "int option"
  er_price :: "string option"
  er_no_underlyings :: "underlying list"
  er_no_party_ids :: "party_id list"

record new_order_single =
  no_cl_ord_id :: string
  no_symbol :: string
  no_side :: int
  no_order_qty :: string
  no_ord_type :: int
  no_time_in_force :: "int option"
  no_expire_time :: "int option"
  no_price :: "string option"
  no_no_underlyings :: "underlying list"
  no_no_party_ids :: "party_id list"

record order_cancel_request =
  oc_cl_ord_id :: string
  oc_orig_cl_ord_id :: string
  oc_symbol :: string
  oc_side :: int
  oc_order_qty :: "string option"

record technical_event =
  te_halted :: bool
  te_trading_day :: int

record void_commands =
  vc_first_seq_no :: int
  vc_last_seq_no :: int
  vc_new_orders_only :: bool
  vc_reason :: void_reason

section \<open>The state machine's state, and what it is given\<close>

datatype report_is_repeat = Not_repeat | Possible_repeat

datatype command_source = Live | Catch_up

datatype order_outcome_kind =
  Accepted | RefusedDuplicate | RefusedTooLong | RefusedVoided | Cancelled | CancelRefusedUnknown | CancelRefusedTooLong | CancelRefusedVoided

datatype engine_output =
  Send_report execution_report int session_identity report_is_repeat
| Order_outcome session_identity string order_outcome_kind report_is_repeat int string
| Order_accepted

record faults =
  fl_index_full :: bool
  fl_send :: bool
  fl_rejection :: bool

record engine_env =
  ev_crypto :: crypto
  ev_sizes :: group_sizes
  ev_faults :: faults

record engine =
  en_book :: order_book
  en_identifiers :: report_identifiers
  en_highest_applied_seq_no :: int
  en_voids :: "voided_range list"
  en_reports_for_command :: int
  en_book_changed_by_command :: bool
  en_arena_size :: nat
  en_outputs :: "engine_output list"

definition new_engine :: "order_book \<Rightarrow> report_identifiers \<Rightarrow> engine" where
  "new_engine book identifiers =
     \<lparr>en_book = book, en_identifiers = identifiers, en_highest_applied_seq_no = 0, en_voids = [], en_reports_for_command = 0,
      en_book_changed_by_command = False, en_arena_size = initial_er_group_arena_size, en_outputs = []\<rparr>"

text \<open>What follows in the same function runs unless something before it threw.\<close>

definition and_then :: "error option \<times> engine \<Rightarrow> (engine \<Rightarrow> error option \<times> engine) \<Rightarrow> error option \<times> engine" where
  "and_then r f = (case r of (Some e, en) \<Rightarrow> (Some e, en) | (None, en) \<Rightarrow> f en)"

definition with_exec_id ::
  "engine_env \<Rightarrow> int \<Rightarrow> int \<Rightarrow> engine \<Rightarrow> (string \<Rightarrow> error option \<times> engine) \<Rightarrow> error option \<times> engine" where
  "with_exec_id ev sequence_number place en f =
     (case exec_id (ev_crypto ev) (en_identifiers en) sequence_number place of Inl e \<Rightarrow> (Some e, en) | Inr id' \<Rightarrow> f id')"

definition with_order_id :: "engine_env \<Rightarrow> int \<Rightarrow> engine \<Rightarrow> (string \<Rightarrow> error option \<times> engine) \<Rightarrow> error option \<times> engine" where
  "with_order_id ev placed_at_seq_no en f =
     (case order_id (ev_crypto ev) (en_identifiers en) placed_at_seq_no of Inl e \<Rightarrow> (Some e, en) | Inr id' \<Rightarrow> f id')"

definition put_output :: "engine_output \<Rightarrow> engine \<Rightarrow> engine" where
  "put_output out en = en\<lparr>en_outputs := en_outputs en @ [out]\<rparr>"

abbreviation on_book :: "(order_book \<Rightarrow> order_book) \<Rightarrow> engine \<Rightarrow> engine" where
  "on_book f en \<equiv> en\<lparr>en_book := f (en_book en)\<rparr>"

definition note_caught_up_to :: "int \<Rightarrow> engine \<Rightarrow> engine" where
  "note_caught_up_to sequence_number en =
     en\<lparr>en_highest_applied_seq_no := max (en_highest_applied_seq_no en) sequence_number\<rparr>"

definition begin_command :: "engine \<Rightarrow> engine" where
  "begin_command en = en\<lparr>en_reports_for_command := 0, en_book_changed_by_command := False\<rparr>"

definition send_report ::
  "engine_env \<Rightarrow> execution_report \<Rightarrow> int \<Rightarrow> session_identity \<Rightarrow> report_is_repeat \<Rightarrow> engine \<Rightarrow> error option \<times> engine" where
  "send_report ev report sequence_number session repeat en =
     (if fl_send (ev_faults ev) then (Some RuntimeError, en)
      else (None, (put_output (Send_report report sequence_number session repeat) en)
                    \<lparr>en_reports_for_command := en_reports_for_command en + 1\<rparr>))"

section \<open>Reports\<close>

definition blank_report :: execution_report where
  "blank_report =
     \<lparr>er_order_id = '''', er_exec_id = '''', er_exec_type = Exec_new, er_ord_status = Status_new, er_symbol = '''', er_side = 0,
      er_leaves_qty = '''', er_cum_qty = '''', er_avg_px = '''', er_transact_time = 0, er_cl_ord_id = None, er_orig_cl_ord_id = None,
      er_order_qty = None, er_ord_rej_reason = None, er_text = None, er_ord_type = None, er_time_in_force = None,
      er_expire_time = None, er_price = None, er_no_underlyings = [], er_no_party_ids = []\<rparr>"

text \<open>The fields that every rejection of a new order has, and those that every rejection of a cancel has.\<close>

definition rejected_order :: "new_order_single \<Rightarrow> string \<Rightarrow> int \<Rightarrow> ord_rej_reason \<Rightarrow> string option \<Rightarrow> execution_report" where
  "rejected_order view exec_id' transact_time reason text' =
     blank_report\<lparr>er_order_id := ''NONE'', er_exec_id := exec_id', er_exec_type := Exec_rejected, er_ord_status := Status_rejected,
       er_symbol := no_symbol view, er_side := no_side view, er_leaves_qty := ''0'', er_cum_qty := ''0'', er_avg_px := ''0.00'',
       er_transact_time := transact_time, er_cl_ord_id := Some (no_cl_ord_id view), er_order_qty := Some (no_order_qty view),
       er_ord_rej_reason := Some reason, er_text := text'\<rparr>"

definition rejected_cancel :: "order_cancel_request \<Rightarrow> string \<Rightarrow> int \<Rightarrow> ord_rej_reason \<Rightarrow> string option \<Rightarrow> execution_report" where
  "rejected_cancel view exec_id' transact_time reason text' =
     blank_report\<lparr>er_order_id := ''NONE'', er_exec_id := exec_id', er_exec_type := Exec_rejected, er_ord_status := Status_rejected,
       er_symbol := oc_symbol view, er_side := oc_side view, er_leaves_qty := ''0'', er_cum_qty := ''0'', er_avg_px := ''0.00'',
       er_transact_time := transact_time, er_cl_ord_id := Some (oc_cl_ord_id view), er_orig_cl_ord_id := Some (oc_orig_cl_ord_id view),
       er_order_qty := oc_order_qty view, er_ord_rej_reason := Some reason, er_text := text'\<rparr>"

definition accepted_report :: "new_order_single \<Rightarrow> string \<Rightarrow> string \<Rightarrow> int \<Rightarrow> underlying list \<Rightarrow> party_id list \<Rightarrow> execution_report" where
  "accepted_report view order_id' exec_id' transact_time underlyings parties =
     blank_report\<lparr>er_order_id := order_id', er_exec_id := exec_id', er_exec_type := Exec_new, er_ord_status := Status_new,
       er_symbol := no_symbol view, er_side := no_side view, er_leaves_qty := no_order_qty view, er_cum_qty := ''0'', er_avg_px := ''0.00'',
       er_transact_time := transact_time, er_cl_ord_id := Some (no_cl_ord_id view), er_order_qty := Some (no_order_qty view),
       er_ord_type := Some (no_ord_type view), er_expire_time := no_expire_time view, er_time_in_force := no_time_in_force view,
       er_price := no_price view, er_no_underlyings := underlyings, er_no_party_ids := parties\<rparr>"

text \<open>A cancelled order, described from what the book held; \<open>orig\<close> is the order a cancel named, which a cancel of the book does not have.\<close>

definition cancelled_report :: "order_entry \<Rightarrow> string \<Rightarrow> string \<Rightarrow> int \<Rightarrow> string \<Rightarrow> string option \<Rightarrow> execution_report" where
  "cancelled_report entry order_id' exec_id' transact_time cl_ord_id orig =
     blank_report\<lparr>er_order_id := order_id', er_exec_id := exec_id', er_exec_type := Exec_canceled, er_ord_status := Status_canceled,
       er_symbol := oe_symbol entry, er_side := oe_side entry, er_time_in_force := oe_time_in_force entry,
       er_expire_time := oe_expire_time entry, er_leaves_qty := ''0'', er_cum_qty := ''0'', er_avg_px := ''0.00'',
       er_transact_time := transact_time, er_cl_ord_id := Some cl_ord_id, er_orig_cl_ord_id := orig,
       er_order_qty := Some (oe_order_qty entry), er_price := oe_price entry, er_ord_type := Some (oe_ord_type entry)\<rparr>"

section \<open>The order of sequence numbers, voids and the halt\<close>

definition applied_before :: "int \<Rightarrow> engine \<Rightarrow> bool \<times> engine" where
  "applied_before sequence_number en =
     (if en_highest_applied_seq_no en < sequence_number then (False, en\<lparr>en_highest_applied_seq_no := sequence_number\<rparr>) else (True, en))"

definition sequence_goes_backwards :: "int \<Rightarrow> engine \<Rightarrow> bool \<times> engine" where
  "sequence_goes_backwards sequence_number en =
     (if sequence_number \<le> en_highest_applied_seq_no en then (True, en) else (False, en\<lparr>en_highest_applied_seq_no := sequence_number\<rparr>))"

definition engine_set_halted :: "bool \<Rightarrow> engine \<Rightarrow> engine" where
  "engine_set_halted halted en = (if halted = ob_halted (en_book en) then en else on_book (book_set_halted halted) en)"

definition refuse_to_name :: "int \<Rightarrow> engine \<Rightarrow> engine" where
  "refuse_to_name sequence_number en = engine_set_halted True en"

definition publish_after_refusal :: "int \<Rightarrow> command_source \<Rightarrow> engine \<Rightarrow> engine" where
  "publish_after_refusal sequence_number source en = (if source = Catch_up then on_book (book_publish sequence_number) en else en)"

definition engine_use_trading_date :: "engine_env \<Rightarrow> int \<Rightarrow> engine \<Rightarrow> engine" where
  "engine_use_trading_date ev trading_date en =
     en\<lparr>en_identifiers := use_trading_date (ev_crypto ev) trading_date (en_identifiers en)\<rparr>"

datatype void_learned = Already_known | Before_its_commands | After_applying_some

definition learn_void :: "voided_range \<Rightarrow> engine \<Rightarrow> void_learned \<times> engine" where
  "learn_void voided en =
     (case voids_add voided (en_voids en) of
        (False, _) \<Rightarrow> (Already_known, en)
      | (True, voids) \<Rightarrow>
          let en' = en\<lparr>en_voids := voids\<rparr>
          in if vr_void_seq_no voided \<le> ob_voids_known_through (en_book en') then (Already_known, en')
             else let en'' = on_book (book_set_voids_known_through (vr_void_seq_no voided)) en'
                  in if vr_first_seq_no voided \<le> en_highest_applied_seq_no en'' then (After_applying_some, en'')
                     else (Before_its_commands, en''))"

section \<open>Refusals\<close>

definition too_long_text :: "string \<Rightarrow> string" where
  "too_long_text field = take 64 (field @ '' exceeds maximum length of 64'')"

definition refuse_over_long_order ::
  "engine_env \<Rightarrow> new_order_single \<Rightarrow> int \<Rightarrow> int \<Rightarrow> session_identity \<Rightarrow> report_is_repeat \<Rightarrow> engine \<Rightarrow> error option \<times> engine" where
  "refuse_over_long_order ev view sequence_number transact_time session repeat en =
     (let en = put_output (Order_outcome session (no_cl_ord_id view) RefusedTooLong repeat sequence_number '''') en
      in with_exec_id ev sequence_number 0 en (\<lambda>exec_id'.
           send_report ev (rejected_order view exec_id' transact_time OtherReason (Some (too_long_text ''ClOrdID'')))
             sequence_number session repeat en))"

definition refuse_over_long_cancel ::
  "engine_env \<Rightarrow> order_cancel_request \<Rightarrow> int \<Rightarrow> int \<Rightarrow> session_identity \<Rightarrow> report_is_repeat \<Rightarrow> engine \<Rightarrow> error option \<times> engine" where
  "refuse_over_long_cancel ev view sequence_number transact_time session repeat en =
     (let orig_too_long = (\<not> key_fits (oc_orig_cl_ord_id view));
          en = put_output (Order_outcome session (oc_cl_ord_id view) CancelRefusedTooLong repeat sequence_number (oc_orig_cl_ord_id view)) en
      in with_exec_id ev sequence_number 0 en (\<lambda>exec_id'.
           send_report ev (rejected_cancel view exec_id' transact_time OtherReason
                             (Some (too_long_text (if orig_too_long then ''OrigClOrdID'' else ''ClOrdID''))))
             sequence_number session repeat en))"

definition voided_order_text :: "void_reason \<Rightarrow> string" where
  "voided_order_text reason =
     (if reason = HeldWhenTradingHalted then ''Trading halted while the order was waiting to be matched''
      else ''Venue could not process the order: the matching engines stopped while applying it'')"

definition voided_cancel_text :: "void_reason \<Rightarrow> string" where
  "voided_cancel_text reason =
     (if reason = HeldWhenTradingHalted then ''Trading halted while the cancel was waiting to be applied. The order is unchanged''
      else ''Venue could not process the cancel: the matching engines stopped while applying it. The order is unchanged'')"

definition refuse_voided_order ::
  "engine_env \<Rightarrow> new_order_single \<Rightarrow> int \<Rightarrow> int \<Rightarrow> session_identity \<Rightarrow> voided_range \<Rightarrow> report_is_repeat \<Rightarrow> engine \<Rightarrow>
     error option \<times> engine" where
  "refuse_voided_order ev view sequence_number transact_time session voided repeat en =
     (let en = put_output (Order_outcome session (no_cl_ord_id view) RefusedVoided repeat sequence_number '''') en
      in with_exec_id ev sequence_number 0 en (\<lambda>exec_id'.
           send_report ev (rejected_order view exec_id' transact_time
                             (if vr_reason voided = HeldWhenTradingHalted then ExchangeClosed else OtherReason)
                             (Some (voided_order_text (vr_reason voided))))
             sequence_number session repeat en))"

definition refuse_voided_cancel ::
  "engine_env \<Rightarrow> order_cancel_request \<Rightarrow> int \<Rightarrow> int \<Rightarrow> session_identity \<Rightarrow> voided_range \<Rightarrow> report_is_repeat \<Rightarrow> engine \<Rightarrow>
     error option \<times> engine" where
  "refuse_voided_cancel ev view sequence_number transact_time session voided repeat en =
     (let en = put_output (Order_outcome session (oc_cl_ord_id view) CancelRefusedVoided repeat sequence_number (oc_orig_cl_ord_id view)) en;
          found = (if key_fits (oc_orig_cl_ord_id view) then book_find (en_book en) (make_key session (oc_orig_cl_ord_id view)) else None);
          report = (\<lambda>order_id' exec_id'.
            (rejected_cancel view exec_id' transact_time (if found \<noteq> None then OtherReason else UnknownOrder)
               (Some (voided_cancel_text (vr_reason voided))))
              \<lparr>er_order_id := order_id', er_ord_status := (if found \<noteq> None then Status_new else Status_rejected),
               er_leaves_qty := (case found of None \<Rightarrow> ''0'' | Some entry \<Rightarrow> oe_order_qty entry)\<rparr>)
      in case found of
           None \<Rightarrow> with_exec_id ev sequence_number 0 en (\<lambda>exec_id'.
             send_report ev (report ''NONE'' exec_id') sequence_number session repeat en)
         | Some entry \<Rightarrow> with_order_id ev (oe_placed_at_seq_no entry) en (\<lambda>order_id'.
             with_exec_id ev sequence_number 0 en (\<lambda>exec_id'.
               send_report ev (report order_id' exec_id') sequence_number session repeat en)))"

definition refuse_out_of_sequence_order ::
  "engine_env \<Rightarrow> new_order_single \<Rightarrow> int \<Rightarrow> int \<Rightarrow> session_identity \<Rightarrow> engine \<Rightarrow> error option \<times> engine" where
  "refuse_out_of_sequence_order ev view sequence_number transact_time session en =
     with_exec_id ev sequence_number 0 en (\<lambda>exec_id'.
       send_report ev (rejected_order view exec_id' transact_time OtherReason
                         (Some ''Venue could not process the order: it arrived out of sequence''))
         sequence_number session Not_repeat en)"

definition refuse_out_of_sequence_cancel ::
  "engine_env \<Rightarrow> order_cancel_request \<Rightarrow> int \<Rightarrow> int \<Rightarrow> session_identity \<Rightarrow> engine \<Rightarrow> error option \<times> engine" where
  "refuse_out_of_sequence_cancel ev view sequence_number transact_time session en =
     with_exec_id ev sequence_number 0 en (\<lambda>exec_id'.
       send_report ev (rejected_cancel view exec_id' transact_time OtherReason
                         (Some ''Venue could not process the cancel: it arrived out of sequence. The order is unchanged''))
         sequence_number session Not_repeat en)"

definition refuse_order_without_time ::
  "engine_env \<Rightarrow> new_order_single \<Rightarrow> int \<Rightarrow> int \<Rightarrow> session_identity \<Rightarrow> report_is_repeat \<Rightarrow> engine \<Rightarrow> error option \<times> engine" where
  "refuse_order_without_time ev view sequence_number transact_time session repeat en =
     with_exec_id ev sequence_number 0 en (\<lambda>exec_id'.
       send_report ev (rejected_order view exec_id' transact_time OtherReason
                         (Some (if transact_time = 0 then ''Venue could not process the order: it carried no time''
                                else ''Venue could not process the order: it carried no trading date'')))
         sequence_number session repeat en)"

definition refuse_cancel_without_time ::
  "engine_env \<Rightarrow> order_cancel_request \<Rightarrow> int \<Rightarrow> int \<Rightarrow> session_identity \<Rightarrow> report_is_repeat \<Rightarrow> engine \<Rightarrow> error option \<times> engine" where
  "refuse_cancel_without_time ev view sequence_number transact_time session repeat en =
     with_exec_id ev sequence_number 0 en (\<lambda>exec_id'.
       send_report ev (rejected_cancel view exec_id' transact_time OtherReason
                         (Some (if transact_time = 0 then ''Venue could not process the cancel: it carried no time. The order is unchanged''
                                else ''Venue could not process the cancel: it carried no trading date. The order is unchanged'')))
         sequence_number session repeat en)"

section \<open>Applying a new order\<close>

definition order_entry_of :: "new_order_single \<Rightarrow> int \<Rightarrow> session_identity \<Rightarrow> order_entry" where
  "order_entry_of view sequence_number session =
     (let entry = \<lparr>oe_placed_at_seq_no = sequence_number, oe_session = session, oe_side = no_side view, oe_ord_type = no_ord_type view,
                   oe_time_in_force = no_time_in_force view, oe_expire_time = no_expire_time view, oe_cl_ord_id = '''',
                   oe_symbol = '''', oe_order_qty = '''', oe_price = None\<rparr>;
          entry = set_order_qty (no_order_qty view) (set_symbol (no_symbol view) entry)
      in case no_price view of None \<Rightarrow> entry | Some price \<Rightarrow> set_price price entry)"

text \<open>The acknowledgement of an order that is on the book, and what follows it.\<close>

definition acknowledge_order ::
  "engine_env \<Rightarrow> new_order_single \<Rightarrow> int \<Rightarrow> int \<Rightarrow> session_identity \<Rightarrow> command_source \<Rightarrow> string \<Rightarrow> string \<Rightarrow> engine \<Rightarrow>
     error option \<times> engine" where
  "acknowledge_order ev view sequence_number transact_time session source order_id' exec_id' en =
     (let repeat = (if source = Live then Not_repeat else Possible_repeat);
          en = (if source = Live then put_output Order_accepted en else en);
          (underlyings, parties, arena_size) = echo_loop (ev_sizes ev) (no_no_underlyings view) (no_no_party_ids view) (en_arena_size en);
          en = en\<lparr>en_arena_size := arena_size\<rparr>
      in and_then (send_report ev (accepted_report view order_id' exec_id' transact_time underlyings parties) sequence_number session repeat en)
           (\<lambda>en. (None, put_output (Order_outcome session (no_cl_ord_id view) Accepted repeat sequence_number '''')
                          (on_book (book_publish sequence_number) en))))"

text \<open>The rest of the function, once nothing about the command itself has refused it.\<close>

definition apply_order_to_book ::
  "engine_env \<Rightarrow> new_order_single \<Rightarrow> int \<Rightarrow> int \<Rightarrow> session_identity \<Rightarrow> command_source \<Rightarrow> engine \<Rightarrow> error option \<times> engine" where
  "apply_order_to_book ev view sequence_number transact_time session source en =
     (let repeat = (if source = Live then Not_repeat else Possible_repeat);
          order_key = make_key session (no_cl_ord_id view)
      in with_exec_id ev sequence_number 0 en (\<lambda>exec_id'.
           if ob_halted (en_book en) then
             and_then (send_report ev (rejected_order view exec_id' transact_time ExchangeClosed (Some ''trading is halted''))
                         sequence_number session repeat en)
               (\<lambda>en. (None, publish_after_refusal sequence_number source en))
           else if book_contains (en_book en) order_key then
             and_then (send_report ev (rejected_order view exec_id' transact_time DuplicateOrder None) sequence_number session repeat
                         (put_output (Order_outcome session (no_cl_ord_id view) RefusedDuplicate repeat sequence_number '''') en))
               (\<lambda>en. (None, publish_after_refusal sequence_number source en))
           else with_order_id ev sequence_number en (\<lambda>order_id'.
             case book_add (fl_index_full (ev_faults ev)) order_key (order_entry_of view sequence_number session) sequence_number (en_book en) of
               (Inl e, book) \<Rightarrow> (Some e, en\<lparr>en_book := book\<rparr>)
             | (Inr False, book) \<Rightarrow>
                 and_then (send_report ev (rejected_order view exec_id' transact_time OtherReason
                                             (Some ''the venue is holding as many open orders as it can''))
                             sequence_number session repeat (en\<lparr>en_book := book, en_book_changed_by_command := False\<rparr>))
                   (\<lambda>en. (None, publish_after_refusal sequence_number source en))
             | (Inr True, book) \<Rightarrow>
                 acknowledge_order ev view sequence_number transact_time session source order_id' exec_id'
                   (en\<lparr>en_book := book, en_book_changed_by_command := True\<rparr>))))"

definition apply_new_order_unguarded ::
  "engine_env \<Rightarrow> new_order_single \<Rightarrow> int \<Rightarrow> int \<Rightarrow> int \<Rightarrow> session_identity \<Rightarrow> command_source \<Rightarrow> engine \<Rightarrow> error option \<times> engine" where
  "apply_new_order_unguarded ev view sequence_number transact_time trading_date session source en =
     (let live = (source = Live);
          repeat = (if live then Not_repeat else Possible_repeat);
          (again, en) = (if live then (False, en) else applied_before sequence_number en)
      in if again then (None, en)
         else if \<not> identifier_fits sequence_number 0 then (None, refuse_to_name sequence_number en)
         else
           let en = engine_use_trading_date ev trading_date en;
               (backwards, en) = (if live then sequence_goes_backwards sequence_number en else (False, en))
           in if backwards then refuse_out_of_sequence_order ev view sequence_number transact_time session en
              else if transact_time = 0 \<or> trading_date = 0 then
                and_then (refuse_order_without_time ev view sequence_number transact_time session repeat en)
                  (\<lambda>en. (None, publish_after_refusal sequence_number source en))
              else case voiding sequence_number Void_new_order (en_voids en) of
                Some voided \<Rightarrow>
                  and_then (refuse_voided_order ev view sequence_number transact_time session voided repeat en)
                    (\<lambda>en. (None, publish_after_refusal sequence_number source en))
              | None \<Rightarrow>
                  if \<not> key_fits (no_cl_ord_id view) then
                    and_then (refuse_over_long_order ev view sequence_number transact_time session repeat en)
                      (\<lambda>en. (None, publish_after_refusal sequence_number source en))
                  else apply_order_to_book ev view sequence_number transact_time session source en)"

text \<open>
  After a failure the rejection goes to the outputs and not through \<open>send_report\<close>, and a second failure, in making
  the identifier or in sending, ends it.
\<close>

definition after_failure ::
  "engine_env \<Rightarrow> int \<Rightarrow> command_source \<Rightarrow> session_identity \<Rightarrow> (string \<Rightarrow> execution_report) \<Rightarrow> engine \<Rightarrow> engine" where
  "after_failure ev sequence_number source session rejection en =
     (let repeat = (if source = Live then Not_repeat else Possible_repeat)
      in if \<not> en_book_changed_by_command en \<and> en_reports_for_command en = 0 then
           (case exec_id (ev_crypto ev) (en_identifiers en) sequence_number 0 of
              Inl _ \<Rightarrow> en
            | Inr exec_id' \<Rightarrow>
                if fl_rejection (ev_faults ev) then en
                else publish_after_refusal sequence_number source
                       (put_output (Send_report (rejection exec_id') sequence_number session repeat) en))
         else if en_book_changed_by_command en then on_book (book_publish sequence_number) en
         else en)"

definition apply_new_order ::
  "engine_env \<Rightarrow> new_order_single \<Rightarrow> int \<Rightarrow> int \<Rightarrow> int \<Rightarrow> session_identity \<Rightarrow> command_source \<Rightarrow> engine \<Rightarrow> engine" where
  "apply_new_order ev view sequence_number transact_time trading_date session source en =
     (case apply_new_order_unguarded ev view sequence_number transact_time trading_date session source (begin_command en) of
        (None, en') \<Rightarrow> en'
      | (Some _, en') \<Rightarrow>
          after_failure ev sequence_number source session
            (\<lambda>exec_id'. rejected_order view exec_id' transact_time OtherReason (Some ''Venue could not process the order'')) en')"

section \<open>Applying a cancel\<close>

definition apply_cancel_to_book ::
  "engine_env \<Rightarrow> order_cancel_request \<Rightarrow> int \<Rightarrow> int \<Rightarrow> session_identity \<Rightarrow> command_source \<Rightarrow> engine \<Rightarrow> error option \<times> engine" where
  "apply_cancel_to_book ev view sequence_number transact_time session source en =
     (let repeat = (if source = Live then Not_repeat else Possible_repeat);
          orig_key = make_key session (oc_orig_cl_ord_id view)
      in with_exec_id ev sequence_number 0 en (\<lambda>exec_id'.
           case book_find (en_book en) orig_key of
             None \<Rightarrow>
               and_then (send_report ev (rejected_cancel view exec_id' transact_time UnknownOrder None) sequence_number session repeat en)
                 (\<lambda>en. (None, put_output (Order_outcome session (oc_cl_ord_id view) CancelRefusedUnknown repeat sequence_number
                                               (oc_orig_cl_ord_id view))
                                (publish_after_refusal sequence_number source en)))
           | Some entry \<Rightarrow>
               let en = en\<lparr>en_book := snd (book_remove orig_key (en_book en)), en_book_changed_by_command := True\<rparr>
               in with_order_id ev (oe_placed_at_seq_no entry) en (\<lambda>order_id'.
                    and_then (send_report ev (cancelled_report entry order_id' exec_id' transact_time (oc_cl_ord_id view)
                                                (Some (oc_orig_cl_ord_id view)))
                                sequence_number session repeat en)
                      (\<lambda>en. (None, put_output (Order_outcome session (oc_cl_ord_id view) Cancelled repeat sequence_number
                                                    (oc_orig_cl_ord_id view))
                                     (on_book (book_publish sequence_number) en))))))"

definition apply_cancel_unguarded ::
  "engine_env \<Rightarrow> order_cancel_request \<Rightarrow> int \<Rightarrow> int \<Rightarrow> int \<Rightarrow> session_identity \<Rightarrow> command_source \<Rightarrow> engine \<Rightarrow> error option \<times> engine" where
  "apply_cancel_unguarded ev view sequence_number transact_time trading_date session source en =
     (let live = (source = Live);
          repeat = (if live then Not_repeat else Possible_repeat);
          (again, en) = (if live then (False, en) else applied_before sequence_number en)
      in if again then (None, en)
         else if \<not> identifier_fits sequence_number 0 then (None, refuse_to_name sequence_number en)
         else
           let en = engine_use_trading_date ev trading_date en;
               (backwards, en) = (if live then sequence_goes_backwards sequence_number en else (False, en))
           in if backwards then refuse_out_of_sequence_cancel ev view sequence_number transact_time session en
              else if transact_time = 0 \<or> trading_date = 0 then
                and_then (refuse_cancel_without_time ev view sequence_number transact_time session repeat en)
                  (\<lambda>en. (None, publish_after_refusal sequence_number source en))
              else case voiding sequence_number Void_cancel (en_voids en) of
                Some voided \<Rightarrow>
                  and_then (refuse_voided_cancel ev view sequence_number transact_time session voided repeat en)
                    (\<lambda>en. (None, publish_after_refusal sequence_number source en))
              | None \<Rightarrow>
                  if \<not> key_fits (oc_cl_ord_id view) \<or> \<not> key_fits (oc_orig_cl_ord_id view) then
                    and_then (refuse_over_long_cancel ev view sequence_number transact_time session repeat en)
                      (\<lambda>en. (None, publish_after_refusal sequence_number source en))
                  else apply_cancel_to_book ev view sequence_number transact_time session source en)"

definition apply_cancel ::
  "engine_env \<Rightarrow> order_cancel_request \<Rightarrow> int \<Rightarrow> int \<Rightarrow> int \<Rightarrow> session_identity \<Rightarrow> command_source \<Rightarrow> engine \<Rightarrow> engine" where
  "apply_cancel ev view sequence_number transact_time trading_date session source en =
     (case apply_cancel_unguarded ev view sequence_number transact_time trading_date session source (begin_command en) of
        (None, en') \<Rightarrow> en'
      | (Some _, en') \<Rightarrow>
          after_failure ev sequence_number source session
            (\<lambda>exec_id'. rejected_cancel view exec_id' transact_time OtherReason
                          (Some ''Venue could not process the cancel. The order is unchanged'')) en')"

section \<open>Commands that no member sends\<close>

record book_cancelled =
  bc_applied :: bool
  bc_open_orders :: nat
  bc_reports_sent :: nat
  bc_orders_kept :: nat

text \<open>
  The loop of \<open>remove_placed_through\<close> with the engine's function called for each order just before it is
  removed. What that function throws leaves the loop, and the command, where it was.
\<close>

fun cancel_placed ::
  "engine_env \<Rightarrow> int \<Rightarrow> int \<Rightarrow> report_is_repeat \<Rightarrow> nat list \<Rightarrow> int \<Rightarrow> engine \<Rightarrow> error option \<times> engine" where
  "cancel_placed ev sequence_number transact_time repeat [] place en = (None, en)"
| "cancel_placed ev sequence_number transact_time repeat (i # slots) place en =
     (let entry = entry_at (en_book en) i
      in with_exec_id ev sequence_number place en (\<lambda>exec_id'.
           with_order_id ev (oe_placed_at_seq_no entry) en (\<lambda>order_id'.
             if fl_send (ev_faults ev) then (Some RuntimeError, en)
             else cancel_placed ev sequence_number transact_time repeat slots (place + 1)
                    (on_book (\<lambda>book. snd (remove_slot i ([], book)))
                       (put_output (Send_report (cancelled_report entry order_id' exec_id' transact_time (oe_cl_ord_id entry) None)
                          0 (oe_session entry) repeat) en)))))"

definition not_cancelled :: book_cancelled where
  "not_cancelled = \<lparr>bc_applied = False, bc_open_orders = 0, bc_reports_sent = 0, bc_orders_kept = 0\<rparr>"

definition apply_cancel_book ::
  "engine_env \<Rightarrow> int \<Rightarrow> int \<Rightarrow> int \<Rightarrow> int \<Rightarrow> command_source \<Rightarrow> engine \<Rightarrow> book_cancelled result \<times> engine" where
  "apply_cancel_book ev orders_placed_through sequence_number transact_time trading_date source en =
     (let live = (source = Live);
          (again, en) = (if live then (False, en) else applied_before sequence_number en)
      in if again then (Inr not_cancelled, en)
         else if \<not> identifier_fits sequence_number 0 then (Inr not_cancelled, refuse_to_name sequence_number en)
         else
           let (backwards, en) = (if live then sequence_goes_backwards sequence_number en else (False, en))
           in if backwards then (Inr not_cancelled, en)
              else
                let en = engine_use_trading_date ev trading_date en;
                    repeat = (if live then Not_repeat else Possible_repeat);
                    slots = map snd (placed_through orders_placed_through (en_book en))
                in case cancel_placed ev sequence_number transact_time repeat slots 0 en of
                     (Some e, en') \<Rightarrow> (Inl e, en')
                   | (None, en') \<Rightarrow>
                       (Inr \<lparr>bc_applied = True, bc_open_orders = book_size (en_book en), bc_reports_sent = length slots,
                             bc_orders_kept = book_size (en_book en')\<rparr>,
                        on_book (book_publish sequence_number) en'))"

record technical_event_applied =
  ta_applied :: bool
  ta_halt_changed :: bool

definition apply_technical_event ::
  "technical_event \<Rightarrow> int \<Rightarrow> int \<Rightarrow> command_source \<Rightarrow> engine \<Rightarrow> technical_event_applied \<times> engine" where
  "apply_technical_event view sequence_number trading_date source en =
     (let live = (source = Live);
          not_applied = \<lparr>ta_applied = False, ta_halt_changed = False\<rparr>;
          (again, en) = (if live then (False, en) else applied_before sequence_number en)
      in if again then (not_applied, en)
         else
           let (backwards, en) = (if live then sequence_goes_backwards sequence_number en else (False, en))
           in if backwards then (not_applied, en)
              else if te_trading_day view < trading_date then (not_applied, on_book (book_publish sequence_number) en)
              else (\<lparr>ta_applied = True, ta_halt_changed = (te_halted view \<noteq> ob_halted (en_book en))\<rparr>,
                    on_book (book_publish sequence_number) (engine_set_halted (te_halted view) en)))"

record void_commands_applied =
  va_applied :: bool
  va_learned_too_late :: bool

definition apply_void_commands ::
  "void_commands \<Rightarrow> int \<Rightarrow> command_source \<Rightarrow> engine \<Rightarrow> void_commands_applied \<times> engine" where
  "apply_void_commands view sequence_number source en =
     (let live = (source = Live);
          not_applied = \<lparr>va_applied = False, va_learned_too_late = False\<rparr>;
          (again, en) = (if live then (False, en) else applied_before sequence_number en)
      in if again then (not_applied, en)
         else
           let (backwards, en) = (if live then sequence_goes_backwards sequence_number en else (False, en))
           in if backwards then (not_applied, en)
              else
                let (too_late, en) =
                      (if voids_at sequence_number (en_voids en) = None
                       then case learn_void \<lparr>vr_void_seq_no = sequence_number, vr_first_seq_no = vc_first_seq_no view,
                                vr_last_seq_no = vc_last_seq_no view, vr_new_orders_only = vc_new_orders_only view,
                                vr_reason = vc_reason view\<rparr> en of (learned, en) \<Rightarrow> (learned = After_applying_some, en)
                       else (False, en))
                in (\<lparr>va_applied = True, va_learned_too_late = too_late\<rparr>, on_book (book_publish sequence_number) en))"

section \<open>A command of the WAL\<close>

text \<open>
  \<open>MatchingEngineThread::apply_command\<close>, of a record whose payload could be decoded: the command with the time
  and the trading date its record carries, zero for a date it does not carry. What \<open>apply_cancel_book\<close> throws is
  not caught, so the mark that the command is being applied stays.
\<close>

datatype engine_command =
  New_order_command new_order_single int int session_identity
| Cancel_command order_cancel_request int int session_identity
| Cancel_book_command int int int
| Technical_event_command technical_event int
| Void_commands_command void_commands

definition dispatch_command :: "engine_env \<Rightarrow> command_source \<Rightarrow> int \<Rightarrow> engine_command \<Rightarrow> engine \<Rightarrow> error option \<times> engine" where
  "dispatch_command ev source sequence_number command en =
     (case command of
        New_order_command view transact_time trading_date session \<Rightarrow>
          (None, apply_new_order ev view sequence_number transact_time trading_date session source en)
      | Cancel_command view transact_time trading_date session \<Rightarrow>
          (None, apply_cancel ev view sequence_number transact_time trading_date session source en)
      | Cancel_book_command through transact_time trading_date \<Rightarrow>
          (case apply_cancel_book ev through sequence_number transact_time trading_date source en of
             (Inl e, en') \<Rightarrow> (Some e, en')
           | (Inr _, en') \<Rightarrow> (None, en'))
      | Technical_event_command view trading_date \<Rightarrow> (None, snd (apply_technical_event view sequence_number trading_date source en))
      | Void_commands_command view \<Rightarrow> (None, snd (apply_void_commands view sequence_number source en)))"

definition apply_command :: "engine_env \<Rightarrow> command_source \<Rightarrow> int \<Rightarrow> engine_command \<Rightarrow> engine \<Rightarrow> error option \<times> engine" where
  "apply_command ev source sequence_number command en =
     and_then (dispatch_command ev source sequence_number command (on_book (book_set_applying sequence_number) en))
       (\<lambda>en. (None, on_book (book_set_applying 0) en))"

fun apply_commands :: "engine_env \<Rightarrow> (command_source \<times> int \<times> engine_command) list \<Rightarrow> engine \<Rightarrow> error option \<times> engine" where
  "apply_commands ev [] en = (None, en)"
| "apply_commands ev ((source, sequence_number, command) # commands) en =
     and_then (apply_command ev source sequence_number command en) (apply_commands ev commands)"

end
