(* ===== verification/EngineAgreement.thy ===== *)
theory EngineAgreement
  imports MatchingEngine
begin

text \<open>
  Two engines that apply the same commands hold the same orders and send the same reports, whichever way each
  command reaches them. The relation \<open>agrees\<close> is over what an engine shows: the orders and not the slots they are
  in, the reports and outcomes without the mark of a possible repeat, and the counts the handling of a failure
  reads. The published position, the arena and the count of orders accepted live are not part of it.
\<close>

section \<open>What is heard of an engine\<close>

fun heard_output :: "engine_output \<Rightarrow> engine_output list" where
  "heard_output (Send_report report q session repeat) = [Send_report report q session Not_repeat]"
| "heard_output (Order_outcome session cl_ord_id outcome repeat q orig) = [Order_outcome session cl_ord_id outcome Not_repeat q orig]"
| "heard_output Order_accepted = []"

definition heard :: "engine_output list \<Rightarrow> engine_output list" where
  "heard outputs = concat (map heard_output outputs)"

lemma heard_simps [simp]: "heard [] = []" "heard (xs @ ys) = heard xs @ heard ys" "heard (x # xs) = heard_output x @ heard xs"
  by (simp_all add: heard_def)

definition alike :: "engine \<Rightarrow> engine \<Rightarrow> bool" where
  "alike a b \<longleftrightarrow>
     book_ok (en_book a) \<and> book_ok (en_book b) \<and> book_find (en_book b) = book_find (en_book a) \<and>
     inj_on oe_placed_at_seq_no (ran (book_find (en_book a))) \<and>
     ob_halted (en_book b) = ob_halted (en_book a) \<and> ob_voids_known_through (en_book b) = ob_voids_known_through (en_book a) \<and>
     ss_slot_count (ob_store (en_book b)) = ss_slot_count (ob_store (en_book a)) \<and>
     en_highest_applied_seq_no b = en_highest_applied_seq_no a \<and> en_voids b = en_voids a \<and>
     en_reports_for_command b = en_reports_for_command a \<and> en_book_changed_by_command b = en_book_changed_by_command a \<and>
     heard (en_outputs b) = heard (en_outputs a)"

text \<open>
  Alike while one command is applied: both hold the identifiers of its trading date, its position is the highest
  applied, and no order was placed after it.
\<close>

definition alike_today :: "report_identifiers \<Rightarrow> int \<Rightarrow> engine \<Rightarrow> engine \<Rightarrow> bool" where
  "alike_today ids highest a b \<longleftrightarrow>
     alike a b \<and> en_identifiers a = ids \<and> en_identifiers b = ids \<and> en_highest_applied_seq_no a = highest \<and>
     (\<forall>e \<in> ran (book_find (en_book a)). oe_placed_at_seq_no e \<le> highest)"

definition both :: "('a \<Rightarrow> 'b \<Rightarrow> bool) \<Rightarrow> error option \<times> 'a \<Rightarrow> error option \<times> 'b \<Rightarrow> bool" where
  "both R x y \<longleftrightarrow> fst y = fst x \<and> R (snd x) (snd y)"

named_theorems agreement \<open>an operation keeps two engines alike\<close>

lemma slot_count_ops [simp]:
  "ss_slot_count (ob_store (book_publish q b)) = ss_slot_count (ob_store b)"
  "ss_slot_count (ob_store (book_set_halted h b)) = ss_slot_count (ob_store b)"
  "ss_slot_count (ob_store (book_set_voids_known_through v b)) = ss_slot_count (ob_store b)"
  "ss_slot_count (ob_store (book_set_applying q b)) = ss_slot_count (ob_store b)"
  using same_records_ops by (simp_all add: same_records_def)

lemma voids_known_ops [simp]:
  "ob_voids_known_through (book_publish q b) = ob_voids_known_through b" "ob_voids_known_through (book_set_halted h b) = ob_voids_known_through b"
  "ob_voids_known_through (book_set_voids_known_through v b) = v" "ob_voids_known_through (book_set_applying q b) = ob_voids_known_through b"
  by (simp_all add: book_publish_def book_set_halted_def book_set_voids_known_through_def book_set_applying_def keep_value_def)

lemma both_None [agreement]: "R a b \<Longrightarrow> both R (None, a) (None, b)"
  by (simp add: both_def)

lemma both_Some: "R a b \<Longrightarrow> both R (Some e, a) (Some e, b)"
  by (simp add: both_def)

lemma both_and_then [agreement]:
  "both R x y \<Longrightarrow> (\<And>a b. R a b \<Longrightarrow> both R (f a) (g b)) \<Longrightarrow> both R (and_then x f) (and_then y g)"
  by (auto simp: both_def and_then_def split: prod.splits option.splits)

lemma both_if:
  "both R x y \<Longrightarrow> both R x' y' \<Longrightarrow> both R (if P then x else x') (if P then y else y')"
  by simp

lemma both_option:
  "both R x y \<Longrightarrow> (\<And>z. both R (f z) (g z)) \<Longrightarrow> both R (case v of None \<Rightarrow> x | Some z \<Rightarrow> f z) (case v of None \<Rightarrow> y | Some z \<Rightarrow> g z)"
  by (cases v) simp_all

lemma alike_output [agreement]:
  "alike_today ids H a b \<Longrightarrow> heard_output out = heard_output out' \<Longrightarrow> alike_today ids H (put_output out a) (put_output out' b)"
  by (simp add: alike_today_def alike_def put_output_def)

lemma alike_output_left: "alike_today ids H a b \<Longrightarrow> heard_output out = [] \<Longrightarrow> alike_today ids H (put_output out a) b"
  and alike_output_right: "alike_today ids H a b \<Longrightarrow> heard_output out = [] \<Longrightarrow> alike_today ids H a (put_output out b)"
  by (simp_all add: alike_today_def alike_def put_output_def)

lemma alike_send [agreement]:
  "alike_today ids H a b \<Longrightarrow> both (alike_today ids H) (send_report ev report q session repeat a) (send_report ev report q session repeat' b)"
  by (simp add: both_def send_report_def alike_today_def alike_def put_output_def)

lemma alike_exec_id [agreement]:
  "alike_today ids H a b \<Longrightarrow> (\<And>id'. both (alike_today ids H) (f id') (g id')) \<Longrightarrow>
     both (alike_today ids H) (with_exec_id ev q place a f) (with_exec_id ev q place b g)"
  by (auto simp: with_exec_id_def alike_today_def both_def split: sum.splits)

lemma alike_order_id [agreement]:
  "alike_today ids H a b \<Longrightarrow> (\<And>id'. both (alike_today ids H) (f id') (g id')) \<Longrightarrow>
     both (alike_today ids H) (with_order_id ev q a f) (with_order_id ev q b g)"
  by (auto simp: with_order_id_def alike_today_def both_def split: sum.splits)

lemma alike_publish [agreement]: "alike_today ids H a b \<Longrightarrow> alike_today ids H (on_book (book_publish q) a) (on_book (book_publish q) b)"
  by (simp add: alike_today_def alike_def)

lemma alike_publish_after_refusal [agreement]:
  "alike_today ids H a b \<Longrightarrow> alike_today ids H (publish_after_refusal q source a) (publish_after_refusal q source' b)"
  by (simp add: publish_after_refusal_def alike_today_def alike_def)

lemma alike_find: "alike_today ids H a b \<Longrightarrow> book_find (en_book b) = book_find (en_book a)"
  by (simp add: alike_today_def alike_def)

section \<open>The book\<close>

lemma dom_book_find: "dom (book_find b) = fst ` set (ob_index b)"
  by (force simp: book_find_def dom_def map_of_eq_None_iff dest: weak_map_of_SomeI)

lemma book_size_card: "book_ok b \<Longrightarrow> book_size b = card (dom (book_find b))"
  using distinct_card [OF book_okD(2)] by (simp add: dom_book_find book_size_def)

text \<open>Whether the region is full depends on how many orders there are and not on where they are.\<close>

lemma book_full_iff:
  assumes ok: "book_ok b"
  shows "ss_free_head (ob_store b) = no_slot \<longleftrightarrow> card (dom (book_find b)) = ss_slot_count (ob_store b)"
proof -
  have "card (dom (book_find b)) = length (ob_index b)" using book_size_card [OF ok] by (simp add: book_size_def)
  also have "\<dots> = card (live_slots (ob_store b))"
    using distinct_card [OF book_okD(3) [OF ok]] book_okD(4) [OF ok] by simp
  finally have c: "card (dom (book_find b)) = card (live_slots (ob_store b))" .
  have "live_slots (ob_store b) \<subseteq> {..<ss_slot_count (ob_store b)}" by (auto simp: live_slots_def)
  then have "live_slots (ob_store b) = {..<ss_slot_count (ob_store b)} \<longleftrightarrow> card (live_slots (ob_store b)) = ss_slot_count (ob_store b)"
    by (metis card_lessThan card_subset_eq finite_lessThan)
  then show ?thesis using store_full [OF book_okD(1) [OF ok]] c by simp
qed

lemma book_add_slot_count [simp]: "ss_slot_count (ob_store (snd (book_add c k e q b))) = ss_slot_count (ob_store b)"
  by (simp add: book_add_store Let_def)

lemma book_remove_slot_count [simp]: "ss_slot_count (ob_store (snd (book_remove k b))) = ss_slot_count (ob_store b)"
  by (simp add: book_remove_def split: option.splits)

lemma inj_on_placed_add:
  assumes "inj_on oe_placed_at_seq_no (ran m)" and "m k = None" and "\<forall>e \<in> ran m. oe_placed_at_seq_no e \<noteq> oe_placed_at_seq_no x"
  shows "inj_on oe_placed_at_seq_no (ran (m(k \<mapsto> x)))"
  using assms by (auto simp: ran_map_upd inj_on_def)

lemma inj_on_placed_remove: "inj_on oe_placed_at_seq_no (ran m) \<Longrightarrow> inj_on oe_placed_at_seq_no (ran (m(k := None)))"
  by (erule inj_on_subset) (auto simp: ran_def)

lemma alike_add:
  assumes T: "alike_today ids H a b" and k: "k = make_key session id'" and new: "book_find (en_book a) k = None"
    and q: "oe_placed_at_seq_no e = q" "q \<le> H" and fresh: "\<forall>e' \<in> ran (book_find (en_book a)). oe_placed_at_seq_no e' \<noteq> q"
    and A: "book_add c k e q (en_book a) = (r, A)" and B: "book_add c k e q (en_book b) = (r', B)"
  shows "r' = r" and "alike_today ids H (a\<lparr>en_book := A, en_book_changed_by_command := ch\<rparr>) (b\<lparr>en_book := B, en_book_changed_by_command := ch\<rparr>)"
proof -
  from T have okA: "book_ok (en_book a)" and okB: "book_ok (en_book b)" and find: "book_find (en_book b) = book_find (en_book a)"
    and cnt: "ss_slot_count (ob_store (en_book b)) = ss_slot_count (ob_store (en_book a))"
    and inj: "inj_on oe_placed_at_seq_no (ran (book_find (en_book a)))"
    by (simp_all add: alike_today_def alike_def)
  have full: "ss_free_head (ob_store (en_book b)) = no_slot \<longleftrightarrow> ss_free_head (ob_store (en_book a)) = no_slot"
    using book_full_iff [OF okA] book_full_iff [OF okB] find cnt by simp
  have "r = fst (book_add c k e q (en_book a))" "r' = fst (book_add c k e q (en_book b))" by (simp_all add: A B)
  then show r: "r' = r" using full by (simp add: book_add_store Let_def)
  have others: "ob_halted A = ob_halted (en_book a)" "ob_halted B = ob_halted (en_book b)"
      "ob_voids_known_through A = ob_voids_known_through (en_book a)" "ob_voids_known_through B = ob_voids_known_through (en_book b)"
      "ss_slot_count (ob_store A) = ss_slot_count (ob_store (en_book a))" "ss_slot_count (ob_store B) = ss_slot_count (ob_store (en_book b))"
    using book_add_others [of c k e q] book_add_slot_count [of c k e q] A B by (metis snd_conv)+
  have "book_ok A \<and> book_ok B \<and> book_find B = book_find A \<and> inj_on oe_placed_at_seq_no (ran (book_find A))"
  proof (cases "r = Inr True")
    case True
    have A': "book_add c k e q (en_book a) = (Inr True, A)" and B': "book_add c k e q (en_book b) = (Inr True, B)"
      using A B True r by simp_all
    have newB: "book_find (en_book b) k = None" using new find by simp
    note AA = book_add_accepted [OF okA A' k new q(1)] and BB = book_add_accepted [OF okB B' k newB q(1)]
    have "inj_on oe_placed_at_seq_no (ran (book_find A))"
      unfolding AA(2) using inj new fresh q(1) by (intro inj_on_placed_add) simp_all
    with AA BB find show ?thesis by simp
  next
    case False
    then show ?thesis using book_add_refused [OF okA A] book_add_refused [OF okB B] r find inj by simp
  qed
  moreover have "\<forall>e \<in> ran (book_find A). oe_placed_at_seq_no e \<le> H"
  proof (cases "r = Inr True")
    case True
    have A': "book_add c k e q (en_book a) = (Inr True, A)" using A True by simp
    show ?thesis unfolding book_add_accepted(2) [OF okA A' k new q(1)] using T new q by (auto simp: alike_today_def ran_map_upd)
  next
    case False
    then show ?thesis using book_add_refused [OF okA A] T by (simp add: alike_today_def)
  qed
  ultimately show "alike_today ids H (a\<lparr>en_book := A, en_book_changed_by_command := ch\<rparr>) (b\<lparr>en_book := B, en_book_changed_by_command := ch\<rparr>)"
    using T others unfolding alike_today_def alike_def by simp
qed

lemma alike_remove:
  assumes T: "alike_today ids H a b"
  shows "alike_today ids H (a\<lparr>en_book := snd (book_remove k (en_book a)), en_book_changed_by_command := ch\<rparr>)
           (b\<lparr>en_book := snd (book_remove k (en_book b)), en_book_changed_by_command := ch\<rparr>)"
proof -
  have okA: "book_ok (en_book a)" and okB: "book_ok (en_book b)" using T by (simp_all add: alike_today_def alike_def)
  note R = book_remove_ok [OF okA surjective_pairing] book_remove_ok [OF okB surjective_pairing]
  have "inj_on oe_placed_at_seq_no (ran ((book_find (en_book a))(k := None)))"
    using T by (intro inj_on_placed_remove) (simp add: alike_today_def alike_def)
  moreover have "\<forall>e \<in> ran ((book_find (en_book a))(k := None)). oe_placed_at_seq_no e \<le> H"
    using T by (auto simp: alike_today_def ran_def)
  ultimately show ?thesis using T R unfolding alike_today_def alike_def by simp
qed

section \<open>The operations\<close>

lemma alike_refusals [agreement]:
  assumes "alike_today ids H a b"
  shows "both (alike_today ids H) (refuse_over_long_order ev view q t session repeat a) (refuse_over_long_order ev view q t session repeat' b)"
    and "both (alike_today ids H) (refuse_voided_order ev view q t session voided repeat a) (refuse_voided_order ev view q t session voided repeat' b)"
    and "both (alike_today ids H) (refuse_order_without_time ev view q t session repeat a) (refuse_order_without_time ev view q t session repeat' b)"
    and "both (alike_today ids H) (refuse_over_long_cancel ev cancel q t session repeat a) (refuse_over_long_cancel ev cancel q t session repeat' b)"
    and "both (alike_today ids H) (refuse_cancel_without_time ev cancel q t session repeat a) (refuse_cancel_without_time ev cancel q t session repeat' b)"
  unfolding refuse_over_long_order_def refuse_voided_order_def refuse_order_without_time_def refuse_over_long_cancel_def
    refuse_cancel_without_time_def Let_def
  by (intro agreement assms; simp)+

lemma alike_refuse_voided_cancel [agreement]:
  assumes T: "alike_today ids H a b"
  shows "both (alike_today ids H) (refuse_voided_cancel ev view q t session voided repeat a) (refuse_voided_cancel ev view q t session voided repeat' b)"
proof -
  let ?out = "\<lambda>repeat. Order_outcome session (oc_cl_ord_id view) CancelRefusedVoided repeat q (oc_orig_cl_ord_id view)"
  have T': "alike_today ids H (put_output (?out repeat) a) (put_output (?out repeat') b)" by (intro agreement T) simp
  show ?thesis
    unfolding refuse_voided_cancel_def Let_def alike_find [OF T']
    by (auto split: option.split intro!: agreement T')
qed

lemma alike_acknowledge:
  assumes T: "alike_today ids H a b" and gz: "0 < gz_alignment (ev_sizes ev)"
    and need: "groups_need (ev_sizes ev) (no_no_underlyings view) (no_no_party_ids view) \<le> max_er_group_arena_size"
  shows "both (alike_today ids H) (acknowledge_order ev view q t session source order_id' exec_id' a)
           (acknowledge_order ev view q t session source' order_id' exec_id' b)"
proof -
  have arena: "alike_today ids H (a\<lparr>en_arena_size := m\<rparr>) (b\<lparr>en_arena_size := n\<rparr>)" if "alike_today ids H a b" for a b m n
    using that by (simp add: alike_today_def alike_def)
  have T': "alike_today ids H (if source = Live then put_output Order_accepted a else a) (if source' = Live then put_output Order_accepted b else b)"
    using T by (simp add: alike_today_def alike_def put_output_def)
  obtain m where m: "echo_loop (ev_sizes ev) (no_no_underlyings view) (no_no_party_ids view)
      (en_arena_size (if source = Live then put_output Order_accepted a else a)) = (no_no_underlyings view, no_no_party_ids view, m)"
    using echo_loop_whole [OF gz need] by blast
  obtain n where n: "echo_loop (ev_sizes ev) (no_no_underlyings view) (no_no_party_ids view)
      (en_arena_size (if source' = Live then put_output Order_accepted b else b)) = (no_no_underlyings view, no_no_party_ids view, n)"
    using echo_loop_whole [OF gz need] by blast
  show ?thesis unfolding acknowledge_order_def Let_def m n prod.case by (intro agreement arena T') simp_all
qed

lemma order_entry_of_placed [simp]: "oe_placed_at_seq_no (order_entry_of view q session) = q"
  by (simp add: order_entry_of_def Let_def set_order_qty_def set_symbol_def set_price_def split: option.splits)

lemma alike_apply_order:
  assumes T: "alike_today ids H a b" and fresh: "\<forall>e \<in> ran (book_find (en_book a)). oe_placed_at_seq_no e \<noteq> q" and H: "q \<le> H"
    and gz: "0 < gz_alignment (ev_sizes ev)"
    and need: "groups_need (ev_sizes ev) (no_no_underlyings view) (no_no_party_ids view) \<le> max_er_group_arena_size"
  shows "both (alike_today ids H) (apply_order_to_book ev view q t session source a) (apply_order_to_book ev view q t session source' b)"
proof -
  let ?k = "make_key session (no_cl_ord_id view)"
  have halted: "ob_halted (en_book b) = ob_halted (en_book a)" using T by (simp add: alike_today_def alike_def)
  have contains: "book_contains (en_book b) ?k = book_contains (en_book a) ?k" by (simp add: book_contains_iff alike_find [OF T])
  show ?thesis
  proof (cases "ob_halted (en_book a) \<or> book_contains (en_book a) ?k")
    case True
    then show ?thesis unfolding apply_order_to_book_def Let_def halted contains by (auto intro!: agreement T)
  next
    case False
    obtain r A where A: "book_add (fl_index_full (ev_faults ev)) ?k (order_entry_of view q session) q (en_book a) = (r, A)" by fastforce
    obtain r' B where B: "book_add (fl_index_full (ev_faults ev)) ?k (order_entry_of view q session) q (en_book b) = (r', B)" by fastforce
    have new: "book_find (en_book a) ?k = None" using False by (simp add: book_contains_iff)
    note AB = alike_add [OF T refl new order_entry_of_placed H fresh A B]
    have plain: "alike_today ids H (a\<lparr>en_book := A\<rparr>) (b\<lparr>en_book := B\<rparr>)"
      using AB(2) [of "en_book_changed_by_command a"] T by (simp add: alike_today_def alike_def)
    show ?thesis
    proof (cases r)
      case (Inl e)
      with False show ?thesis unfolding apply_order_to_book_def Let_def halted contains A B AB(1) by (auto intro!: agreement T both_Some plain)
    next
      case (Inr added)
      with False show ?thesis unfolding apply_order_to_book_def Let_def halted contains A B AB(1)
        by (cases added) (auto intro!: agreement T AB(2) alike_acknowledge gz need)
    qed
  qed
qed

lemma alike_apply_cancel:
  assumes T: "alike_today ids H a b"
  shows "both (alike_today ids H) (apply_cancel_to_book ev view q t session source a) (apply_cancel_to_book ev view q t session source' b)"
proof (cases "book_find (en_book a) (make_key session (oc_orig_cl_ord_id view))")
  case None
  then show ?thesis unfolding apply_cancel_to_book_def Let_def alike_find [OF T] by (auto intro!: agreement T)
next
  case (Some e)
  then show ?thesis unfolding apply_cancel_to_book_def Let_def alike_find [OF T] by (auto intro!: agreement T alike_remove)
qed

lemma alike_after_failure:
  assumes T: "alike_today ids H a b"
  shows "alike_today ids H (after_failure ev q source session rejection a) (after_failure ev q source' session rejection b)"
proof -
  have eqs: "en_identifiers b = en_identifiers a" "en_book_changed_by_command b = en_book_changed_by_command a"
      "en_reports_for_command b = en_reports_for_command a"
    using T by (simp_all add: alike_today_def alike_def)
  show ?thesis unfolding after_failure_def Let_def eqs by (auto split: sum.split intro!: agreement T)
qed

section \<open>Cancelling the book\<close>

text \<open>Two slots that hold the same order, one in each book.\<close>

definition same_order :: "order_book \<Rightarrow> order_book \<Rightarrow> nat \<Rightarrow> nat \<Rightarrow> bool" where
  "same_order A B i j \<longleftrightarrow> (\<exists>k. (k, i) \<in> set (ob_index A) \<and> (k, j) \<in> set (ob_index B))"

lemma same_order_entry:
  assumes "book_ok A" and "book_ok B" and "book_find B = book_find A" and "(k, i) \<in> set (ob_index A)" and "(k, j) \<in> set (ob_index B)"
  shows "entry_at B j = entry_at A i"
  using assms map_of_index [OF book_okD(2) [OF assms(1)]] map_of_index [OF book_okD(2) [OF assms(2)]]
  by (metis book_find_def option.inject option.simps(9))

lemma same_order_removed:
  assumes "same_order A B i j" and "(k, i') \<in> set (ob_index A)" "i \<noteq> i'" "(k, j') \<in> set (ob_index B)" "j \<noteq> j'" "book_ok A" "book_ok B"
  shows "same_order (snd (book_remove k A)) (snd (book_remove k B)) i j"
proof -
  from assms(1) obtain k' where k': "(k', i) \<in> set (ob_index A)" "(k', j) \<in> set (ob_index B)" by (auto simp: same_order_def)
  then have "k' \<noteq> k" using eq_key_imp_eq_value [OF book_okD(2) [OF assms(6)] assms(2)] assms(3) by blast
  with k' show ?thesis
    unfolding same_order_def book_remove_index(1) [OF assms(6,2)] book_remove_index(1) [OF assms(7,4)] set_index_erase by blast
qed

lemma alike_cancel_placed:
  assumes "alike_today ids H a b" and "list_all2 (same_order (en_book a) (en_book b)) is js" and "distinct is" and "distinct js"
  shows "both (alike_today ids H) (cancel_placed ev q t repeat is place a) (cancel_placed ev q t repeat' js place b)"
  using assms
proof (induction "is" arbitrary: js a b place)
  case Nil
  then show ?case by (simp add: both_def)
next
  case (Cons i "is")
  then obtain j js' where js: "js = j # js'" by (cases js) auto
  have okA: "book_ok (en_book a)" and okB: "book_ok (en_book b)" and find: "book_find (en_book b) = book_find (en_book a)"
    using Cons.prems(1) by (simp_all add: alike_today_def alike_def)
  from Cons.prems(2) js have rest: "list_all2 (same_order (en_book a) (en_book b)) is js'" and "same_order (en_book a) (en_book b) i j" by simp_all
  then obtain k where k: "(k, i) \<in> set (ob_index (en_book a))" "(k, j) \<in> set (ob_index (en_book b))" by (auto simp: same_order_def)
  note entry = same_order_entry [OF okA okB find k]
  have rm: "snd (remove_slot i ([], en_book a)) = snd (book_remove k (en_book a))" "snd (remove_slot j ([], en_book b)) = snd (book_remove k (en_book b))"
    using remove_slot_is_remove [OF okA k(1)] remove_slot_is_remove [OF okB k(2)] by simp_all
  have T: "alike_today ids H (on_book (\<lambda>book. snd (remove_slot i ([], book))) (put_output out a)) (on_book (\<lambda>book. snd (remove_slot j ([], book))) (put_output out' b))"
    if "heard_output out = heard_output out'" for out out'
    using alike_remove [OF alike_output [OF Cons.prems(1) that], where k = k and ch = "en_book_changed_by_command a"] Cons.prems(1)
    by (simp add: rm put_output_def alike_today_def alike_def)
  have "list_all2 (same_order (snd (book_remove k (en_book a))) (snd (book_remove k (en_book b)))) is js'"
    using rest
  proof (rule list.rel_mono_strong)
    fix i' j' assume "i' \<in> set is" "j' \<in> set js'" "same_order (en_book a) (en_book b) i' j'"
    moreover have "i' \<noteq> i" "j' \<noteq> j" using calculation Cons.prems(3,4) js by auto
    ultimately show "same_order (snd (book_remove k (en_book a))) (snd (book_remove k (en_book b))) i' j'"
      using same_order_removed k okA okB by blast
  qed
  then have IH: "both (alike_today ids H)
      (cancel_placed ev q t repeat is p (on_book (\<lambda>book. snd (remove_slot i ([], book))) (put_output out a)))
      (cancel_placed ev q t repeat' js' p (on_book (\<lambda>book. snd (remove_slot j ([], book))) (put_output out' b)))"
    if "heard_output out = heard_output out'" for out out' p
    using Cons.prems(3,4) js by (intro Cons.IH T that) (simp_all add: rm put_output_def)
  show ?case unfolding js cancel_placed.simps Let_def entry
    by (auto intro!: alike_exec_id alike_order_id Cons.prems(1) IH both_Some)
qed

lemma placed_through_same:
  assumes ok: "book_ok A" "book_ok B" and find: "book_find B = book_find A" and inj: "inj_on oe_placed_at_seq_no (ran (book_find A))"
  shows "list_all2 (same_order A B) (map snd (placed_through n A)) (map snd (placed_through n B))"
    and "distinct (map snd (placed_through n A))" and "distinct (map snd (placed_through n B))"
proof -
  note PA = placed_through_slots [OF ok(1), of n] and PB = placed_through_slots [OF ok(2), of n]
  show "distinct (map snd (placed_through n A))" "distinct (map snd (placed_through n B))" by (rule PA(1) PB(1))+
  obtain vA A' where rA: "remove_placed_through n A = (vA, A')" by fastforce
  obtain vB B' where rB: "remove_placed_through n B = (vB, B')" by fastforce
  have eq: "map (entry_at B) (map snd (placed_through n B)) = map (entry_at A) (map snd (placed_through n A))"
    using remove_placed_through_same(1) [OF ok(1) rA ok(2) rB find inj] remove_placed_through_visits [OF ok(1) rA] remove_placed_through_visits [OF ok(2) rB]
    by simp
  then have len: "length (placed_through n B) = length (placed_through n A)" by (metis length_map)
  show "list_all2 (same_order A B) (map snd (placed_through n A)) (map snd (placed_through n B))"
  proof (rule list_all2_all_nthI)
    fix x assume x: "x < length (map snd (placed_through n A))"
    define i j where "i = map snd (placed_through n A) ! x" and "j = map snd (placed_through n B) ! x"
    have "i \<in> set (map snd (placed_through n A))" "j \<in> set (map snd (placed_through n B))"
      unfolding i_def j_def using x len by (auto simp only: length_map intro!: nth_mem)
    then obtain k k' where k: "(k, i) \<in> set (ob_index A)" "(k', j) \<in> set (ob_index B)" unfolding PA(2) PB(2) by blast
    have "entry_at B j = entry_at A i" unfolding i_def j_def using arg_cong [OF eq, of "\<lambda>l. l ! x"] x len by simp
    then have "k' = k" using book_okD(5) [OF ok(1) k(1)] book_okD(5) [OF ok(2) k(2)] by simp
    with k show "same_order A B (map snd (placed_through n A) ! x) (map snd (placed_through n B) ! x)"
      unfolding same_order_def i_def j_def by blast
  qed (simp add: len)
qed

section \<open>Whole commands\<close>

text \<open>The keys in use are those of the secret and the trading date, or none has been derived yet.\<close>

definition ids_ok :: "crypto \<Rightarrow> report_identifiers \<Rightarrow> bool" where
  "ids_ok cr ids \<longleftrightarrow>
     (if ri_trading_date ids = -1 then ri_ciphers ids = None
      else ri_ciphers ids =
        (let day_key = cr_hmac cr (ri_secret ids) (trading_date_text (ri_trading_date ids))
         in Some (cr_hmac cr day_key ''OrderID'', cr_hmac cr day_key ''ExecID'')))"

definition agrees :: "engine_env \<Rightarrow> engine \<Rightarrow> engine \<Rightarrow> bool" where
  "agrees ev a b \<longleftrightarrow>
     alike a b \<and> ri_secret (en_identifiers b) = ri_secret (en_identifiers a) \<and>
     ids_ok (ev_crypto ev) (en_identifiers a) \<and> ids_ok (ev_crypto ev) (en_identifiers b) \<and>
     (\<forall>e \<in> ran (book_find (en_book a)). oe_placed_at_seq_no e \<le> en_highest_applied_seq_no a)"

text \<open>
  What is asked of a command: a position an identifier can hold, a trading date, and groups that fit in the
  engine's arena at its ceiling.
\<close>

definition command_ok :: "engine_env \<Rightarrow> int \<Rightarrow> engine_command \<Rightarrow> bool" where
  "command_ok ev q command \<longleftrightarrow>
     identifier_fits q 0 \<and>
     (case command of
        New_order_command view t d session \<Rightarrow>
          d \<noteq> -1 \<and> groups_need (ev_sizes ev) (no_no_underlyings view) (no_no_party_ids view) \<le> max_er_group_arena_size
      | Cancel_command view t d session \<Rightarrow> d \<noteq> -1
      | Cancel_book_command through t d \<Rightarrow> d \<noteq> -1
      | _ \<Rightarrow> True)"

lemma use_trading_date_same:
  assumes "ids_ok cr ids" and "ids_ok cr ids'" and "ri_secret ids' = ri_secret ids" and "d \<noteq> -1"
  shows "use_trading_date cr d ids' = use_trading_date cr d ids" and "ids_ok cr (use_trading_date cr d ids)"
    and "ri_secret (use_trading_date cr d ids) = ri_secret ids"
  using assms by (cases ids; cases ids'; auto simp: use_trading_date_def ids_ok_def Let_def split: if_splits)+

text \<open>The engine once a command at a new position has been let through.\<close>

definition let_through :: "engine_env \<Rightarrow> int \<Rightarrow> int \<Rightarrow> engine \<Rightarrow> engine" where
  "let_through ev q d en = (engine_use_trading_date ev d en)\<lparr>en_highest_applied_seq_no := q\<rparr>"

lemma let_through_alike:
  assumes "agrees ev a b" and "d \<noteq> -1" and "en_highest_applied_seq_no a < q"
  shows "alike_today (use_trading_date (ev_crypto ev) d (en_identifiers a)) q (let_through ev q d a) (let_through ev q d b)"
  using assms use_trading_date_same [of "ev_crypto ev" "en_identifiers a" "en_identifiers b" d]
  by (fastforce simp: agrees_def alike_today_def alike_def let_through_def engine_use_trading_date_def)

lemma let_through_begin: "begin_command (let_through ev q d en) = let_through ev q d (begin_command en)"
  by (simp add: begin_command_def let_through_def engine_use_trading_date_def)

lemma passes:
  "en_highest_applied_seq_no en < q \<Longrightarrow> sequence_goes_backwards q (engine_use_trading_date ev d en) = (False, let_through ev q d en)"
  "en_highest_applied_seq_no en < q \<Longrightarrow> sequence_goes_backwards q en = (False, en\<lparr>en_highest_applied_seq_no := q\<rparr>)"
  "en_highest_applied_seq_no en < q \<Longrightarrow> applied_before q en = (False, en\<lparr>en_highest_applied_seq_no := q\<rparr>)"
  "engine_use_trading_date ev d (en\<lparr>en_highest_applied_seq_no := q\<rparr>) = let_through ev q d en"
  by (simp_all add: sequence_goes_backwards_def applied_before_def let_through_def engine_use_trading_date_def)

lemma apply_new_order_let_through:
  assumes "en_highest_applied_seq_no en < q" and "identifier_fits q 0"
  shows "apply_new_order_unguarded ev view q t d session source en =
    (let repeat = (if source = Live then Not_repeat else Possible_repeat); en = let_through ev q d en
     in if t = 0 \<or> d = 0 then
          and_then (refuse_order_without_time ev view q t session repeat en) (\<lambda>en. (None, publish_after_refusal q source en))
        else case voiding q Void_new_order (en_voids en) of
          Some voided \<Rightarrow>
            and_then (refuse_voided_order ev view q t session voided repeat en) (\<lambda>en. (None, publish_after_refusal q source en))
        | None \<Rightarrow>
            if \<not> key_fits (no_cl_ord_id view) then
              and_then (refuse_over_long_order ev view q t session repeat en) (\<lambda>en. (None, publish_after_refusal q source en))
            else apply_order_to_book ev view q t session source en)"
  using assms unfolding apply_new_order_unguarded_def Let_def
  by (cases source) (simp_all add: passes cong: option.case_cong)

lemma apply_cancel_let_through:
  assumes "en_highest_applied_seq_no en < q" and "identifier_fits q 0"
  shows "apply_cancel_unguarded ev view q t d session source en =
    (let repeat = (if source = Live then Not_repeat else Possible_repeat); en = let_through ev q d en
     in if t = 0 \<or> d = 0 then
          and_then (refuse_cancel_without_time ev view q t session repeat en) (\<lambda>en. (None, publish_after_refusal q source en))
        else case voiding q Void_cancel (en_voids en) of
          Some voided \<Rightarrow>
            and_then (refuse_voided_cancel ev view q t session voided repeat en) (\<lambda>en. (None, publish_after_refusal q source en))
        | None \<Rightarrow>
            if \<not> key_fits (oc_cl_ord_id view) \<or> \<not> key_fits (oc_orig_cl_ord_id view) then
              and_then (refuse_over_long_cancel ev view q t session repeat en) (\<lambda>en. (None, publish_after_refusal q source en))
            else apply_cancel_to_book ev view q t session source en)"
  using assms unfolding apply_cancel_unguarded_def Let_def
  by (cases source) (simp_all add: passes cong: option.case_cong)

lemma alike_begin: "alike a b \<Longrightarrow> alike (begin_command a) (begin_command b)"
  by (simp add: alike_def begin_command_def)

lemma agrees_begin: "agrees ev a b \<Longrightarrow> agrees ev (begin_command a) (begin_command b)"
  using alike_begin by (simp add: agrees_def begin_command_def)

lemma ids_begin: "en_identifiers (begin_command en) = en_identifiers en"
  by (simp add: begin_command_def)

lemma alike_new_order:
  assumes ag: "agrees ev a b" and q: "en_highest_applied_seq_no a < q" and ok: "command_ok ev q (New_order_command view t d session)"
    and gz: "0 < gz_alignment (ev_sizes ev)"
  shows "alike_today (use_trading_date (ev_crypto ev) d (en_identifiers a)) q
    (apply_new_order ev view q t d session source a) (apply_new_order ev view q t d session source' b)"
proof -
  let ?a = "begin_command a" and ?b = "begin_command b"
  have qa: "en_highest_applied_seq_no ?a < q" and qb: "en_highest_applied_seq_no ?b < q"
    using ag q by (simp_all add: agrees_def alike_def begin_command_def)
  have fits: "identifier_fits q 0" and d: "d \<noteq> -1"
    and need: "groups_need (ev_sizes ev) (no_no_underlyings view) (no_no_party_ids view) \<le> max_er_group_arena_size"
    using ok by (simp_all add: command_ok_def)
  note T = let_through_alike [OF agrees_begin [OF ag] d qa]
  have voids: "en_voids (let_through ev q d ?b) = en_voids (let_through ev q d ?a)" using T by (simp add: alike_today_def alike_def)
  have fresh: "\<forall>e \<in> ran (book_find (en_book (let_through ev q d ?a))). oe_placed_at_seq_no e \<noteq> q"
    using ag q by (force simp: agrees_def let_through_def engine_use_trading_date_def begin_command_def)
  have "both (alike_today (use_trading_date (ev_crypto ev) d (en_identifiers ?a)) q) (apply_new_order_unguarded ev view q t d session source ?a) (apply_new_order_unguarded ev view q t d session source' ?b)"
    unfolding apply_new_order_let_through [OF qa fits] apply_new_order_let_through [OF qb fits] Let_def voids
    by (intro both_if both_option agreement T alike_apply_order fresh order_refl gz need)
  then show ?thesis unfolding apply_new_order_def ids_begin
    by (auto simp: both_def split: prod.split option.split intro!: alike_after_failure)
qed

lemma alike_cancel:
  assumes ag: "agrees ev a b" and q: "en_highest_applied_seq_no a < q" and ok: "command_ok ev q (Cancel_command view t d session)"
  shows "alike_today (use_trading_date (ev_crypto ev) d (en_identifiers a)) q
    (apply_cancel ev view q t d session source a) (apply_cancel ev view q t d session source' b)"
proof -
  let ?a = "begin_command a" and ?b = "begin_command b"
  have qa: "en_highest_applied_seq_no ?a < q" and qb: "en_highest_applied_seq_no ?b < q"
    using ag q by (simp_all add: agrees_def alike_def begin_command_def)
  have fits: "identifier_fits q 0" and d: "d \<noteq> -1" using ok by (simp_all add: command_ok_def)
  note T = let_through_alike [OF agrees_begin [OF ag] d qa]
  have voids: "en_voids (let_through ev q d ?b) = en_voids (let_through ev q d ?a)" using T by (simp add: alike_today_def alike_def)
  have "both (alike_today (use_trading_date (ev_crypto ev) d (en_identifiers ?a)) q) (apply_cancel_unguarded ev view q t d session source ?a) (apply_cancel_unguarded ev view q t d session source' ?b)"
    unfolding apply_cancel_let_through [OF qa fits] apply_cancel_let_through [OF qb fits] Let_def voids
    by (intro both_if both_option agreement T alike_apply_cancel)
  then show ?thesis unfolding apply_cancel_def ids_begin
    by (auto simp: both_def split: prod.split option.split intro!: alike_after_failure)
qed

lemma alike_cancel_book:
  assumes ag: "agrees ev a b" and q: "en_highest_applied_seq_no a < q" and ok: "command_ok ev q (Cancel_book_command through t d)"
    and A: "apply_cancel_book ev through q t d source a = (r, A)" and B: "apply_cancel_book ev through q t d source' b = (r', B)"
  shows "r' = r" and "alike_today (use_trading_date (ev_crypto ev) d (en_identifiers a)) q A B"
proof -
  have qb: "en_highest_applied_seq_no b < q" using ag q by (simp add: agrees_def alike_def)
  have fits: "identifier_fits q 0" and d: "d \<noteq> -1" using ok by (simp_all add: command_ok_def)
  let ?a = "let_through ev q d a" and ?b = "let_through ev q d b"
  let ?ids = "use_trading_date (ev_crypto ev) d (en_identifiers a)"
  let ?rep = "\<lambda>source. if source = Live then Not_repeat else Possible_repeat"
  note T = let_through_alike [OF ag d q]
  let ?is = "map snd (placed_through through (en_book ?a))" and ?js = "map snd (placed_through through (en_book ?b))"
  have P: "list_all2 (same_order (en_book ?a) (en_book ?b)) ?is ?js" "distinct ?is" "distinct ?js"
    using T by (auto intro!: placed_through_same simp: alike_today_def alike_def)
  have run: "apply_cancel_book ev through q t d source en =
      (case cancel_placed ev q t (?rep source) (map snd (placed_through through (en_book (let_through ev q d en)))) 0 (let_through ev q d en) of
         (Some e, en') \<Rightarrow> (Inl e, en')
       | (None, en') \<Rightarrow> (Inr \<lparr>bc_applied = True, bc_open_orders = book_size (en_book (let_through ev q d en)),
                              bc_reports_sent = length (map snd (placed_through through (en_book (let_through ev q d en)))),
                              bc_orders_kept = book_size (en_book en')\<rparr>, on_book (book_publish q) en'))"
    if "en_highest_applied_seq_no en < q" for en source
    using that fits unfolding apply_cancel_book_def Let_def
    by (cases source) (simp_all add: passes cong: prod.case_cong option.case_cong)
  obtain e A' where A': "cancel_placed ev q t (?rep source) ?is 0 ?a = (e, A')" by fastforce
  obtain e' B' where B': "cancel_placed ev q t (?rep source') ?js 0 ?b = (e', B')" by fastforce
  have R: "e' = e" "alike_today ?ids q A' B'"
    using alike_cancel_placed [OF T P, of ev q t "?rep source" 0 "?rep source'"] unfolding A' B' both_def by simp_all
  have sizes: "book_size (en_book y) = book_size (en_book x)" if "alike_today i h x y" for x y i h
  proof -
    have "book_ok (en_book x)" "book_ok (en_book y)" "book_find (en_book y) = book_find (en_book x)" using that by (simp_all add: alike_today_def alike_def)
    then show ?thesis using book_size_card by metis
  qed
  have lens: "length ?js = length ?is" using P(1) list_all2_lengthD by metis
  from A B R sizes [OF T] sizes [OF R(2)] lens show "r' = r" unfolding run [OF q] run [OF qb] A' B' by (auto split: option.splits)
  show "alike_today ?ids q A B"
  proof (cases e)
    case None
    with A B R show ?thesis unfolding run [OF q] run [OF qb] A' B' by (auto intro: alike_publish)
  next
    case (Some x)
    with A B R show ?thesis unfolding run [OF q] run [OF qb] A' B' by auto
  qed
qed

lemma agrees_technical_event:
  assumes ag: "agrees ev a b" and q: "en_highest_applied_seq_no a < q"
  shows "agrees ev (snd (apply_technical_event view q d source a)) (snd (apply_technical_event view q d source' b)) \<and>
    en_highest_applied_seq_no (snd (apply_technical_event view q d source a)) = q"
proof -
  have qb: "en_highest_applied_seq_no b < q" using ag q by (simp add: agrees_def alike_def)
  have "\<forall>e \<in> ran (book_find (en_book a)). oe_placed_at_seq_no e \<le> q" using ag q by (fastforce simp: agrees_def)
  then show ?thesis
    using ag q qb unfolding apply_technical_event_def Let_def
    by (cases source; cases source') (simp_all add: passes engine_set_halted_def agrees_def alike_def)
qed

lemma agrees_learn_void:
  assumes "agrees ev a b"
  shows "agrees ev (snd (learn_void voided a)) (snd (learn_void voided b)) \<and> fst (learn_void voided b) = fst (learn_void voided a) \<and>
    en_highest_applied_seq_no (snd (learn_void voided a)) = en_highest_applied_seq_no a"
  using assms unfolding learn_void_def Let_def by (auto simp: agrees_def alike_def split: prod.splits bool.splits)

lemma agrees_void_commands:
  assumes ag: "agrees ev a b" and q: "en_highest_applied_seq_no a < q"
  shows "agrees ev (snd (apply_void_commands view q source a)) (snd (apply_void_commands view q source' b)) \<and>
    en_highest_applied_seq_no (snd (apply_void_commands view q source a)) = q"
proof -
  have qb: "en_highest_applied_seq_no b < q" using ag q by (simp add: agrees_def alike_def)
  let ?v = "\<lparr>vr_void_seq_no = q, vr_first_seq_no = vc_first_seq_no view, vr_last_seq_no = vc_last_seq_no view,
             vr_new_orders_only = vc_new_orders_only view, vr_reason = vc_reason view\<rparr>"
  let ?a = "a\<lparr>en_highest_applied_seq_no := q\<rparr>" and ?b = "b\<lparr>en_highest_applied_seq_no := q\<rparr>"
  have ag': "agrees ev ?a ?b" using ag q by (fastforce simp: agrees_def alike_def)
  have pub: "agrees ev (on_book (book_publish q) x) (on_book (book_publish q) y)" if "agrees ev x y" for x y
    using that by (simp add: agrees_def alike_def)
  have voids: "en_voids b = en_voids a" using ag by (simp add: agrees_def alike_def)
  have run: "snd (apply_void_commands view q source en) =
      on_book (book_publish q) (if voids_at q (en_voids en) = None then snd (learn_void ?v (en\<lparr>en_highest_applied_seq_no := q\<rparr>))
                                else en\<lparr>en_highest_applied_seq_no := q\<rparr>)"
    if "en_highest_applied_seq_no en < q" for en source
    using that unfolding apply_void_commands_def Let_def by (cases source) (simp_all add: passes split_def)
  show ?thesis unfolding run [OF q] run [OF qb] voids using pub [OF ag'] pub [OF conjunct1 [OF agrees_learn_void [OF ag', of ?v]]] agrees_learn_void [OF ag', of ?v] by simp
qed

lemma alike_today_agrees:
  assumes "agrees ev a b" and "d \<noteq> -1" and "alike_today (use_trading_date (ev_crypto ev) d (en_identifiers a)) q x y"
  shows "agrees ev x y" and "en_highest_applied_seq_no x = q"
  using assms use_trading_date_same [of "ev_crypto ev" "en_identifiers a" "en_identifiers a" d]
  by (auto simp: agrees_def alike_today_def)

lemma agrees_applying: "agrees ev a b \<Longrightarrow> agrees ev (on_book (book_set_applying n) a) (on_book (book_set_applying m) b)"
  by (simp add: agrees_def alike_def)

lemma agrees_dispatch:
  assumes ag: "agrees ev a b" and q: "en_highest_applied_seq_no a < q" and ok: "command_ok ev q command" and gz: "0 < gz_alignment (ev_sizes ev)"
  shows "both (agrees ev) (dispatch_command ev source q command a) (dispatch_command ev source' q command b) \<and>
    en_highest_applied_seq_no (snd (dispatch_command ev source q command a)) = q"
proof (cases command)
  case (New_order_command view t d session)
  then have d: "d \<noteq> -1" and ok': "command_ok ev q (New_order_command view t d session)" using ok by (auto simp: command_ok_def)
  from alike_today_agrees [OF ag d alike_new_order [OF ag q ok' gz]] New_order_command show ?thesis
    by (simp add: dispatch_command_def both_def)
next
  case (Cancel_command view t d session)
  then have d: "d \<noteq> -1" and ok': "command_ok ev q (Cancel_command view t d session)" using ok by (auto simp: command_ok_def)
  from alike_today_agrees [OF ag d alike_cancel [OF ag q ok']] Cancel_command show ?thesis
    by (simp add: dispatch_command_def both_def)
next
  case (Cancel_book_command through t d)
  then have d: "d \<noteq> -1" and ok': "command_ok ev q (Cancel_book_command through t d)" using ok by (auto simp: command_ok_def)
  obtain r A where A: "apply_cancel_book ev through q t d source a = (r, A)" by fastforce
  obtain r' B where B: "apply_cancel_book ev through q t d source' b = (r', B)" by fastforce
  note C = alike_cancel_book [OF ag q ok' A B]
  from alike_today_agrees [OF ag d C(2)] C(1) Cancel_book_command A B show ?thesis
    by (cases r) (simp_all add: dispatch_command_def both_def)
next
  case (Technical_event_command view d)
  with agrees_technical_event [OF ag q] show ?thesis by (simp add: dispatch_command_def both_def)
next
  case (Void_commands_command view)
  with agrees_void_commands [OF ag q] show ?thesis by (simp add: dispatch_command_def both_def)
qed

lemma agrees_command:
  assumes ag: "agrees ev a b" and q: "en_highest_applied_seq_no a < q" and ok: "command_ok ev q command" and gz: "0 < gz_alignment (ev_sizes ev)"
  shows "both (agrees ev) (apply_command ev source q command a) (apply_command ev source' q command b) \<and>
    en_highest_applied_seq_no (snd (apply_command ev source q command a)) = q"
proof -
  have "en_highest_applied_seq_no (on_book (book_set_applying q) a) < q" using q by simp
  from agrees_dispatch [OF agrees_applying [OF ag] this ok gz]
  have "both (agrees ev) (dispatch_command ev source q command (on_book (book_set_applying q) a))
      (dispatch_command ev source' q command (on_book (book_set_applying q) b)) \<and>
    en_highest_applied_seq_no (snd (dispatch_command ev source q command (on_book (book_set_applying q) a))) = q" .
  then show ?thesis unfolding apply_command_def
    by (auto simp: both_def and_then_def agrees_applying split: prod.splits option.splits)
qed

text \<open>Positions above \<open>q\<close>, each above the one before it.\<close>

fun positions_above :: "int \<Rightarrow> (int \<times> engine_command) list \<Rightarrow> bool" where
  "positions_above q [] \<longleftrightarrow> True"
| "positions_above q ((q', command) # commands) \<longleftrightarrow> q < q' \<and> positions_above q' commands"

lemma agrees_commands:
  assumes "agrees ev a b" and "positions_above (en_highest_applied_seq_no a) commands" and "\<forall>(q, command) \<in> set commands. command_ok ev q command"
    and "0 < gz_alignment (ev_sizes ev)" and "length sources = length commands" and "length sources' = length commands"
  shows "both (agrees ev) (apply_commands ev (zip sources commands) a) (apply_commands ev (zip sources' commands) b)"
  using assms
proof (induction commands arbitrary: a b sources sources')
  case Nil
  then show ?case by (simp add: both_def)
next
  case (Cons c commands)
  obtain q command where c: "c = (q, command)" by fastforce
  obtain s ss s' ss' where s: "sources = s # ss" "sources' = s' # ss'" using Cons.prems(5,6) by (cases sources; cases sources') auto
  have q: "en_highest_applied_seq_no a < q" and ok: "command_ok ev q command" using Cons.prems(2,3) c by auto
  note C = agrees_command [OF Cons.prems(1) q ok Cons.prems(4), of s s']
  show ?case
  proof (cases "fst (apply_command ev s q command a)")
    case (Some e)
    with C show ?thesis by (auto simp: s c both_def and_then_def split: prod.splits)
  next
    case None
    then obtain a' b' where a': "apply_command ev s q command a = (None, a')" "apply_command ev s' q command b = (None, b')"
      using C by (cases "apply_command ev s q command a"; cases "apply_command ev s' q command b") (auto simp: both_def)
    have "both (agrees ev) (apply_commands ev (zip ss commands) a') (apply_commands ev (zip ss' commands) b')"
      using C a' Cons.prems c s by (intro Cons.IH) (auto simp: both_def)
    then show ?thesis by (simp add: s c and_then_def a')
  qed
qed

section \<open>Two engines\<close>

lemma agrees_new:
  assumes "0 < n" and "n < no_slot"
  shows "agrees ev (new_engine (new_book blank entry_size n) (new_identifiers secret)) (new_engine (new_book blank entry_size n) (new_identifiers secret))"
  using book_ok_new [OF assms, of blank entry_size]
  by (simp add: agrees_def alike_def new_engine_def new_identifiers_def ids_ok_def ran_def)

text \<open>
  C7. Engines that apply the same WAL agree. Two engines start with empty books of the same size and the same
  secret, and apply the same commands at the same increasing positions, each of them live or while catching
  up, as its own connections had it. They hold the same orders, are halted or not alike, know the same voids, and
  have sent the same reports and outcomes in the same order, apart from the mark of a possible repeat; and a command
  that fails in one fails in the other.
\<close>

theorem engines_agree:
  assumes "0 < n" and "n < no_slot" and "0 < gz_alignment (ev_sizes ev)"
    and "positions_above 0 commands" and "\<forall>(q, command) \<in> set commands. command_ok ev q command"
    and "length sources = length commands" and "length sources' = length commands"
    and "apply_commands ev (zip sources commands) (new_engine (new_book blank entry_size n) (new_identifiers secret)) = (e, a)"
    and "apply_commands ev (zip sources' commands) (new_engine (new_book blank entry_size n) (new_identifiers secret)) = (e', b)"
  shows "e' = e \<and> book_find (en_book b) = book_find (en_book a) \<and> ob_halted (en_book b) = ob_halted (en_book a) \<and>
    en_voids b = en_voids a \<and> heard (en_outputs b) = heard (en_outputs a) \<and> book_ok (en_book a) \<and> book_ok (en_book b)"
proof -
  have "en_highest_applied_seq_no (new_engine (new_book blank entry_size n) (new_identifiers secret)) = 0" by (simp add: new_engine_def)
  then have "both (agrees ev) (e, a) (e', b)"
    unfolding assms(8,9) [symmetric] using assms(3-7) by (intro agrees_commands agrees_new assms(1,2)) simp_all
  then show ?thesis by (simp add: both_def agrees_def alike_def)
qed

definition example_order :: "string \<Rightarrow> new_order_single" where
  "example_order id' =
     \<lparr>no_cl_ord_id = id', no_symbol = ''VOD'', no_side = 49, no_order_qty = ''100'', no_ord_type = 50, no_time_in_force = None,
      no_expire_time = None, no_price = Some ''1.25'', no_no_underlyings = [], no_no_party_ids = []\<rparr>"

definition example_cancel :: "string \<Rightarrow> string \<Rightarrow> order_cancel_request" where
  "example_cancel id' orig = \<lparr>oc_cl_ord_id = id', oc_orig_cl_ord_id = orig, oc_symbol = ''VOD'', oc_side = 49, oc_order_qty = None\<rparr>"

definition example_env :: engine_env where
  "example_env =
     \<lparr>ev_crypto = \<lparr>cr_hmac = (\<lambda>k m. k), cr_aes = (\<lambda>k b. b)\<rparr>, ev_sizes = example_sizes,
      ev_faults = \<lparr>fl_index_full = False, fl_send = False, fl_rejection = False\<rparr>\<rparr>"

definition example_commands :: "(int \<times> engine_command) list" where
  "example_commands =
     [(5, New_order_command (example_order ''A'') 1000 20260105 example_session),
      (6, Cancel_command (example_cancel ''C'' ''A'') 1001 20260105 example_session)]"

theorem engines_agree_witness:
  "heard (en_outputs (snd (apply_commands example_env (zip [Live, Catch_up] example_commands)
      (new_engine (new_book (example_entry 0 '''') 280 3) (new_identifiers []))))) =
   heard (en_outputs (snd (apply_commands example_env (zip [Catch_up, Catch_up] example_commands)
      (new_engine (new_book (example_entry 0 '''') 280 3) (new_identifiers [])))))"
proof -
  let ?r = "\<lambda>ss. apply_commands example_env (zip ss example_commands) (new_engine (new_book (example_entry 0 '''') 280 3) (new_identifiers []))"
  have hyps: "0 < (3::nat)" "3 < no_slot" "0 < gz_alignment (ev_sizes example_env)" "positions_above 0 example_commands"
    "\<forall>(q, command) \<in> set example_commands. command_ok example_env q command"
    "length [Live, Catch_up] = length example_commands" "length [Catch_up, Catch_up] = length example_commands"
    by (simp_all add: no_slot_def example_env_def example_sizes_def example_commands_def command_ok_def identifier_fits_def
        sequence_number_limit_def place_limit_def example_order_def groups_need_def need_after_def max_er_group_arena_size_def)
  obtain e a e' b where "?r [Live, Catch_up] = (e, a)" "?r [Catch_up, Catch_up] = (e', b)" by (meson surj_pair)
  with engines_agree [OF hyps this] show ?thesis by simp
qed

end
