(* ===== verification/EngineAnswers.thy ===== *)
theory EngineAnswers
  imports EngineAgreement
begin

text \<open>
  What a member is told: every new order and every cancel that is applied is answered by one report, which says of
  the book what the command did to it, and no two reports of a trading date carry the same ExecID.
\<close>

section \<open>The reports among an engine's outputs\<close>

fun report_in :: "engine_output \<Rightarrow> (execution_report \<times> int \<times> session_identity \<times> report_is_repeat) list" where
  "report_in (Send_report report q session repeat) = [(report, q, session, repeat)]"
| "report_in (Order_outcome session cl_ord_id outcome repeat q orig) = []"
| "report_in Order_accepted = []"

definition reports :: "engine_output list \<Rightarrow> (execution_report \<times> int \<times> session_identity \<times> report_is_repeat) list" where
  "reports outputs = concat (map report_in outputs)"

lemma reports_simps [simp]: "reports [] = []" "reports (xs @ ys) = reports xs @ reports ys" "reports (x # xs) = report_in x @ reports xs"
  by (simp_all add: reports_def)

text \<open>
  From \<open>en\<close> to \<open>en'\<close> one report went out, to the session whose command it was and under the command's position,
  with the command's first ExecID, and \<open>P\<close> holds of it and of the book.
\<close>

definition answered ::
  "engine_env \<Rightarrow> int \<Rightarrow> session_identity \<Rightarrow> report_is_repeat \<Rightarrow> (execution_report \<Rightarrow> order_book \<Rightarrow> bool) \<Rightarrow> engine \<Rightarrow> engine \<Rightarrow> bool" where
  "answered ev q session repeat P en en' \<longleftrightarrow>
     (\<exists>report. reports (en_outputs en') = reports (en_outputs en) @ [(report, q, session, repeat)] \<and>
        exec_id (ev_crypto ev) (en_identifiers en) q 0 = Inr (er_exec_id report) \<and> P report (en_book en'))"

definition repeat_of :: "command_source \<Rightarrow> report_is_repeat" where
  "repeat_of source = (if source = Live then Not_repeat else Possible_repeat)"

lemmas told_def = apply_order_to_book_def [unfolded repeat_of_def [symmetric] Let_def] acknowledge_order_def [unfolded repeat_of_def [symmetric] Let_def]
  apply_cancel_to_book_def [unfolded repeat_of_def [symmetric] Let_def] after_failure_def [unfolded repeat_of_def [symmetric] Let_def]

lemma answered_published [simp]:
  "(\<And>r b. P r (book_publish q' b) = P r b) \<Longrightarrow>
     answered ev q session repeat P en (publish_after_refusal q' source en') = answered ev q session repeat P en en'"
  by (simp add: answered_def publish_after_refusal_def)

section \<open>New orders\<close>

text \<open>
  When a new order is accepted, and what its report then says: it is on the book now, or nothing on the book has
  changed.
\<close>

definition order_acceptable :: "engine_env \<Rightarrow> engine \<Rightarrow> new_order_single \<Rightarrow> int \<Rightarrow> int \<Rightarrow> int \<Rightarrow> session_identity \<Rightarrow> bool" where
  "order_acceptable ev en view q t d session \<longleftrightarrow>
     t \<noteq> 0 \<and> d \<noteq> 0 \<and> voiding q Void_new_order (en_voids en) = None \<and> key_fits (no_cl_ord_id view) \<and>
     \<not> ob_halted (en_book en) \<and> book_find (en_book en) (make_key session (no_cl_ord_id view)) = None \<and>
     book_size (en_book en) < ss_slot_count (ob_store (en_book en)) \<and> \<not> fl_index_full (ev_faults ev)"

definition order_told ::
  "bool \<Rightarrow> engine_env \<Rightarrow> report_identifiers \<Rightarrow> order_book \<Rightarrow> new_order_single \<Rightarrow> int \<Rightarrow> session_identity \<Rightarrow> execution_report \<Rightarrow> order_book \<Rightarrow> bool" where
  "order_told acceptable ev ids book view q session report book' \<longleftrightarrow>
     er_cl_ord_id report = Some (no_cl_ord_id view) \<and> er_symbol report = no_symbol view \<and>
     (if acceptable
      then er_exec_type report = Exec_new \<and>
        book_find book' = (book_find book)(make_key session (no_cl_ord_id view) \<mapsto>
          filed (make_key session (no_cl_ord_id view)) (order_entry_of view q session)) \<and>
        order_id (ev_crypto ev) ids q = Inr (er_order_id report)
      else er_exec_type report = Exec_rejected \<and> er_order_id report = ''NONE'' \<and> book_find book' = book_find book)"

lemma order_told_published [simp]: "order_told acc ev ids book view q session r (book_publish n b) = order_told acc ev ids book view q session r b"
  by (simp add: order_told_def)

lemma order_told_rejected:
  "\<not> acc \<Longrightarrow> book_find b = book_find book \<Longrightarrow> order_told acc ev ids book view q session (rejected_order view x t reason text') b"
  by (simp add: order_told_def rejected_order_def)

lemma order_told_accepted:
  "acc \<Longrightarrow>
   book_find b = (book_find book)(make_key session (no_cl_ord_id view) \<mapsto> filed (make_key session (no_cl_ord_id view)) (order_entry_of view q session)) \<Longrightarrow>
   order_id (ev_crypto ev) ids q = Inr y \<Longrightarrow>
   order_told acc ev ids book view q session (accepted_report view y x t us ps) b"
  by (simp add: order_told_def accepted_report_def blank_report_def)


text \<open>What is sent after a failure before anything else was, and a report that is sent without one.\<close>

definition outcome_answered ::
  "engine_env \<Rightarrow> int \<Rightarrow> session_identity \<Rightarrow> command_source \<Rightarrow> (string \<Rightarrow> execution_report) \<Rightarrow>
     (execution_report \<Rightarrow> order_book \<Rightarrow> bool) \<Rightarrow> engine \<Rightarrow> error option \<times> engine \<Rightarrow> bool" where
  "outcome_answered ev q session source rejection P en result \<longleftrightarrow>
     answered ev q session (repeat_of source) P en
       (case result of (None, en') \<Rightarrow> en' | (Some _, en') \<Rightarrow> after_failure ev q source session rejection en')"

lemma outcome_answered_send:
  assumes "\<not> fl_send (ev_faults ev)" and "exec_id (ev_crypto ev) (en_identifiers en0) q 0 = Inr (er_exec_id report)"
    and "reports (en_outputs en) = reports (en_outputs en0)" and "P report (en_book en)"
    and "\<And>en'. en_book en' = en_book en \<Longrightarrow> fst (k en') = None \<and> reports (en_outputs (snd (k en'))) = reports (en_outputs en') \<and>
       P report (en_book (snd (k en')))"
  shows "outcome_answered ev q session source rejection P en0 (and_then (send_report ev report q session (repeat_of source) en) k)"
proof -
  let ?en = "(put_output (Send_report report q session (repeat_of source)) en)\<lparr>en_reports_for_command := en_reports_for_command en + 1\<rparr>"
  have "en_book ?en = en_book en" by (simp add: put_output_def)
  from assms(5) [OF this] obtain en' where k: "k ?en = (None, en')" "reports (en_outputs en') = reports (en_outputs ?en)" "P report (en_book en')"
    by (metis prod.collapse)
  have "and_then (send_report ev report q session (repeat_of source) en) k = (None, en')"
    using assms(1) k(1) by (simp add: send_report_def and_then_def)
  then show ?thesis using k assms(2,3) by (simp add: outcome_answered_def answered_def put_output_def)
qed

lemma outcome_answered_failure:
  assumes "\<not> fl_rejection (ev_faults ev)" and "exec_id (ev_crypto ev) (en_identifiers en0) q 0 = Inr x"
    and "en_identifiers en = en_identifiers en0" and "\<not> en_book_changed_by_command en" and "en_reports_for_command en = 0"
    and "reports (en_outputs en) = reports (en_outputs en0)" and "er_exec_id (rejection x) = x" and "P (rejection x) (en_book en)"
    and "\<And>b. P (rejection x) (book_publish q b) = P (rejection x) b"
  shows "outcome_answered ev q session source rejection P en0 (Some e, en)"
  using assms by (simp add: outcome_answered_def answered_def told_def publish_after_refusal_def put_output_def)

lemma refused_publishes: "fst (None :: error option, publish_after_refusal q source en) = None \<and>
    reports (en_outputs (publish_after_refusal q source en)) = reports (en_outputs en)"
  by (simp add: publish_after_refusal_def)

lemma book_after_refusal: "en_book (publish_after_refusal q source en) = (if source = Catch_up then book_publish q (en_book en) else en_book en)"
  by (simp add: publish_after_refusal_def)

lemma rejected_exec_id [simp]: "er_exec_id (rejected_order view x t reason text') = x" "er_exec_id (rejected_cancel cancel x t reason text') = x"
  "er_exec_id (accepted_report view y x t us ps) = x" "er_exec_id (cancelled_report entry y x t id' orig) = x"
  by (simp_all add: rejected_order_def rejected_cancel_def accepted_report_def cancelled_report_def)

lemma order_refused:
  assumes "\<not> fl_send (ev_faults ev)" and "exec_id (ev_crypto ev) (en_identifiers en0) q 0 = Inr x"
    and "reports (en_outputs en) = reports (en_outputs en0)" and "book_find (en_book en) = book_find book" and "\<not> acc"
  shows "outcome_answered ev q session source rejection (order_told acc ev ids book view q session) en0
    (and_then (send_report ev (rejected_order view x t reason text') q session (repeat_of source) en)
       (\<lambda>en. (None, publish_after_refusal q source en)))"
  using assms by (intro outcome_answered_send) (simp_all add: order_told_rejected refused_publishes book_after_refusal)

lemma book_has_room:
  assumes "book_ok b"
  shows "ss_free_head (ob_store b) \<noteq> no_slot \<longleftrightarrow> book_size b < ss_slot_count (ob_store b)"
proof -
  have "book_size b = card (live_slots (ob_store b))"
    using distinct_card [OF book_okD(3) [OF assms]] book_okD(4) [OF assms] by (simp add: book_size_def)
  also have "\<dots> \<le> ss_slot_count (ob_store b)"
    using card_mono [of "{..<ss_slot_count (ob_store b)}" "live_slots (ob_store b)"] by (auto simp: live_slots_def)
  finally show ?thesis using book_full_iff [OF assms] book_size_card [OF assms] by auto
qed

lemma order_to_book_answered:
  assumes ok: "book_ok (en_book en)" and sends: "\<not> fl_send (ev_faults ev)" "\<not> fl_rejection (ev_faults ev)"
    and x: "exec_id (ev_crypto ev) (en_identifiers en) q 0 = Inr x" and y: "order_id (ev_crypto ev) (en_identifiers en) q = Inr y"
    and clear: "\<not> en_book_changed_by_command en" "en_reports_for_command en = 0"
    and acc: "acc \<longleftrightarrow> \<not> ob_halted (en_book en) \<and> book_find (en_book en) (make_key session (no_cl_ord_id view)) = None \<and>
      book_size (en_book en) < ss_slot_count (ob_store (en_book en)) \<and> \<not> fl_index_full (ev_faults ev)"
  shows "outcome_answered ev q session source (\<lambda>x. rejected_order view x t OtherReason (Some failed))
    (order_told acc ev (en_identifiers en) (en_book en) view q session) en (apply_order_to_book ev view q t session source en)"
proof -
  let ?k = "make_key session (no_cl_ord_id view)" and ?e = "order_entry_of view q session"
  obtain r b where add: "book_add (fl_index_full (ev_faults ev)) ?k ?e q (en_book en) = (r, b)" by fastforce
  note refused = order_refused [OF sends(1) x, where acc = False, simplified]
  have result: "r = (if book_size (en_book en) < ss_slot_count (ob_store (en_book en))
      then if fl_index_full (ev_faults ev) then Inl RuntimeError else Inr True else Inr False)"
    using add book_has_room [OF ok] by (auto simp: book_add_store Let_def split: if_splits)
  consider (halted) "ob_halted (en_book en)" | (duplicate) "\<not> ob_halted (en_book en)" "book_find (en_book en) ?k \<noteq> None"
    | (failed) e where "\<not> ob_halted (en_book en)" "book_find (en_book en) ?k = None" "r = Inl e"
    | (full) "\<not> ob_halted (en_book en)" "book_find (en_book en) ?k = None" "r = Inr False"
    | (placed) "\<not> ob_halted (en_book en)" "book_find (en_book en) ?k = None" "r = Inr True"
    by (cases r) auto
  then show ?thesis
  proof cases
    case halted
    then have "\<not> acc" using acc by simp
    with halted show ?thesis using refused by (simp add: told_def with_exec_id_def x)
  next
    case duplicate
    then have "\<not> acc" using acc by simp
    with duplicate show ?thesis using refused by (simp add: told_def with_exec_id_def x book_contains_iff put_output_def)
  next
    case failed
    then have "book_find b = book_find (en_book en)" using book_add_refused [OF ok add] by simp
    moreover have "\<not> acc" using acc failed result by (auto split: if_splits)
    ultimately have "outcome_answered ev q session source (\<lambda>x. rejected_order view x t OtherReason (Some failed))
        (order_told acc ev (en_identifiers en) (en_book en) view q session) en (Some e, en\<lparr>en_book := b\<rparr>)"
      using sends clear x by (intro outcome_answered_failure [OF sends(2) x]) (simp_all add: order_told_rejected)
    then show ?thesis using failed by (simp add: told_def with_exec_id_def with_order_id_def x y book_contains_iff add)
  next
    case full
    then have "book_find b = book_find (en_book en)" using book_add_refused [OF ok add] by simp
    moreover have "\<not> acc" using acc full result by (auto split: if_splits)
    ultimately show ?thesis using full refused
      by (simp add: told_def with_exec_id_def with_order_id_def x y book_contains_iff add)
  next
    case placed
    then have find: "book_find b = (book_find (en_book en))(?k \<mapsto> filed ?k ?e)"
      using book_add_accepted(2) [OF ok, of "fl_index_full (ev_faults ev)" ?k ?e q b session "no_cl_ord_id view"] add by simp
    obtain us ps n where echo: "echo_loop (ev_sizes ev) (no_no_underlyings view) (no_no_party_ids view) (en_arena_size en) = (us, ps, n)"
      by (metis prod_cases3)
    have "acc" using acc placed result by (auto split: if_splits)
    then show ?thesis
      using placed sends x y find echo
      by (simp add: told_def with_exec_id_def with_order_id_def book_contains_iff add
          put_output_def)
        (intro conjI impI outcome_answered_send; simp add: order_told_accepted)
  qed
qed

lemma let_through_fields [simp]:
  "en_book (let_through ev q d en) = en_book en" "en_outputs (let_through ev q d en) = en_outputs en"
  "en_identifiers (let_through ev q d en) = use_trading_date (ev_crypto ev) d (en_identifiers en)"
  "en_voids (let_through ev q d en) = en_voids en" "en_highest_applied_seq_no (let_through ev q d en) = q"
  "en_book_changed_by_command (let_through ev q d en) = en_book_changed_by_command en"
  "en_reports_for_command (let_through ev q d en) = en_reports_for_command en"
  by (simp_all add: let_through_def engine_use_trading_date_def)

lemma begin_command_fields [simp]:
  "en_book (begin_command en) = en_book en" "en_outputs (begin_command en) = en_outputs en"
  "en_identifiers (begin_command en) = en_identifiers en" "en_voids (begin_command en) = en_voids en"
  "en_highest_applied_seq_no (begin_command en) = en_highest_applied_seq_no en"
  "\<not> en_book_changed_by_command (begin_command en)" "en_reports_for_command (begin_command en) = 0"
  by (simp_all add: begin_command_def)

lemma ciphers_in_use: "ids_ok cr ids \<Longrightarrow> d \<noteq> -1 \<Longrightarrow> ri_ciphers (use_trading_date cr d ids) \<noteq> None"
  by (auto simp: use_trading_date_def ids_ok_def Let_def)

lemma order_answered:
  assumes "book_ok (en_book en)" and ids: "ids_ok (ev_crypto ev) (en_identifiers en)" and d: "d \<noteq> -1"
    and q: "en_highest_applied_seq_no en < q" and fits: "identifier_fits q 0"
    and sends: "\<not> fl_send (ev_faults ev)" "\<not> fl_rejection (ev_faults ev)"
  shows "answered ev q session (repeat_of source)
    (order_told (order_acceptable ev en view q t d session) ev (use_trading_date (ev_crypto ev) d (en_identifiers en)) (en_book en) view q session)
    (let_through ev q d (begin_command en)) (apply_new_order ev view q t d session source en)"
proof -
  let ?s = "let_through ev q d (begin_command en)" and ?ids = "use_trading_date (ev_crypto ev) d (en_identifiers en)"
  obtain x y where x: "exec_id (ev_crypto ev) ?ids q 0 = Inr x" and y: "order_id (ev_crypto ev) ?ids q = Inr y"
    using exec_id_position [OF fits ciphers_in_use [OF ids d]] order_id_position [OF fits ciphers_in_use [OF ids d]] by meson
  note refused = order_refused [OF sends(1), of ?s q x, where acc = False, simplified]
  let ?outcome = "apply_new_order_unguarded ev view q t d session source (begin_command en)"
  let ?failed = "\<lambda>x. rejected_order view x t OtherReason (Some ''Venue could not process the order'')"
  define acc where "acc = order_acceptable ev en view q t d session"
  note run = apply_new_order_let_through [of "begin_command en", simplified, OF q fits, of ev view t d session source, unfolded repeat_of_def [symmetric] Let_def]
  note rules = run with_exec_id_def x put_output_def
  consider (no_time) "t = 0 \<or> d = 0" | (voided) v where "\<not> (t = 0 \<or> d = 0)" "voiding q Void_new_order (en_voids en) = Some v"
    | (too_long) "\<not> (t = 0 \<or> d = 0)" "voiding q Void_new_order (en_voids en) = None" "\<not> key_fits (no_cl_ord_id view)"
    | (applied) "\<not> (t = 0 \<or> d = 0)" "voiding q Void_new_order (en_voids en) = None" "key_fits (no_cl_ord_id view)"
    by (cases "voiding q Void_new_order (en_voids en)") blast+
  then have "outcome_answered ev q session source ?failed (order_told acc ev ?ids (en_book en) view q session) ?s ?outcome"
  proof cases
    case no_time
    then have "\<not> acc" by (auto simp: acc_def order_acceptable_def)
    with no_time refused show ?thesis by (simp add: rules refuse_order_without_time_def)
  next
    case voided
    then have "\<not> acc" by (simp add: acc_def order_acceptable_def)
    with voided refused show ?thesis by (simp add: rules refuse_voided_order_def)
  next
    case too_long
    then have "\<not> acc" by (simp add: acc_def order_acceptable_def)
    with too_long refused show ?thesis by (simp add: rules refuse_over_long_order_def)
  next
    case applied
    then have "acc \<longleftrightarrow> \<not> ob_halted (en_book en) \<and> book_find (en_book en) (make_key session (no_cl_ord_id view)) = None \<and>
        book_size (en_book en) < ss_slot_count (ob_store (en_book en)) \<and> \<not> fl_index_full (ev_faults ev)"
      by (simp add: acc_def order_acceptable_def)
    with order_to_book_answered [of ?s ev q x y acc session view source t "''Venue could not process the order''"] applied x y sends assms(1)
    show ?thesis by (simp add: run)
  qed
  then show ?thesis by (simp add: acc_def outcome_answered_def apply_new_order_def split: prod.splits option.splits)
qed

text \<open>
  C8. Every new order that is applied is answered once. Of an order at a position above those applied before,
  whatever it carries and whatever the book holds, one report goes out, to the session that sent it, with the
  ExecID of its position. It says that the order is accepted exactly where it carries a time and a trading date, no
  later command voided it, its ClOrdID is not too long, trading is not halted, its session has no live order with
  that ClOrdID, and the region and the index have room; and then the order is on the book, under its session and
  ClOrdID and with the OrderID of its position. Otherwise it is rejected, and no order on the book has changed.
\<close>

theorem new_order_answered_once:
  assumes "book_ok (en_book en)" and "ids_ok (ev_crypto ev) (en_identifiers en)" and "d \<noteq> -1"
    and "en_highest_applied_seq_no en < q" and "identifier_fits q 0"
    and "\<not> fl_send (ev_faults ev)" and "\<not> fl_rejection (ev_faults ev)"
  shows "\<exists>report.
    reports (en_outputs (apply_new_order ev view q t d session source en)) =
      reports (en_outputs en) @ [(report, q, session, repeat_of source)] \<and>
    exec_id (ev_crypto ev) (use_trading_date (ev_crypto ev) d (en_identifiers en)) q 0 = Inr (er_exec_id report) \<and>
    order_told (order_acceptable ev en view q t d session) ev (use_trading_date (ev_crypto ev) d (en_identifiers en)) (en_book en) view q session report
      (en_book (apply_new_order ev view q t d session source en))"
  using order_answered [OF assms] by (simp add: answered_def)

theorem new_order_answered_once_witness:
  "\<exists>report. reports (en_outputs (apply_new_order example_env (example_order ''A'') 5 1000 20260105 example_session Live
      (new_engine (new_book (example_entry 0 '''') 280 3) (new_identifiers [])))) = [(report, 5, example_session, Not_repeat)]"
proof -
  let ?en = "new_engine (new_book (example_entry 0 '''') 280 3) (new_identifiers [])"
  have ok: "book_ok (en_book ?en)" using book_ok_new [of 3 "example_entry 0 ''''" 280] by (simp add: new_engine_def no_slot_def)
  from new_order_answered_once [OF ok, of example_env 20260105 5 "example_order ''A''" 1000 example_session Live]
  show ?thesis
    by (auto simp: new_engine_def ids_ok_def new_identifiers_def identifier_fits_def sequence_number_limit_def place_limit_def example_env_def
        repeat_of_def)
qed

section \<open>Cancels\<close>

definition cancel_acceptable :: "engine \<Rightarrow> order_cancel_request \<Rightarrow> int \<Rightarrow> int \<Rightarrow> int \<Rightarrow> session_identity \<Rightarrow> bool" where
  "cancel_acceptable en view q t d session \<longleftrightarrow>
     t \<noteq> 0 \<and> d \<noteq> 0 \<and> voiding q Void_cancel (en_voids en) = None \<and> key_fits (oc_cl_ord_id view) \<and> key_fits (oc_orig_cl_ord_id view) \<and>
     book_find (en_book en) (make_key session (oc_orig_cl_ord_id view)) \<noteq> None"

definition cancel_told ::
  "bool \<Rightarrow> engine_env \<Rightarrow> report_identifiers \<Rightarrow> order_book \<Rightarrow> order_cancel_request \<Rightarrow> session_identity \<Rightarrow> execution_report \<Rightarrow> order_book \<Rightarrow> bool" where
  "cancel_told acceptable ev ids book view session report book' \<longleftrightarrow>
     er_cl_ord_id report = Some (oc_cl_ord_id view) \<and> er_orig_cl_ord_id report = Some (oc_orig_cl_ord_id view) \<and>
     (if acceptable
      then er_exec_type report = Exec_canceled \<and> (\<exists>entry. book_find book (make_key session (oc_orig_cl_ord_id view)) = Some entry \<and>
        book_find book' = (book_find book)(make_key session (oc_orig_cl_ord_id view) := None) \<and>
        order_id (ev_crypto ev) ids (oe_placed_at_seq_no entry) = Inr (er_order_id report) \<and>
        er_symbol report = oe_symbol entry \<and> er_side report = oe_side entry)
      else er_exec_type report = Exec_rejected \<and> book_find book' = book_find book)"

lemma cancel_told_published [simp]: "cancel_told acc ev ids book view session r (book_publish n b) = cancel_told acc ev ids book view session r b"
  by (simp add: cancel_told_def)

lemma cancel_told_rejected:
  "\<not> acc \<Longrightarrow> book_find b = book_find book \<Longrightarrow> cancel_told acc ev ids book view session ((rejected_cancel view x t reason text')\<lparr>er_order_id := y, er_ord_status := st, er_leaves_qty := l\<rparr>) b"
  "\<not> acc \<Longrightarrow> book_find b = book_find book \<Longrightarrow> cancel_told acc ev ids book view session (rejected_cancel view x t reason text') b"
  by (simp_all add: cancel_told_def rejected_cancel_def)

lemma cancel_told_cancelled:
  "acc \<Longrightarrow> book_find book (make_key session (oc_orig_cl_ord_id view)) = Some entry \<Longrightarrow>
   book_find b = (book_find book)(make_key session (oc_orig_cl_ord_id view) := None) \<Longrightarrow>
   order_id (ev_crypto ev) ids (oe_placed_at_seq_no entry) = Inr y \<Longrightarrow>
   cancel_told acc ev ids book view session (cancelled_report entry y x t (oc_cl_ord_id view) (Some (oc_orig_cl_ord_id view))) b"
  by (simp add: cancel_told_def cancelled_report_def)

lemma cancel_refused:
  assumes "\<not> fl_send (ev_faults ev)" and "exec_id (ev_crypto ev) (en_identifiers en0) q 0 = Inr x"
    and "reports (en_outputs en) = reports (en_outputs en0)" and "book_find (en_book en) = book_find book" and "\<not> acc"
  shows "outcome_answered ev q session source rejection (cancel_told acc ev ids book view session) en0
      (and_then (send_report ev (rejected_cancel view x t reason text') q session (repeat_of source) en)
         (\<lambda>en. (None, publish_after_refusal q source en)))"
    and "outcome_answered ev q session source rejection (cancel_told acc ev ids book view session) en0
      (and_then (send_report ev ((rejected_cancel view x t reason text')\<lparr>er_order_id := y, er_ord_status := st, er_leaves_qty := l\<rparr>) q session
           (repeat_of source) en) (\<lambda>en. (None, publish_after_refusal q source en)))"
    and "outcome_answered ev q session source rejection (cancel_told acc ev ids book view session) en0
      (and_then (send_report ev (rejected_cancel view x t reason text') q session (repeat_of source) en)
         (\<lambda>en. (None, put_output (Order_outcome session' id' outcome repeat' q' orig) (publish_after_refusal q source en))))"
  using assms
  by (intro outcome_answered_send; simp add: cancel_told_rejected refused_publishes book_after_refusal put_output_def)+

lemma cancel_to_book_answered:
  assumes ok: "book_ok (en_book en)" and sends: "\<not> fl_send (ev_faults ev)"
    and x: "exec_id (ev_crypto ev) (en_identifiers en) q 0 = Inr x"
    and y: "\<And>e. e \<in> ran (book_find (en_book en)) \<Longrightarrow> \<exists>y. order_id (ev_crypto ev) (en_identifiers en) (oe_placed_at_seq_no e) = Inr y"
    and acc: "acc \<longleftrightarrow> book_find (en_book en) (make_key session (oc_orig_cl_ord_id view)) \<noteq> None"
  shows "outcome_answered ev q session source rejection
    (cancel_told acc ev (en_identifiers en) (en_book en) view session) en (apply_cancel_to_book ev view q t session source en)"
proof (cases "book_find (en_book en) (make_key session (oc_orig_cl_ord_id view))")
  case None
  then show ?thesis using cancel_refused(3) [OF sends x, where acc = False] acc by (simp add: told_def with_exec_id_def x)
next
  case (Some entry)
  let ?k = "make_key session (oc_orig_cl_ord_id view)" and ?b = "snd (book_remove (make_key session (oc_orig_cl_ord_id view)) (en_book en))"
  obtain y' where y': "order_id (ev_crypto ev) (en_identifiers en) (oe_placed_at_seq_no entry) = Inr y'" using y Some by (meson ranI)
  have "book_find ?b = (book_find (en_book en))(?k := None)" using book_remove_ok [OF ok, of ?k "fst (book_remove ?k (en_book en))" ?b] by simp
  with Some x y' sends acc show ?thesis
    by (simp add: told_def with_exec_id_def with_order_id_def) (intro outcome_answered_send; simp add: cancel_told_cancelled put_output_def)
qed

lemma cancel_answered:
  assumes ok: "book_ok (en_book en)" and ids: "ids_ok (ev_crypto ev) (en_identifiers en)" and d: "d \<noteq> -1"
    and q: "en_highest_applied_seq_no en < q" and fits: "identifier_fits q 0"
    and held: "\<forall>e \<in> ran (book_find (en_book en)). identifier_fits (oe_placed_at_seq_no e) 0"
    and sends: "\<not> fl_send (ev_faults ev)"
  shows "answered ev q session (repeat_of source)
    (cancel_told (cancel_acceptable en view q t d session) ev (use_trading_date (ev_crypto ev) d (en_identifiers en)) (en_book en) view session)
    (let_through ev q d (begin_command en)) (apply_cancel ev view q t d session source en)"
proof -
  let ?s = "let_through ev q d (begin_command en)" and ?ids = "use_trading_date (ev_crypto ev) d (en_identifiers en)"
  have order_ids: "\<exists>y. order_id (ev_crypto ev) ?ids (oe_placed_at_seq_no e) = Inr y" if "e \<in> ran (book_find (en_book en))" for e
    using order_id_position [OF bspec [OF held that] ciphers_in_use [OF ids d]] by meson
  obtain x where x: "exec_id (ev_crypto ev) ?ids q 0 = Inr x" using exec_id_position [OF fits ciphers_in_use [OF ids d]] by meson
  note refused = cancel_refused [OF sends, of ?s q x, where acc = False, simplified]
  define acc where "acc = cancel_acceptable en view q t d session"
  define rejection where "rejection = (\<lambda>x. rejected_cancel view x t OtherReason (Some ''Venue could not process the cancel. The order is unchanged''))"
  have told_voided: "outcome_answered ev q session source rejection (cancel_told False ev ?ids (en_book en) view session) ?s
      (and_then (refuse_voided_cancel ev view q t session voided (repeat_of source) ?s) (\<lambda>en. (None, publish_after_refusal q source en)))" for voided
  proof (cases "key_fits (oc_orig_cl_ord_id view) \<and> book_find (en_book en) (make_key session (oc_orig_cl_ord_id view)) \<noteq> None")
    case True
    then obtain entry where e: "key_fits (oc_orig_cl_ord_id view)" "book_find (en_book en) (make_key session (oc_orig_cl_ord_id view)) = Some entry" by auto
    then obtain y where "order_id (ev_crypto ev) ?ids (oe_placed_at_seq_no entry) = Inr y" using order_ids by (meson ranI)
    with e refused(2) x show ?thesis by (simp add: refuse_voided_cancel_def with_exec_id_def with_order_id_def put_output_def Let_def)
  next
    case False
    with refused(2) x show ?thesis
      by (cases "key_fits (oc_orig_cl_ord_id view)") (simp_all add: refuse_voided_cancel_def with_exec_id_def with_order_id_def put_output_def Let_def)
  qed
  note run = apply_cancel_let_through [of "begin_command en", simplified, OF q fits, of ev view t d session source, unfolded repeat_of_def [symmetric] Let_def]
  note rules = run with_exec_id_def x put_output_def
  consider (no_time) "t = 0 \<or> d = 0" | (voided) v where "\<not> (t = 0 \<or> d = 0)" "voiding q Void_cancel (en_voids en) = Some v"
    | (too_long) "\<not> (t = 0 \<or> d = 0)" "voiding q Void_cancel (en_voids en) = None" "\<not> key_fits (oc_cl_ord_id view) \<or> \<not> key_fits (oc_orig_cl_ord_id view)"
    | (applied) "\<not> (t = 0 \<or> d = 0)" "voiding q Void_cancel (en_voids en) = None" "key_fits (oc_cl_ord_id view)" "key_fits (oc_orig_cl_ord_id view)"
    by (cases "voiding q Void_cancel (en_voids en)") blast+
  then have "outcome_answered ev q session source rejection (cancel_told acc ev ?ids (en_book en) view session) ?s
      (apply_cancel_unguarded ev view q t d session source (begin_command en))"
  proof cases
    case no_time
    then have "\<not> acc" by (auto simp: acc_def cancel_acceptable_def)
    with no_time refused(1) show ?thesis by (simp add: rules refuse_cancel_without_time_def)
  next
    case voided
    then have "\<not> acc" by (simp add: acc_def cancel_acceptable_def)
    with voided told_voided show ?thesis by (simp add: run)
  next
    case too_long
    then have "\<not> acc" by (auto simp: acc_def cancel_acceptable_def)
    with too_long refused(1) show ?thesis by (simp add: rules refuse_over_long_cancel_def Let_def)
  next
    case applied
    then have "acc \<longleftrightarrow> book_find (en_book en) (make_key session (oc_orig_cl_ord_id view)) \<noteq> None"
      by (simp add: acc_def cancel_acceptable_def)
    with cancel_to_book_answered [of ?s ev q x acc session view source rejection t] applied x order_ids sends ok
    show ?thesis by (simp add: run)
  qed
  then show ?thesis by (simp add: acc_def outcome_answered_def apply_cancel_def rejection_def split: prod.splits option.splits)
qed

text \<open>
  C9. Every cancel that is applied is answered once, to the session that sent it and with the ExecID of its
  position. The report says that the order is cancelled exactly where the cancel carries a time and a trading date, no
  later command voided it, neither ClOrdID is too long, and the session's order with that OrigClOrdID is on the
  book. That order is off the book now while every other order is as it was, and the report describes it as the
  book held it, under the OrderID of the position it was placed at: the one its acceptance carried, if the trading
  date is the same. Otherwise the report is a rejection and nothing on the book has changed.
\<close>

theorem cancel_answered_once:
  assumes "book_ok (en_book en)" and "ids_ok (ev_crypto ev) (en_identifiers en)" and "d \<noteq> -1"
    and "en_highest_applied_seq_no en < q" and "identifier_fits q 0"
    and "\<forall>e \<in> ran (book_find (en_book en)). identifier_fits (oe_placed_at_seq_no e) 0"
    and "\<not> fl_send (ev_faults ev)"
  shows "\<exists>report.
    reports (en_outputs (apply_cancel ev view q t d session source en)) =
      reports (en_outputs en) @ [(report, q, session, repeat_of source)] \<and>
    exec_id (ev_crypto ev) (use_trading_date (ev_crypto ev) d (en_identifiers en)) q 0 = Inr (er_exec_id report) \<and>
    cancel_told (cancel_acceptable en view q t d session) ev (use_trading_date (ev_crypto ev) d (en_identifiers en)) (en_book en) view session report
      (en_book (apply_cancel ev view q t d session source en))"
  using cancel_answered [OF assms] by (simp add: answered_def)

theorem cancel_answered_once_witness:
  "\<exists>report. reports (en_outputs (apply_cancel example_env (example_cancel ''C'' ''A'') 9 1000 20260105 example_session Live
      (new_engine example_book (new_identifiers [])))) = [(report, 9, example_session, Not_repeat)] \<and> er_exec_type report = Exec_canceled"
proof -
  let ?en = "new_engine example_book (new_identifiers [])"
  have find: "book_find example_book (make_key example_session ''A'') \<noteq> None" by (simp add: book_find_def example_book_value)
  have held: "\<forall>e \<in> ran (book_find (en_book ?en)). identifier_fits (oe_placed_at_seq_no e) 0"
    by (auto simp: new_engine_def ran_def book_find_def example_book_value example_entry_def identifier_fits_def sequence_number_limit_def
        place_limit_def split: if_splits)
  have "cancel_acceptable ?en (example_cancel ''C'' ''A'') 9 1000 20260105 example_session"
    using find by (simp add: cancel_acceptable_def new_engine_def example_cancel_def key_fits_def max_cl_ord_id_length_def voiding_def)
  with cancel_answered_once [OF _ _ _ _ _ held, of example_env 20260105 9 "example_cancel ''C'' ''A''" 1000 example_session Live] example_book_ok
  show ?thesis
    by (auto simp: new_engine_def ids_ok_def new_identifiers_def identifier_fits_def sequence_number_limit_def place_limit_def example_env_def
        repeat_of_def cancel_told_def)
qed

section \<open>Cancelling the book\<close>

text \<open>The report of an order that a cancel of the book took off it, the \<open>place\<close>th of the command's reports.\<close>

definition book_cancel_report ::
  "engine_env \<Rightarrow> report_identifiers \<Rightarrow> int \<Rightarrow> int \<Rightarrow> report_is_repeat \<Rightarrow> int \<Rightarrow> order_entry \<Rightarrow>
     execution_report \<times> int \<times> session_identity \<times> report_is_repeat" where
  "book_cancel_report ev ids q t repeat place entry =
     (cancelled_report entry (projr (order_id (ev_crypto ev) ids (oe_placed_at_seq_no entry))) (projr (exec_id (ev_crypto ev) ids q place)) t
        (oe_cl_ord_id entry) None, 0, oe_session entry, repeat)"

fun book_cancel_reports ::
  "engine_env \<Rightarrow> report_identifiers \<Rightarrow> int \<Rightarrow> int \<Rightarrow> report_is_repeat \<Rightarrow> int \<Rightarrow> order_entry list \<Rightarrow>
     (execution_report \<times> int \<times> session_identity \<times> report_is_repeat) list" where
  "book_cancel_reports ev ids q t repeat place [] = []"
| "book_cancel_reports ev ids q t repeat place (entry # entries) =
     book_cancel_report ev ids q t repeat place entry # book_cancel_reports ev ids q t repeat (place + 1) entries"

lemma book_cancel_reports_length [simp]: "length (book_cancel_reports ev ids q t repeat place entries) = length entries"
  by (induction entries arbitrary: place) simp_all

lemma book_cancel_reports_nth:
  "i < length entries \<Longrightarrow>
     book_cancel_reports ev ids q t repeat place entries ! i = book_cancel_report ev ids q t repeat (place + int i) (entries ! i)"
  by (induction entries arbitrary: place i) (auto simp: nth_Cons' algebra_simps of_nat_diff)

lemma cancel_placed_run:
  assumes "\<not> fl_send (ev_faults ev)" and "ri_ciphers (en_identifiers en) \<noteq> None" and "book_ok (en_book en)" and "distinct is"
    and "\<And>i. i \<in> set is \<Longrightarrow> \<exists>k. (k, i) \<in> set (ob_index (en_book en))"
    and "\<And>i. i \<in> set is \<Longrightarrow> identifier_fits (oe_placed_at_seq_no (entry_at (en_book en) i)) 0"
    and "0 \<le> place" and "is \<noteq> [] \<Longrightarrow> identifier_fits q (place + int (length is) - 1)"
  shows "\<exists>en'. cancel_placed ev q t repeat is place en = (None, en') \<and>
     (\<forall>visited. en_book en' = snd (fold remove_slot is (visited, en_book en))) \<and>
     reports (en_outputs en') = reports (en_outputs en) @
       book_cancel_reports ev (en_identifiers en) q t repeat place (map (entry_at (en_book en)) is)"
  using assms
proof (induction "is" arbitrary: en place)
  case (Cons i "is")
  let ?b = "en_book en" and ?e = "entry_at (en_book en) i"
  obtain k where k: "(k, i) \<in> set (ob_index ?b)" using Cons.prems(5) by auto
  have fits: "identifier_fits q place" using Cons.prems(7,8) by (auto simp: identifier_fits_def)
  obtain x y where x: "exec_id (ev_crypto ev) (en_identifiers en) q place = Inr x"
    and y: "order_id (ev_crypto ev) (en_identifiers en) (oe_placed_at_seq_no ?e) = Inr y"
    using exec_id_position [OF fits Cons.prems(2), of "ev_crypto ev"] order_id_position [OF Cons.prems(6) [of i] Cons.prems(2), of "ev_crypto ev"] by auto
  let ?out = "Send_report (cancelled_report ?e y x t (oe_cl_ord_id ?e) None) 0 (oe_session ?e) repeat"
  let ?en = "on_book (\<lambda>book. snd (remove_slot i ([], book))) (put_output ?out en)"
  have rm: "remove_slot i (v, ?b) = (v @ [?e], snd (book_remove k ?b))" for v by (rule remove_slot_is_remove [OF Cons.prems(3) k])
  have book: "en_book ?en = snd (book_remove k ?b)" by (simp add: rm put_output_def)
  note R = book_remove_index [OF Cons.prems(3) k]
  have other: "entry_at (en_book ?en) j = entry_at ?b j" if "j \<in> set is" for j
    using R(2) [of j] that Cons.prems(4) by (auto simp: book)
  have "\<exists>k. (k, j) \<in> set (ob_index (en_book ?en))" if "j \<in> set is" for j
  proof -
    have "\<exists>k. (k, j) \<in> set (ob_index ?b)" using Cons.prems(5) [of j] that by simp
    then obtain k' where k': "(k', j) \<in> set (ob_index ?b)" ..
    have "j \<noteq> i" using that Cons.prems(4) by auto
    then have "k' \<noteq> k" using k k' index_injective [OF book_okD(2,3) [OF Cons.prems(3)] k k'] by simp
    with k' show ?thesis unfolding book R(1) by (auto simp: set_index_erase)
  qed
  moreover have "book_ok (en_book ?en)" using book_remove_ok [OF Cons.prems(3), of k] unfolding book by (metis prod.collapse)
  moreover have "identifier_fits (oe_placed_at_seq_no (entry_at (en_book ?en) j)) 0" if "j \<in> set is" for j
    unfolding other [OF that] using Cons.prems(6) [of j] that by simp
  moreover have "identifier_fits q (place + 1 + int (length is) - 1)" if "is \<noteq> []" using Cons.prems(8) by simp
  ultimately obtain en' where en': "cancel_placed ev q t repeat is (place + 1) ?en = (None, en')"
      "\<And>v. en_book en' = snd (fold remove_slot is (v, en_book ?en))"
      "reports (en_outputs en') = reports (en_outputs ?en) @ book_cancel_reports ev (en_identifiers ?en) q t repeat (place + 1) (map (entry_at (en_book ?en)) is)"
    using Cons.IH [of ?en "place + 1"] Cons.prems by (auto simp: put_output_def)
  have "map (entry_at (en_book ?en)) is = map (entry_at ?b) is" using other by simp
  with en' x y Cons.prems(1) show ?case
    by (simp add: with_exec_id_def with_order_id_def Let_def rm book book_cancel_report_def put_output_def cong: map_cong)
qed simp

lemma apply_cancel_book_let_through:
  assumes "en_highest_applied_seq_no en < q" and "identifier_fits q 0"
  shows "apply_cancel_book ev through q t d source en =
    (case cancel_placed ev q t (repeat_of source) (map snd (placed_through through (en_book en))) 0 (let_through ev q d en) of
       (Some e, en') \<Rightarrow> (Inl e, en')
     | (None, en') \<Rightarrow> (Inr \<lparr>bc_applied = True, bc_open_orders = book_size (en_book en), bc_reports_sent = length (placed_through through (en_book en)),
                            bc_orders_kept = book_size (en_book en')\<rparr>, on_book (book_publish q) en'))"
  using assms unfolding apply_cancel_book_def Let_def repeat_of_def
  by (cases source) (simp_all add: passes cong: prod.case_cong option.case_cong)

lemma placed_through_length: "length (placed_through n b) \<le> book_size b"
  by (simp add: placed_through_def book_size_def)

lemma book_cancelled_run:
  assumes ok: "book_ok (en_book en)" and ids: "ids_ok (ev_crypto ev) (en_identifiers en)" and d: "d \<noteq> -1"
    and q: "en_highest_applied_seq_no en < q" and fits: "identifier_fits q 0"
    and held: "\<forall>e \<in> ran (book_find (en_book en)). identifier_fits (oe_placed_at_seq_no e) 0"
    and sends: "\<not> fl_send (ev_faults ev)" and room: "int (book_size (en_book en)) \<le> place_limit"
  shows "\<exists>result en' visited book'. apply_cancel_book ev through q t d source en = (Inr result, en') \<and>
    remove_placed_through through (en_book en) = (visited, book') \<and> en_book en' = book_publish q book' \<and>
    bc_applied result \<and> bc_reports_sent result = length visited \<and> bc_orders_kept result = book_size book' \<and>
    reports (en_outputs en') = reports (en_outputs en) @
      book_cancel_reports ev (use_trading_date (ev_crypto ev) d (en_identifiers en)) q t (repeat_of source) 0 visited"
proof -
  let ?s = "let_through ev q d en" and ?is = "map snd (placed_through through (en_book en))"
  obtain visited book' where r: "remove_placed_through through (en_book en) = (visited, book')" by fastforce
  note P = placed_through_slots [OF ok, of through] and V = remove_placed_through_visits [OF ok r]
  have known: "\<exists>k. (k, i) \<in> set (ob_index (en_book ?s))" if "i \<in> set ?is" for i using that P(2) by auto
  have "identifier_fits (oe_placed_at_seq_no (entry_at (en_book ?s) i)) 0" if i: "i \<in> set ?is" for i
  proof -
    obtain k where "(k, i) \<in> set (ob_index (en_book en))" using known [OF i] by auto
    then have "book_find (en_book en) k = Some (entry_at (en_book en) i)" by (auto simp: book_find_iff [OF ok])
    with held show ?thesis by (simp add: ranI)
  qed
  moreover have "identifier_fits q (0 + int (length ?is) - 1)" if "?is \<noteq> []"
  proof -
    from that have "0 < length (placed_through through (en_book en))" by simp
    with placed_through_length [of through "en_book en"] room fits show ?thesis by (auto simp: identifier_fits_def)
  qed
  ultimately obtain en' where en': "cancel_placed ev q t (repeat_of source) ?is 0 ?s = (None, en')"
      "\<And>v. en_book en' = snd (fold remove_slot ?is (v, en_book ?s))"
      "reports (en_outputs en') = reports (en_outputs ?s) @
         book_cancel_reports ev (en_identifiers ?s) q t (repeat_of source) 0 (map (entry_at (en_book ?s)) ?is)"
    using cancel_placed_run [of ev ?s ?is 0 q t "repeat_of source"] sends ciphers_in_use [OF ids d] ok P(1) known by auto
  have "en_book en' = book'" using r en'(2) [of "[]"] by (simp add: remove_placed_through_def P(4))
  with en' V r show ?thesis
    by (auto simp: apply_cancel_book_let_through [OF q fits])
qed

text \<open>
  C10. A cancel of the book takes off it exactly the orders placed up to the position it names, and sends a
  report for each, in the order they were placed, to the session of each: the \<open>i\<close>th with the ExecID of the
  command's position and place \<open>i\<close>, and with the OrderID of the position its order was placed at. Every other order
  is as it was. It needs what the identifiers can hold, a place for every order on the book.
\<close>

theorem cancel_book_exact:
  assumes "book_ok (en_book en)" and "ids_ok (ev_crypto ev) (en_identifiers en)" and "d \<noteq> -1"
    and "en_highest_applied_seq_no en < q" and "identifier_fits q 0"
    and "\<forall>e \<in> ran (book_find (en_book en)). identifier_fits (oe_placed_at_seq_no e) 0"
    and "\<not> fl_send (ev_faults ev)" and "int (book_size (en_book en)) \<le> place_limit"
  shows "\<exists>result en' visited. apply_cancel_book ev through q t d source en = (Inr result, en') \<and>
    bc_applied result \<and> bc_reports_sent result = length visited \<and>
    set visited = {e \<in> ran (book_find (en_book en)). oe_placed_at_seq_no e \<le> through} \<and> distinct visited \<and>
    sorted (map oe_placed_at_seq_no visited) \<and>
    reports (en_outputs en') = reports (en_outputs en) @
      book_cancel_reports ev (use_trading_date (ev_crypto ev) d (en_identifiers en)) q t (repeat_of source) 0 visited \<and>
    (\<forall>k. book_find (en_book en') k =
       (case book_find (en_book en) k of None \<Rightarrow> None | Some e \<Rightarrow> if oe_placed_at_seq_no e \<le> through then None else Some e))"
proof -
  obtain result en' visited book' where R: "apply_cancel_book ev through q t d source en = (Inr result, en')"
      "remove_placed_through through (en_book en) = (visited, book')" "en_book en' = book_publish q book'"
      "bc_applied result" "bc_reports_sent result = length visited"
      "reports (en_outputs en') = reports (en_outputs en) @
         book_cancel_reports ev (use_trading_date (ev_crypto ev) d (en_identifiers en)) q t (repeat_of source) 0 visited"
    using book_cancelled_run [OF assms] by blast
  note F = remove_placed_through_facts [OF assms(1) R(2)]
  show ?thesis by (intro exI [of _ result] exI [of _ en'] exI [of _ visited]) (use R F in simp)
qed

theorem cancel_book_exact_witness:
  "\<exists>result en'. apply_cancel_book example_env 5 9 1000 20260105 Live (new_engine example_book (new_identifiers [])) = (Inr result, en') \<and>
     book_find (en_book en') (make_key example_session ''B'') = None \<and> book_find (en_book en') (make_key example_session ''A'') \<noteq> None"
proof -
  let ?en = "new_engine example_book (new_identifiers [])"
  have held: "\<forall>e \<in> ran (book_find (en_book ?en)). identifier_fits (oe_placed_at_seq_no e) 0"
    by (auto simp: new_engine_def ran_def book_find_def example_book_value example_entry_def identifier_fits_def sequence_number_limit_def
        place_limit_def split: if_splits)
  have find: "book_find example_book (make_key example_session ''A'') = Some (example_entry 6 ''A'')"
      "book_find example_book (make_key example_session ''B'') = Some (example_entry 5 ''B'')"
    by (simp_all add: book_find_def example_book_value make_key_def max_cl_ord_id_length_def)
  have "\<exists>result en' visited. apply_cancel_book example_env 5 9 1000 20260105 Live ?en = (Inr result, en') \<and>
    (\<forall>k. book_find (en_book en') k =
       (case book_find (en_book ?en) k of None \<Rightarrow> None | Some e \<Rightarrow> if oe_placed_at_seq_no e \<le> 5 then None else Some e))"
    using cancel_book_exact [OF _ _ _ _ _ held, of example_env 20260105 9 5 1000 Live] example_book_ok
    by (auto simp: new_engine_def ids_ok_def new_identifiers_def identifier_fits_def sequence_number_limit_def place_limit_def example_env_def
        book_size_def example_book_value)
  with find show ?thesis by (auto simp: new_engine_def example_entry_def)
qed

section \<open>ExecIDs\<close>

text \<open>The trading date a command's record carries, of those whose reports have identifiers.\<close>

fun command_date :: "engine_command \<Rightarrow> int option" where
  "command_date (New_order_command view t d session) = Some d"
| "command_date (Cancel_command view t d session) = Some d"
| "command_date (Cancel_book_command through t d) = Some d"
| "command_date (Technical_event_command view d) = None"
| "command_date (Void_commands_command view) = None"

text \<open>An engine whose orders have identifiers, in a book that a cancel of the book has places for.\<close>

definition engine_ready :: "engine_env \<Rightarrow> engine \<Rightarrow> bool" where
  "engine_ready ev en \<longleftrightarrow>
     agrees ev en en \<and> (\<forall>e \<in> ran (book_find (en_book en)). identifier_fits (oe_placed_at_seq_no e) 0) \<and>
     int (ss_slot_count (ob_store (en_book en))) \<le> place_limit"

text \<open>The reports \<open>rs\<close> carry the ExecIDs of position \<open>q\<close>, in the order of their places.\<close>

definition numbered :: "engine_env \<Rightarrow> report_identifiers \<Rightarrow> int \<Rightarrow> (execution_report \<times> 'a) list \<Rightarrow> bool" where
  "numbered ev ids q rs \<longleftrightarrow> (\<forall>i < length rs. exec_id (ev_crypto ev) ids q (int i) = Inr (er_exec_id (fst (rs ! i))))"

lemma book_size_le: "book_ok b \<Longrightarrow> book_size b \<le> ss_slot_count (ob_store b)"
  using card_mono [of "{..<ss_slot_count (ob_store b)}" "live_slots (ob_store b)"] distinct_card [OF book_okD(3), of b] book_okD(4) [of b]
  by (auto simp: book_size_def live_slots_def)

lemma agrees_selfD:
  "agrees ev en en \<Longrightarrow> book_ok (en_book en)" "agrees ev en en \<Longrightarrow> ids_ok (ev_crypto ev) (en_identifiers en)"
  by (simp_all add: agrees_def alike_def)

lemma engine_readyD:
  assumes "engine_ready ev en"
  shows "book_ok (en_book en)" and "ids_ok (ev_crypto ev) (en_identifiers en)"
    and "\<forall>e \<in> ran (book_find (en_book en)). identifier_fits (oe_placed_at_seq_no e) 0" and "int (book_size (en_book en)) \<le> place_limit"
  using assms book_size_le [of "en_book en"] by (auto simp: engine_ready_def agrees_def alike_def)

lemma ready_applying: "engine_ready ev en \<Longrightarrow> engine_ready ev (on_book (book_set_applying n) en)"
  using agrees_applying [of ev en en n n] by (simp add: engine_ready_def)

text \<open>What a command does to the reports, and which orders it leaves.\<close>

lemma dispatch_numbered:
  assumes ready: "engine_ready ev en" and q: "en_highest_applied_seq_no en < q" and ok: "command_ok ev q command"
    and sends: "\<not> fl_send (ev_faults ev)" "\<not> fl_rejection (ev_faults ev)"
    and date: "command_date command = None \<or> command_date command = Some d"
  shows "\<exists>rs. reports (en_outputs (snd (dispatch_command ev source q command en))) = reports (en_outputs en) @ rs \<and>
    numbered ev (use_trading_date (ev_crypto ev) d (en_identifiers en)) q rs \<and>
    (\<forall>e \<in> ran (book_find (en_book (snd (dispatch_command ev source q command en)))). identifier_fits (oe_placed_at_seq_no e) 0)"
proof (cases command)
  case (New_order_command view t d' session)
  then have d: "d' = d" "d \<noteq> -1" and fits: "identifier_fits q 0" using date ok by (simp_all add: command_ok_def)
  from order_answered [OF engine_readyD(1,2) [OF ready] d(2) q fits sends, of session source view t] engine_readyD(3) [OF ready] fits
  show ?thesis
    by (fastforce simp: New_order_command d(1) dispatch_command_def answered_def numbered_def order_told_def ran_def set_cl_ord_id_def split: if_splits)
next
  case (Cancel_command view t d' session)
  then have d: "d' = d" "d \<noteq> -1" and fits: "identifier_fits q 0" using date ok by (simp_all add: command_ok_def)
  from cancel_answered [OF engine_readyD(1,2) [OF ready] d(2) q fits engine_readyD(3) [OF ready] sends(1), of session source view t] engine_readyD(3) [OF ready]
  show ?thesis
    by (fastforce simp: Cancel_command d(1) dispatch_command_def answered_def numbered_def cancel_told_def ran_def split: if_splits)
next
  case (Cancel_book_command through t d')
  then have d: "d' = d" "d \<noteq> -1" and fits: "identifier_fits q 0" using date ok by (simp_all add: command_ok_def)
  let ?ids = "use_trading_date (ev_crypto ev) d (en_identifiers en)"
  obtain result en' visited book' where R: "apply_cancel_book ev through q t d source en = (Inr result, en')"
      "remove_placed_through through (en_book en) = (visited, book')" "en_book en' = book_publish q book'"
      "reports (en_outputs en') = reports (en_outputs en) @ book_cancel_reports ev ?ids q t (repeat_of source) 0 visited"
    using book_cancelled_run [OF engine_readyD(1,2) [OF ready] d(2) q fits engine_readyD(3) [OF ready] sends(1) engine_readyD(4) [OF ready]] by blast
  note F = remove_placed_through_facts [OF engine_readyD(1) [OF ready] R(2)]
  have "length visited \<le> book_size (en_book en)" using F by linarith
  then have place: "\<exists>x. exec_id (ev_crypto ev) ?ids q (int i) = Inr x" if "i < length visited" for i
    using exec_id_position [of q "int i", OF _ ciphers_in_use [OF engine_readyD(2) [OF ready] d(2)]] that fits engine_readyD(4) [OF ready]
    by (fastforce simp: identifier_fits_def)
  then have "numbered ev ?ids q (book_cancel_reports ev ?ids q t (repeat_of source) 0 visited)"
    by (auto simp: numbered_def book_cancel_reports_nth book_cancel_report_def dest!: place)
  moreover have "ran (book_find (en_book en')) \<subseteq> ran (book_find (en_book en))"
    using F R(3) by (force simp: ran_def split: option.splits if_splits)
  ultimately show ?thesis using R engine_readyD(3) [OF ready] by (auto simp: Cancel_book_command d(1) dispatch_command_def)
next
  case (Technical_event_command view d')
  then show ?thesis using engine_readyD(3) [OF ready] q
    by (cases source) (simp_all add: dispatch_command_def apply_technical_event_def passes numbered_def engine_set_halted_def Let_def)
next
  case (Void_commands_command view)
  then show ?thesis using engine_readyD(3) [OF ready] q
    by (cases source) (simp_all add: dispatch_command_def apply_void_commands_def passes numbered_def learn_void_def Let_def
        split: prod.splits bool.splits)
qed

section \<open>The size of the region\<close>

abbreviation capacity :: "engine \<Rightarrow> nat" where
  "capacity en \<equiv> ss_slot_count (ob_store (en_book en))"

named_theorems keeps_capacity \<open>an operation leaves the region the size it was\<close>

lemma capacity_fields [keeps_capacity, simp]:
  "capacity (put_output out en) = capacity en" "capacity (publish_after_refusal q source en) = capacity en"
  "capacity (snd (send_report ev report q session repeat en)) = capacity en" "capacity (let_through ev q d en) = capacity en"
  "capacity (snd (None :: error option, on_book (book_publish q) en)) = capacity en"
  "capacity (engine_use_trading_date ev d en) = capacity en" "capacity (engine_set_halted h en) = capacity en"
  "capacity (snd (applied_before q en)) = capacity en" "capacity (snd (sequence_goes_backwards q en)) = capacity en"
  "capacity (snd (learn_void v en)) = capacity en" "capacity (after_failure ev q source session rejection en) = capacity en"
  "capacity (refuse_to_name q en) = capacity en"
  by (simp_all add: put_output_def publish_after_refusal_def send_report_def engine_use_trading_date_def engine_set_halted_def
      applied_before_def sequence_goes_backwards_def learn_void_def after_failure_def refuse_to_name_def Let_def
      split: prod.splits bool.splits sum.splits)

lemma capacity_rules [keeps_capacity]:
  "capacity (snd r) = c \<Longrightarrow> (\<And>en. capacity en = c \<Longrightarrow> capacity (snd (f en)) = c) \<Longrightarrow> capacity (snd (and_then r f)) = c"
  "(\<And>x. capacity (snd (g x)) = capacity en) \<Longrightarrow> capacity (snd (with_exec_id ev q place en g)) = capacity en"
  "(\<And>x. capacity (snd (g x)) = capacity en) \<Longrightarrow> capacity (snd (with_order_id ev q en g)) = capacity en"
  by (auto simp: and_then_def with_exec_id_def with_order_id_def split: prod.splits option.splits sum.splits)

lemma capacity_split [keeps_capacity]:
  "(P \<Longrightarrow> capacity (snd x) = c) \<Longrightarrow> (\<not> P \<Longrightarrow> capacity (snd y) = c) \<Longrightarrow> capacity (snd (if P then x else y)) = c"
  "capacity (snd x) = c \<Longrightarrow> (\<And>z. capacity (snd (f z)) = c) \<Longrightarrow> capacity (snd (case v of None \<Rightarrow> x | Some z \<Rightarrow> f z)) = c"
  by (auto split: option.splits)

lemma capacity_refusals [keeps_capacity]:
  "capacity (snd (refuse_order_without_time ev view q t session repeat en)) = capacity en"
  "capacity (snd (refuse_voided_order ev view q t session voided repeat en)) = capacity en"
  "capacity (snd (refuse_over_long_order ev view q t session repeat en)) = capacity en"
  "capacity (snd (refuse_cancel_without_time ev cancel q t session repeat en)) = capacity en"
  "capacity (snd (refuse_voided_cancel ev cancel q t session voided repeat en)) = capacity en"
  "capacity (snd (refuse_over_long_cancel ev cancel q t session repeat en)) = capacity en"
  by (simp_all add: refuse_order_without_time_def refuse_voided_order_def refuse_over_long_order_def refuse_cancel_without_time_def
      refuse_voided_cancel_def refuse_over_long_cancel_def with_exec_id_def with_order_id_def Let_def split: sum.splits option.splits)

lemma capacity_order_to_book [keeps_capacity]: "capacity (snd (apply_order_to_book ev view q t session source en)) = capacity en"
proof -
  obtain r b where add: "book_add (fl_index_full (ev_faults ev)) (make_key session (no_cl_ord_id view)) (order_entry_of view q session) q (en_book en) = (r, b)"
    by fastforce
  have "ss_slot_count (ob_store b) = capacity en"
    using book_add_slot_count [of "fl_index_full (ev_faults ev)" "make_key session (no_cl_ord_id view)" "order_entry_of view q session" q "en_book en"]
    by (simp add: add)
  then show ?thesis
    by (auto simp: apply_order_to_book_def acknowledge_order_def with_exec_id_def with_order_id_def and_then_def Let_def send_report_def
        put_output_def add split: sum.splits prod.splits option.splits bool.splits if_splits)
qed

lemma capacity_cancel_to_book [keeps_capacity]: "capacity (snd (apply_cancel_to_book ev cancel q t session source en)) = capacity en"
  by (auto simp: apply_cancel_to_book_def with_exec_id_def with_order_id_def and_then_def Let_def send_report_def
      put_output_def split: sum.splits prod.splits option.splits bool.splits if_splits)

lemma capacity_cancel_placed: "capacity (snd (cancel_placed ev q t repeat is place en)) = capacity en"
  by (induction "is" arbitrary: place en)
    (auto simp: with_exec_id_def with_order_id_def Let_def put_output_def remove_slot_def split: sum.splits)

lemma capacity_new_order: 
  assumes "en_highest_applied_seq_no en < q" and "identifier_fits q 0"
  shows "capacity (apply_new_order ev view q t d session source en) = capacity en"
    and "capacity (apply_cancel ev cancel q t d session source en) = capacity en"
proof -
  have "capacity (snd (apply_new_order_unguarded ev view q t d session source (begin_command en))) = capacity (let_through ev q d (begin_command en))"
    unfolding apply_new_order_let_through [of "begin_command en", simplified, OF assms] Let_def by (intro keeps_capacity) simp_all
  then show "capacity (apply_new_order ev view q t d session source en) = capacity en"
    by (auto simp: apply_new_order_def split: prod.splits option.splits)
  have "capacity (snd (apply_cancel_unguarded ev cancel q t d session source (begin_command en))) = capacity (let_through ev q d (begin_command en))"
    unfolding apply_cancel_let_through [of "begin_command en", simplified, OF assms] Let_def by (intro keeps_capacity) simp_all
  then show "capacity (apply_cancel ev cancel q t d session source en) = capacity en"
    by (auto simp: apply_cancel_def split: prod.splits option.splits)
qed

lemma capacity_command:
  assumes "en_highest_applied_seq_no en < q" and "identifier_fits q 0"
  shows "capacity (snd (apply_command ev source q command en)) = capacity en"
proof -
  let ?en = "on_book (book_set_applying q) en"
  have q: "en_highest_applied_seq_no ?en < q" using assms(1) by simp
  have "capacity (snd (dispatch_command ev source q command ?en)) = capacity ?en"
  proof (cases command)
    case (Cancel_book_command through t d)
    obtain e en' where r: "cancel_placed ev q t (repeat_of source) (map snd (placed_through through (en_book ?en))) 0 (let_through ev q d ?en) = (e, en')"
      by fastforce
    then have "capacity en' = capacity ?en"
      using capacity_cancel_placed [of ev q t "repeat_of source" "map snd (placed_through through (en_book ?en))" 0 "let_through ev q d ?en"] by simp
    then show ?thesis
      using apply_cancel_book_let_through [OF q assms(2), of ev through t d source] r
      by (cases e) (simp_all add: Cancel_book_command dispatch_command_def)
  next
    case (Technical_event_command view d)
    then show ?thesis using q by (cases source) (simp_all add: dispatch_command_def apply_technical_event_def passes Let_def)
  next
    case (Void_commands_command view)
    then show ?thesis using q by (cases source) (simp_all add: dispatch_command_def apply_void_commands_def passes Let_def split_def)
  qed (use q assms(2) in \<open>simp_all add: dispatch_command_def capacity_new_order\<close>)
  then show ?thesis by (auto simp: apply_command_def and_then_def split: prod.splits option.splits)
qed

section \<open>A run of commands\<close>

lemma command_numbered:
  assumes ready: "engine_ready ev en" and q: "en_highest_applied_seq_no en < q" and ok: "command_ok ev q command"
    and gz: "0 < gz_alignment (ev_sizes ev)" and sends: "\<not> fl_send (ev_faults ev)" "\<not> fl_rejection (ev_faults ev)"
    and date: "command_date command = None \<or> command_date command = Some d"
  shows "\<exists>rs. reports (en_outputs (snd (apply_command ev source q command en))) = reports (en_outputs en) @ rs \<and>
      numbered ev (use_trading_date (ev_crypto ev) d (en_identifiers en)) q rs"
    and "engine_ready ev (snd (apply_command ev source q command en))"
    and "en_highest_applied_seq_no (snd (apply_command ev source q command en)) = q"
proof -
  have "agrees ev en en" using ready by (simp add: engine_ready_def)
  note A = agrees_command [OF this q ok gz, of source source]
  have "en_highest_applied_seq_no (on_book (book_set_applying q) en) < q" using q by simp
  from dispatch_numbered [OF ready_applying [OF ready] this ok sends date, of source]
  obtain rs where rs: "reports (en_outputs (snd (dispatch_command ev source q command (on_book (book_set_applying q) en)))) = reports (en_outputs en) @ rs"
      "numbered ev (use_trading_date (ev_crypto ev) d (en_identifiers en)) q rs"
      "\<forall>e \<in> ran (book_find (en_book (snd (dispatch_command ev source q command (on_book (book_set_applying q) en))))). identifier_fits (oe_placed_at_seq_no e) 0"
    by auto
  let ?en = "snd (apply_command ev source q command en)"
  have same: "en_outputs ?en = en_outputs (snd (dispatch_command ev source q command (on_book (book_set_applying q) en)))"
      "book_find (en_book ?en) = book_find (en_book (snd (dispatch_command ev source q command (on_book (book_set_applying q) en))))"
    by (simp_all add: apply_command_def and_then_def split: prod.splits option.splits)
  with rs show "\<exists>rs. reports (en_outputs ?en) = reports (en_outputs en) @ rs \<and>
      numbered ev (use_trading_date (ev_crypto ev) d (en_identifiers en)) q rs" by simp
  show "en_highest_applied_seq_no ?en = q" using A by simp
  have "ss_slot_count (ob_store (en_book ?en)) = ss_slot_count (ob_store (en_book en))" using ok by (intro capacity_command q) (simp add: command_ok_def)
  with rs(3) same(2) A ready show "engine_ready ev ?en" by (simp add: engine_ready_def both_def)
qed

text \<open>Every report carries the ExecID of a position and a place of its own, none of them above the highest applied.\<close>

definition exec_ids_ok :: "engine_env \<Rightarrow> report_identifiers \<Rightarrow> engine \<Rightarrow> bool" where
  "exec_ids_ok ev ids en \<longleftrightarrow>
     (\<exists>ps. list_all2 (\<lambda>(s, k) r. exec_id (ev_crypto ev) ids s k = Inr (er_exec_id (fst r))) ps (reports (en_outputs en)) \<and>
        distinct ps \<and> (\<forall>p \<in> set ps. fst p \<le> en_highest_applied_seq_no en))"

lemma exec_ids_ok_step:
  assumes "exec_ids_ok ev ids en" and "reports (en_outputs en') = reports (en_outputs en) @ rs" and "numbered ev ids q rs"
    and "en_highest_applied_seq_no en < q" and "en_highest_applied_seq_no en' = q"
  shows "exec_ids_ok ev ids en'"
proof -
  from assms(1) obtain ps where ps: "list_all2 (\<lambda>(s, k) r. exec_id (ev_crypto ev) ids s k = Inr (er_exec_id (fst r))) ps (reports (en_outputs en))"
      "distinct ps" "\<forall>p \<in> set ps. fst p \<le> en_highest_applied_seq_no en"
    unfolding exec_ids_ok_def by blast
  let ?new = "map (\<lambda>i. (q, int i)) [0..<length rs]"
  have "list_all2 (\<lambda>(s, k) r. exec_id (ev_crypto ev) ids s k = Inr (er_exec_id (fst r))) ?new rs"
    using assms(3) by (auto simp: numbered_def list_all2_conv_all_nth)
  with ps(1) have "list_all2 (\<lambda>(s, k) r. exec_id (ev_crypto ev) ids s k = Inr (er_exec_id (fst r))) (ps @ ?new) (reports (en_outputs en'))"
    unfolding assms(2) by (rule list_all2_appendI)
  moreover have "distinct (ps @ ?new)" using ps(2,3) assms(4) by (auto simp: distinct_map inj_on_def)
  moreover have "\<forall>p \<in> set (ps @ ?new). fst p \<le> en_highest_applied_seq_no en'" using ps(3) assms(4,5) by fastforce
  ultimately show ?thesis unfolding exec_ids_ok_def by blast
qed

lemma distinct_by_position:
  assumes "list_all2 R ps rs" and "distinct ps" and "\<And>p r p' r'. R p r \<Longrightarrow> R p' r' \<Longrightarrow> f r = f r' \<Longrightarrow> p = p'"
  shows "distinct (map f rs)"
  unfolding distinct_conv_nth
proof (intro allI impI)
  fix i j assume ij: "i < length (map f rs)" "j < length (map f rs)" "i \<noteq> j"
  have R: "length ps = length rs" "\<And>n. n < length rs \<Longrightarrow> R (ps ! n) (rs ! n)" using assms(1) by (simp_all add: list_all2_conv_all_nth)
  have "ps ! i \<noteq> ps ! j" using assms(2) ij R(1) by (simp add: nth_eq_iff_index_eq)
  then have "f (rs ! i) \<noteq> f (rs ! j)" using assms(3) [OF R(2) R(2), of i j] ij by auto
  with ij show "map f rs ! i \<noteq> map f rs ! j" by simp
qed

lemma exec_id_fits: "exec_id cr ids s k = Inr x \<Longrightarrow> identifier_fits s k \<and> ri_ciphers ids \<noteq> None"
  by (auto simp: exec_id_def make_identifier_def split: option.splits if_splits)

lemma exec_ids_distinct:
  assumes "exec_ids_ok ev ids en"
  shows "distinct (map (er_exec_id \<circ> fst) (reports (en_outputs en)))"
proof -
  let ?R = "\<lambda>(s, k) r. exec_id (ev_crypto ev) ids s k = Inr (er_exec_id (fst r))"
  from assms obtain ps where ps: "list_all2 ?R ps (reports (en_outputs en))" "distinct ps" unfolding exec_ids_ok_def by blast
  have same: "p = p'" if r: "?R p r" "?R p' r'" and eq: "(er_exec_id \<circ> fst) r = (er_exec_id \<circ> fst) r'"
    for p p' :: "int \<times> int" and r r' :: "execution_report \<times> int \<times> session_identity \<times> report_is_repeat"
  proof -
    obtain s k s' k' where p: "p = (s, k)" "p' = (s', k')" by fastforce
    have x: "exec_id (ev_crypto ev) ids s k = Inr (er_exec_id (fst r))" and x': "exec_id (ev_crypto ev) ids s' k' = Inr (er_exec_id (fst r'))"
      using r by (simp_all add: p)
    from exec_id_inject [of s k s' k' ids "ev_crypto ev"] exec_id_fits [OF x] exec_id_fits [OF x'] x x' eq show ?thesis by (simp add: p)
  qed
  show ?thesis by (rule distinct_by_position [OF ps same])
qed

text \<open>A command that has a trading date leaves the identifiers of that date in use, and no command changes the secret.\<close>

lemma command_identifiers:
  assumes ag: "agrees ev en en" and q: "en_highest_applied_seq_no en < q" and ok: "command_ok ev q command" and gz: "0 < gz_alignment (ev_sizes ev)"
  shows "ri_secret (en_identifiers (snd (apply_command ev source q command en))) = ri_secret (en_identifiers en)"
proof -
  let ?en = "on_book (book_set_applying q) en"
  have ag': "agrees ev ?en ?en" by (rule agrees_applying [OF ag])
  have q': "en_highest_applied_seq_no ?en < q" using q by simp
  have "ri_secret (en_identifiers (snd (dispatch_command ev source q command ?en))) = ri_secret (en_identifiers en)"
  proof (cases command)
    case (New_order_command view t d session)
    with alike_new_order [OF ag' q' ok [unfolded New_order_command] gz, of source source] use_trading_date_same(3) [OF agrees_selfD(2) [OF ag] agrees_selfD(2) [OF ag]] ok
    show ?thesis by (simp add: dispatch_command_def alike_today_def command_ok_def)
  next
    case (Cancel_command view t d session)
    with alike_cancel [OF ag' q' ok [unfolded Cancel_command], of source source] use_trading_date_same(3) [OF agrees_selfD(2) [OF ag] agrees_selfD(2) [OF ag]] ok
    show ?thesis by (simp add: dispatch_command_def alike_today_def command_ok_def)
  next
    case (Cancel_book_command through t d)
    obtain r en' where r: "apply_cancel_book ev through q t d source ?en = (r, en')" by fastforce
    from alike_cancel_book(2) [OF ag' q' ok [unfolded Cancel_book_command] r r] use_trading_date_same(3) [OF agrees_selfD(2) [OF ag] agrees_selfD(2) [OF ag]] ok
    show ?thesis by (cases r) (simp_all add: Cancel_book_command dispatch_command_def alike_today_def command_ok_def r)
  next
    case (Technical_event_command view d)
    then show ?thesis using q by (cases source) (simp_all add: dispatch_command_def apply_technical_event_def passes engine_set_halted_def Let_def)
  next
    case (Void_commands_command view)
    then show ?thesis using q
      by (cases source) (simp_all add: dispatch_command_def apply_void_commands_def passes learn_void_def Let_def split: prod.splits bool.splits)
  qed
  then show ?thesis by (auto simp: apply_command_def and_then_def split: prod.splits option.splits)
qed

lemma run_exec_ids:
  assumes "engine_ready ev en" and "exec_ids_ok ev ids en" and "ids = use_trading_date (ev_crypto ev) d (en_identifiers en)" and "d \<noteq> -1"
    and "positions_above (en_highest_applied_seq_no en) commands" and "\<forall>(q, command) \<in> set commands. command_ok ev q command"
    and "\<forall>(q, command) \<in> set commands. command_date command = None \<or> command_date command = Some d"
    and "length sources = length commands"
    and "0 < gz_alignment (ev_sizes ev)" and "\<not> fl_send (ev_faults ev)" and "\<not> fl_rejection (ev_faults ev)"
  shows "exec_ids_ok ev ids (snd (apply_commands ev (zip sources commands) en))"
  using assms
proof (induction commands arbitrary: en sources)
  case (Cons c commands)
  obtain q command where c: "c = (q, command)" by fastforce
  obtain s ss where s: "sources = s # ss" using Cons.prems(8) by (cases sources) auto
  have q: "en_highest_applied_seq_no en < q" and ok: "command_ok ev q command" and date: "command_date command = None \<or> command_date command = Some d"
    using Cons.prems(5-7) c by auto
  note N = command_numbered [OF Cons.prems(1) q ok Cons.prems(9-11) date, of s]
  obtain e en' where r: "apply_command ev s q command en = (e, en')" by fastforce
  from N(1) obtain rs where "reports (en_outputs en') = reports (en_outputs en) @ rs" "numbered ev ids q rs"
    using r Cons.prems(3) by auto
  then have ids': "exec_ids_ok ev ids en'" using exec_ids_ok_step [OF Cons.prems(2)] q N(3) r by simp
  have ready: "engine_ready ev en'" using N(2) r by simp
  have ag: "agrees ev en en" "agrees ev en' en'" using Cons.prems(1) ready by (simp_all add: engine_ready_def)
  have "ids = use_trading_date (ev_crypto ev) d (en_identifiers en')"
    using use_trading_date_same(1) [OF agrees_selfD(2) [OF ag(1)] agrees_selfD(2) [OF ag(2)] _ Cons.prems(4)]
      command_identifiers [OF ag(1) q ok Cons.prems(9), of s] r Cons.prems(3) by simp
  then have "e = None \<Longrightarrow> exec_ids_ok ev ids (snd (apply_commands ev (zip ss commands) en'))"
    using Cons.IH [OF ready ids' _ Cons.prems(4)] N(3) r Cons.prems s c by simp
  with ids' show ?case by (simp add: s c and_then_def r split: option.split)
qed simp



end
