(* ===== verification/CatchUpTally.thy ===== *)
theory CatchUpTally
  imports Decimals "HOL-Library.Sublist"
begin

text \<open>
  \<open>libraries/pubsub_itc_fw/include/pubsub_itc_fw/CatchUpTally.hpp\<close>: the count that establishes that every record a
  catch-up sent has arrived.
\<close>

record catch_up_tally =
  ct_presented :: int
  ct_last_accepted :: int
  ct_received :: int
  ct_broken :: bool
  ct_broke_after :: int
  ct_broke_at_received :: int

definition new_tally :: "int \<Rightarrow> catch_up_tally" where
  "new_tally position_presented =
     \<lparr>ct_presented = position_presented, ct_last_accepted = position_presented, ct_received = 0, ct_broken = False, ct_broke_after = 0,
      ct_broke_at_received = 0\<rparr>"

definition tally_offer :: "int \<Rightarrow> catch_up_tally \<Rightarrow> bool \<times> catch_up_tally" where
  "tally_offer seq_no t =
     (if seq_no \<le> ct_last_accepted t
      then (False, if ct_broken t then t
                   else t\<lparr>ct_broken := True, ct_broke_after := ct_last_accepted t, ct_broke_at_received := seq_no\<rparr>)
      else (True, t\<lparr>ct_last_accepted := seq_no, ct_received := ct_received t + 1\<rparr>))"

definition complete_with :: "int \<Rightarrow> int \<Rightarrow> catch_up_tally \<Rightarrow> bool" where
  "complete_with records_sent head t \<longleftrightarrow> \<not> ct_broken t \<and> \<not> head < ct_presented t \<and> ct_received t = records_sent"

definition describe_shortfall :: "int \<Rightarrow> int \<Rightarrow> catch_up_tally \<Rightarrow> string" where
  "describe_shortfall records_sent head t =
     (if complete_with records_sent head t then ''''
      else if ct_broken t then
        ''the record stream did not advance: seq_no '' @ signed_decimal (ct_broke_at_received t) @ '' arrived after seq_no '' @
        signed_decimal (ct_broke_after t) @ '', so a record was repeated or the stream went backwards''
      else if head < ct_presented t then
        ''the authority's record ends at seq_no '' @ signed_decimal head @ '', behind the position presented ('' @
        signed_decimal (ct_presented t) @ ''), so this component holds records the authority does not''
      else if ct_received t < records_sent then
        ''the stream stopped early: '' @ signed_decimal records_sent @ '' record(s) were sent and '' @ signed_decimal (ct_received t) @
        '' arrived, so '' @ signed_decimal (records_sent - ct_received t) @ '' never did''
      else ''more records arrived than were sent: '' @ signed_decimal records_sent @ '' were sent and '' @ signed_decimal (ct_received t) @
        '' arrived'')"

abbreviation offer_all :: "int list \<Rightarrow> catch_up_tally \<Rightarrow> catch_up_tally" where
  "offer_all \<equiv> fold (\<lambda>q t. snd (tally_offer q t))"

lemma offer_all_presented [simp]: "ct_presented (offer_all qs t) = ct_presented t"
  by (induction qs arbitrary: t) (simp_all add: tally_offer_def)

lemma offer_all_broken: "ct_broken t \<Longrightarrow> ct_broken (offer_all qs t)"
  by (induction qs arbitrary: t) (simp_all add: tally_offer_def)

lemma offer_all_exact:
  "\<not> ct_broken t \<Longrightarrow>
     ct_broken (offer_all qs t) = (\<not> sorted_wrt (<) (ct_last_accepted t # qs)) \<and>
     (sorted_wrt (<) (ct_last_accepted t # qs) \<longrightarrow> ct_received (offer_all qs t) = ct_received t + int (length qs))"
proof (induction qs arbitrary: t)
  case (Cons q qs)
  show ?case
  proof (cases "q \<le> ct_last_accepted t")
    case True
    then show ?thesis using Cons.prems offer_all_broken [of "snd (tally_offer q t)" qs] by (simp add: tally_offer_def)
  next
    case False
    let ?t = "snd (tally_offer q t)"
    have t: "\<not> ct_broken ?t" "ct_last_accepted ?t = q" "ct_received ?t = ct_received t + 1" using False Cons.prems by (simp_all add: tally_offer_def)
    have "sorted_wrt (<) (ct_last_accepted t # q # qs) \<longleftrightarrow> sorted_wrt (<) (q # qs)" using False by auto
    then show ?thesis using Cons.IH [OF t(1)] t by simp
  qed
qed simp

lemma subseq_sorted:
  assumes "subseq xs ys" and "sorted_wrt P ys"
  shows "set xs \<subseteq> set ys \<and> sorted_wrt P xs"
  using assms by (induction rule: list_emb.induct) auto

lemma describe_shortfall_empty: "describe_shortfall records_sent head t = '''' \<longleftrightarrow> complete_with records_sent head t"
  by (simp add: describe_shortfall_def)



end
