(* ===== verification/EngineCatchUp.thy ===== *)
theory EngineCatchUp
  imports CatchUpTally
begin

text \<open>
  \<open>applications/matching_engine/EngineCatchUp.{hpp,cpp}\<close>: an engine's requests to be caught up from the WAL, and the
  answers. The sequencers' order connections, which the class refers to, are an argument, in the order the set is
  gone through; a connection is a number and none is \<open>None\<close>. What the class asks of its links is the list of events;
  the Quill log is left out.
\<close>

section \<open>Messages\<close>

record wal_follow_request =
  fq_follower_name :: string
  fq_last_seq_no :: int
  fq_wants_new_records :: bool
  fq_request_number :: int
  fq_to_lead :: bool

record wal_follow_started =
  fs_request_number :: int
  fs_after_seq_no :: int
  fs_application_value :: int

record wal_follow_caught_up =
  fu_last_seq_no :: int
  fu_records_sent :: int
  fu_first_seq_no_held :: int
  fu_request_number :: int

datatype catch_up_event =
  Send_follow_request int wal_follow_request
| Start_retry_timer
| Stop_retry_timer
| Request_halt
| Start_halt_timer
| Stop_halt_timer
| Region_rebuilt int

section \<open>State\<close>

record request_context =
  cx_may_ask :: bool
  cx_died_applying :: int
  cx_to_lead :: bool
  cx_highest_applied :: int

datatype catch_up_answer = Other_request | Incomplete_answer | Complete_answer

record engine_catch_up =
  ec_instance_id :: int
  ec_ha_enabled :: bool
  ec_request_number :: int
  ec_request_sent :: bool
  ec_answer_connection :: "int option"
  ec_tally :: catch_up_tally
  ec_attempts :: int
  ec_records_seen :: int
  ec_records_at_last_tick :: int
  ec_reports_sent :: int
  ec_reports_left_out :: int
  ec_reports_in_wal_through :: int
  ec_records_from_earlier_answers :: int
  ec_last_records_sent :: int
  ec_has_position :: bool
  ec_position_found :: int
  ec_next_followed_seq_no :: int
  ec_region_was_unusable :: bool
  ec_halt_awaited :: bool
  ec_events :: "catch_up_event list"

definition new_catch_up :: "int \<Rightarrow> bool \<Rightarrow> engine_catch_up" where
  "new_catch_up instance_id ha_enabled =
     \<lparr>ec_instance_id = instance_id, ec_ha_enabled = ha_enabled, ec_request_number = 0, ec_request_sent = False,
      ec_answer_connection = None, ec_tally = new_tally 0, ec_attempts = 0, ec_records_seen = 0, ec_records_at_last_tick = 0,
      ec_reports_sent = 0, ec_reports_left_out = 0, ec_reports_in_wal_through = 0, ec_records_from_earlier_answers = 0,
      ec_last_records_sent = 0, ec_has_position = False, ec_position_found = 0, ec_next_followed_seq_no = 0,
      ec_region_was_unusable = False, ec_halt_awaited = False, ec_events = []\<rparr>"

definition catch_up_links :: "catch_up_event list \<Rightarrow> engine_catch_up \<Rightarrow> engine_catch_up" where
  "catch_up_links events c = c\<lparr>ec_events := ec_events c @ events\<rparr>"

section \<open>Operations\<close>

definition region_found_unusable :: "engine_catch_up \<Rightarrow> engine_catch_up" where
  "region_found_unusable c = c\<lparr>ec_region_was_unusable := True, ec_has_position := True, ec_position_found := 0\<rparr>"

definition no_region_found :: "engine_catch_up \<Rightarrow> engine_catch_up" where
  "no_region_found c = c\<lparr>ec_has_position := False\<rparr>"

definition region_found_current_to :: "int \<Rightarrow> engine_catch_up \<Rightarrow> engine_catch_up" where
  "region_found_current_to published c = c\<lparr>ec_has_position := True, ec_position_found := published\<rparr>"

definition catch_up_request :: "request_context \<Rightarrow> engine_catch_up \<Rightarrow> wal_follow_request" where
  "catch_up_request context c =
     \<lparr>fq_follower_name = ''matching_engine_'' @ signed_decimal (ec_instance_id c),
      fq_last_seq_no = (if ec_has_position c then max (ec_position_found c) (cx_highest_applied context) else -1),
      fq_wants_new_records = True, fq_request_number = ec_request_number c, fq_to_lead = (cx_to_lead context \<or> \<not> ec_ha_enabled c)\<rparr>"

definition catch_up_send_request :: "int list \<Rightarrow> request_context \<Rightarrow> engine_catch_up \<Rightarrow> bool \<times> engine_catch_up" where
  "catch_up_send_request connections context c =
     (if \<not> cx_may_ask context then (False, c)
      else if connections = [] then (False, c)
      else let c = c\<lparr>ec_request_number := ec_request_number c + 1, ec_answer_connection := None\<rparr>;
               sent = catch_up_request context c;
               c = c\<lparr>ec_next_followed_seq_no := 0, ec_tally := new_tally (fq_last_seq_no sent)\<rparr>;
               c = catch_up_links (map (\<lambda>connection. Send_follow_request connection sent) connections) c
           in (True, c\<lparr>ec_request_sent := True\<rparr>))"

definition catch_up_begin :: "int list \<Rightarrow> request_context \<Rightarrow> engine_catch_up \<Rightarrow> bool \<times> engine_catch_up" where
  "catch_up_begin connections context c =
     (let c = c\<lparr>ec_request_sent := False\<rparr>;
          (sent, c) = (if connections \<noteq> [] then catch_up_send_request connections context c else (False, c));
          c = c\<lparr>ec_attempts := 0, ec_records_seen := 0, ec_records_at_last_tick := 0, ec_reports_sent := 0, ec_reports_left_out := 0,
                ec_reports_in_wal_through := 0, ec_records_from_earlier_answers := 0\<rparr>
      in (sent, catch_up_links [Stop_retry_timer, Start_retry_timer] c))"

definition send_request_on :: "int \<Rightarrow> request_context \<Rightarrow> engine_catch_up \<Rightarrow> engine_catch_up" where
  "send_request_on connection context c = catch_up_links [Send_follow_request connection (catch_up_request context c)] c"

definition from_an_earlier_answer :: "int \<Rightarrow> engine_catch_up \<Rightarrow> bool" where
  "from_an_earlier_answer connection c \<longleftrightarrow> ec_answer_connection c \<noteq> Some connection"

definition ignored_a_record_from_an_earlier_answer :: "engine_catch_up \<Rightarrow> engine_catch_up" where
  "ignored_a_record_from_an_earlier_answer c = c\<lparr>ec_records_from_earlier_answers := ec_records_from_earlier_answers c + 1\<rparr>"

definition record_offered :: "int \<Rightarrow> engine_catch_up \<Rightarrow> engine_catch_up" where
  "record_offered seq_no c = c\<lparr>ec_records_seen := ec_records_seen c + 1, ec_tally := snd (tally_offer seq_no (ec_tally c))\<rparr>"

definition catch_up_started :: "int \<Rightarrow> wal_follow_started \<Rightarrow> bool \<Rightarrow> engine_catch_up \<Rightarrow> bool \<times> engine_catch_up" where
  "catch_up_started connection started catching_up' c =
     (if \<not> catching_up' \<or> fs_request_number started \<noteq> ec_request_number c then (False, c)
      else (True, c\<lparr>ec_answer_connection := Some connection, ec_tally := new_tally (fs_after_seq_no started),
                    ec_reports_in_wal_through := fs_application_value started\<rparr>))"

definition caught_up :: "wal_follow_caught_up \<Rightarrow> engine_catch_up \<Rightarrow> catch_up_answer \<times> engine_catch_up" where
  "caught_up ack c =
     (if fu_request_number ack \<noteq> ec_request_number c then (Other_request, c)
      else if \<not> complete_with (fu_records_sent ack) (fu_last_seq_no ack) (ec_tally c) then (Incomplete_answer, c)
      else (Complete_answer, (catch_up_links [Stop_retry_timer] c)
              \<lparr>ec_position_found := fu_last_seq_no ack, ec_has_position := True, ec_last_records_sent := fu_records_sent ack\<rparr>))"

definition on_retry_tick :: "int list \<Rightarrow> bool \<Rightarrow> request_context \<Rightarrow> engine_catch_up \<Rightarrow> engine_catch_up" where
  "on_retry_tick connections catching_up' context c =
     (if \<not> catching_up' then catch_up_links [Stop_retry_timer] c
      else if \<not> cx_may_ask context then c
      else let c = c\<lparr>ec_attempts := ec_attempts c + 1\<rparr>
        in if connections = [] then c
           else if ec_records_seen c \<noteq> ec_records_at_last_tick c then c\<lparr>ec_records_at_last_tick := ec_records_seen c\<rparr>
           else snd (catch_up_send_request connections context c))"

definition report_sent :: "engine_catch_up \<Rightarrow> engine_catch_up" where
  "report_sent c = c\<lparr>ec_reports_sent := ec_reports_sent c + 1\<rparr>"

definition report_left_out :: "engine_catch_up \<Rightarrow> engine_catch_up" where
  "report_left_out c = c\<lparr>ec_reports_left_out := ec_reports_left_out c + 1\<rparr>"

definition follow_from :: "int \<Rightarrow> engine_catch_up \<Rightarrow> engine_catch_up" where
  "follow_from first c = c\<lparr>ec_next_followed_seq_no := first\<rparr>"

definition stop_following :: "engine_catch_up \<Rightarrow> engine_catch_up" where
  "stop_following c = c\<lparr>ec_next_followed_seq_no := 0\<rparr>"

definition next_followed_record :: "int \<Rightarrow> engine_catch_up \<Rightarrow> bool \<times> engine_catch_up" where
  "next_followed_record seq_no c =
     (if ec_next_followed_seq_no c = 0 then (True, c)
      else if seq_no = ec_next_followed_seq_no c then (True, c\<lparr>ec_next_followed_seq_no := ec_next_followed_seq_no c + 1\<rparr>)
      else (False, c))"

definition account_for_unusable_region :: "wal_follow_caught_up \<Rightarrow> bool \<Rightarrow> engine_catch_up \<Rightarrow> engine_catch_up" where
  "account_for_unusable_region ack to_lead_or_alone c =
     (if fu_first_seq_no_held ack \<le> 1
      then catch_up_links [Region_rebuilt (fu_last_seq_no ack)] (c\<lparr>ec_region_was_unusable := False\<rparr>)
      else if \<not> to_lead_or_alone then c
      else catch_up_links (Request_halt # (if ec_halt_awaited c then [] else [Start_halt_timer])) (c\<lparr>ec_halt_awaited := True\<rparr>))"

definition stop_awaiting_halt :: "engine_catch_up \<Rightarrow> engine_catch_up" where
  "stop_awaiting_halt c = (if \<not> ec_halt_awaited c then c else catch_up_links [Stop_halt_timer] (c\<lparr>ec_halt_awaited := False\<rparr>))"

definition on_halt_tick :: "bool \<Rightarrow> engine_catch_up \<Rightarrow> engine_catch_up" where
  "on_halt_tick halted c = (if ec_halt_awaited c \<and> \<not> halted then catch_up_links [Request_halt] c else c)"

end
