(* ===== verification/PeerSettings.thy ===== *)
theory PeerSettings
  imports PairLeaseAgent
begin

text \<open>
  \<open>applications/matching_engine/PeerSettingsCheck.{hpp,cpp}\<close>: the settings the two engines of a pair must share, and
  the peer barred from leading while they differ. Whether this instance leads and what it says of its peer are read
  from its lease agent, and what it is made to say is said through the agent, as \<open>MatchingEngineThread::SettingsLinks\<close>
  has it.
\<close>

section \<open>The check\<close>

record settings_differ_event =
  sd_own_capacity :: int
  sd_peer_capacity :: int
  sd_barred_peer :: bool
  sd_secrets_differ :: bool

record peer_settings_check =
  ps_own_capacity :: int
  ps_own_fingerprint :: int
  ps_known :: bool
  ps_peer_capacity :: int
  ps_peer_fingerprint :: int
  ps_differ :: bool
  ps_events :: "settings_differ_event list"

definition new_settings_check :: "int \<Rightarrow> int \<Rightarrow> peer_settings_check" where
  "new_settings_check own_capacity own_fingerprint =
     \<lparr>ps_own_capacity = own_capacity, ps_own_fingerprint = own_fingerprint, ps_known = False, ps_peer_capacity = 0,
      ps_peer_fingerprint = 0, ps_differ = False, ps_events = []\<rparr>"

text \<open>An engine with high availability off has no lease agent, and never leads by one.\<close>

definition agent_leading :: "pair_lease_agent \<Rightarrow> bool" where
  "agent_leading a \<longleftrightarrow> lh_state (lp_holder (pa_participant a)) = Leading"

definition links_leading :: "pair_lease_agent option \<Rightarrow> bool" where
  "links_leading agent = (case agent of None \<Rightarrow> False | Some a \<Rightarrow> agent_leading a)"

definition links_says_peer_may_lead :: "pair_lease_agent option \<Rightarrow> bool" where
  "links_says_peer_may_lead agent = (case agent of None \<Rightarrow> False | Some a \<Rightarrow> says_peer_may_lead a)"

definition report_differ :: "pair_lease_agent option \<Rightarrow> peer_settings_check \<Rightarrow> peer_settings_check" where
  "report_differ agent c =
     c\<lparr>ps_events := ps_events c @
        [\<lparr>sd_own_capacity = ps_own_capacity c, sd_peer_capacity = ps_peer_capacity c,
          sd_barred_peer = (links_leading agent \<and> \<not> links_says_peer_may_lead agent),
          sd_secrets_differ = (ps_peer_fingerprint c \<noteq> ps_own_fingerprint c)\<rparr>]\<rparr>"

text \<open>Whether it has just barred the peer, and the lease requests that say so.\<close>

definition bar_peer_if_settings_differ ::
  "time_point \<Rightarrow> pair_lease_agent option \<Rightarrow> peer_settings_check \<Rightarrow>
   (bool \<times> lease_send list \<times> pair_lease_agent option \<times> peer_settings_check) result" where
  "bar_peer_if_settings_differ now agent c =
     (case agent of
        None \<Rightarrow> Inr (False, [], agent, c)
      | Some a \<Rightarrow>
          if \<not> agent_leading a \<or> \<not> ps_known c then Inr (False, [], agent, c)
          else if ps_differ c \<noteq> says_peer_may_lead a then Inr (False, [], agent, c)
          else if ps_differ c
          then bind_result (agent_say_peer_may_not_lead a now) (\<lambda>(sends, a). Inr (True, sends, Some a, report_differ (Some a) c))
          else bind_result (agent_say_peer_may_lead a now) (\<lambda>(sends, a). Inr (False, sends, Some a, c)))"

definition peer_settings_arrived ::
  "time_point \<Rightarrow> int \<Rightarrow> int \<Rightarrow> pair_lease_agent option \<Rightarrow> peer_settings_check \<Rightarrow>
   (lease_send list \<times> pair_lease_agent option \<times> peer_settings_check) result" where
  "peer_settings_arrived now region_capacity secret_fingerprint agent c =
     (let c = c\<lparr>ps_known := True, ps_peer_capacity := region_capacity, ps_peer_fingerprint := secret_fingerprint,
                ps_differ := (region_capacity \<noteq> ps_own_capacity c \<or> secret_fingerprint \<noteq> ps_own_fingerprint c)\<rparr>
      in bind_result (bar_peer_if_settings_differ now agent c)
           (\<lambda>(barred, sends, agent, c). Inr (sends, agent, if \<not> barred \<and> ps_differ c then report_differ agent c else c)))"

definition report_present_state :: "pair_lease_agent option \<Rightarrow> peer_settings_check \<Rightarrow> peer_settings_check" where
  "report_present_state agent c = (if ps_known c \<and> ps_differ c then report_differ agent c else c)"

section \<open>What the leader says of its peer\<close>

definition settings_alike :: "peer_settings_check \<Rightarrow> bool" where
  "settings_alike c \<longleftrightarrow> ps_peer_capacity c = ps_own_capacity c \<and> ps_peer_fingerprint c = ps_own_fingerprint c"

end
