(* ===== verification/ReportSending.thy ===== *)
theory ReportSending
  imports OrderBook
begin

text \<open>
  \<open>applications/matching_engine/EngineReportSending.{hpp,cpp}\<close> and \<open>HeldEngineReport.hpp\<close>: the reports an engine sends to
  the two sequencers, numbered, or holds until it can. A connection that is not up is \<open>None\<close>. What the class asks of
  its links is the list of events, in order; the Quill log is left out.
\<close>

section \<open>Reports\<close>

record engine_report =
  rp_bytes :: "nat list"
  rp_seq_no :: int
  rp_session :: session_identity
  rp_poss_resend :: bool
  rp_gateway_ingress_ns :: "int option"

record held_engine_report =
  hr_payload :: "nat list"
  hr_seq_no :: int
  hr_session :: session_identity
  hr_poss_resend :: bool
  hr_numbered :: bool
  hr_report_engine_epoch :: int
  hr_report_number :: int
  hr_sent_to_primary :: bool
  hr_sent_to_secondary :: bool
  hr_compared :: bool

text \<open>The fields of the record a report is sent in. A session that names nobody is left out of it.\<close>

record report_envelope =
  ve_seq_no :: int
  ve_payload :: "nat list"
  ve_session :: "session_identity option"
  ve_poss_resend :: bool
  ve_gateway_ingress_ns :: "int option"
  ve_report_engine_epoch :: int
  ve_report_number :: int

datatype sequencer = Primary_sequencer | Secondary_sequencer

datatype release_reason = NowServes | ConnectionMade

datatype sending_event =
  Report_sent sequencer int int report_envelope
| Reports_held int
| Reports_released release_reason int
| Reports_discarded int

definition max_held_reports :: nat where
  "max_held_reports = 50000"

record report_sending =
  es_secondary_expected :: bool
  es_primary :: "int option"
  es_secondary :: "int option"
  es_held :: "held_engine_report list"
  es_overflowed_until_entitled :: bool
  es_overflowed_without_connection :: bool
  es_waiting_for_connection :: bool
  es_report_number :: int
  es_report_number_epoch :: int
  es_events :: "sending_event list"

definition new_sending :: "bool \<Rightarrow> report_sending" where
  "new_sending secondary_expected =
     \<lparr>es_secondary_expected = secondary_expected, es_primary = None, es_secondary = None, es_held = [],
      es_overflowed_until_entitled = False, es_overflowed_without_connection = False, es_waiting_for_connection = False,
      es_report_number = 0, es_report_number_epoch = 0, es_events = []\<rparr>"

section \<open>Operations\<close>

definition connection_established :: "sequencer \<Rightarrow> int \<Rightarrow> report_sending \<Rightarrow> report_sending" where
  "connection_established sequencer connection st =
     (if sequencer = Primary_sequencer then st\<lparr>es_primary := Some connection\<rparr> else st\<lparr>es_secondary := Some connection\<rparr>)"

definition connection_lost :: "sequencer \<Rightarrow> report_sending \<Rightarrow> report_sending" where
  "connection_lost sequencer st = (if sequencer = Primary_sequencer then st\<lparr>es_primary := None\<rparr> else st\<lparr>es_secondary := None\<rparr>)"

definition held_report_of :: "engine_report \<Rightarrow> held_engine_report" where
  "held_report_of report =
     \<lparr>hr_payload = rp_bytes report, hr_seq_no = rp_seq_no report, hr_session = rp_session report, hr_poss_resend = rp_poss_resend report,
      hr_numbered = False, hr_report_engine_epoch = 0, hr_report_number = 0, hr_sent_to_primary = False, hr_sent_to_secondary = False,
      hr_compared = False\<rparr>"

definition report_link_event :: "sending_event \<Rightarrow> report_sending \<Rightarrow> report_sending" where
  "report_link_event event st = st\<lparr>es_events := es_events st @ [event]\<rparr>"

definition named_session :: "session_identity \<Rightarrow> session_identity option" where
  "named_session session = (if si_comp_id session = [] then None else Some session)"

text \<open>The number a report is given, and the count it leaves.\<close>

definition number_report :: "int \<Rightarrow> report_sending \<Rightarrow> int \<times> report_sending" where
  "number_report epoch st =
     (let number = (if es_report_number_epoch st \<noteq> epoch then 0 else es_report_number st) + 1
      in (number, st\<lparr>es_report_number_epoch := epoch, es_report_number := number\<rparr>))"

definition send_on :: "sequencer \<Rightarrow> int option \<Rightarrow> int \<Rightarrow> report_envelope \<Rightarrow> report_sending \<Rightarrow> report_sending" where
  "send_on sequencer connection seq_no envelope st =
     (case connection of None \<Rightarrow> st | Some c \<Rightarrow> report_link_event (Report_sent sequencer c seq_no envelope) st)"

definition sending_send :: "engine_report \<Rightarrow> int \<Rightarrow> bool \<Rightarrow> report_sending \<Rightarrow> bool \<times> report_sending" where
  "sending_send report epoch holding_until_entitled st =
     (if holding_until_entitled \<and> length (es_held st) < max_held_reports
      then (False, st\<lparr>es_held := es_held st @ [held_report_of report]\<rparr>)
      else
        let st = (if holding_until_entitled then st\<lparr>es_overflowed_until_entitled := True\<rparr> else st)
        in if es_primary st = None \<and> es_secondary st = None then
             let st = (if es_waiting_for_connection st then st
                       else report_link_event (Reports_held (int (length (es_held st)) + 1)) (st\<lparr>es_waiting_for_connection := True\<rparr>))
             in (False, if length (es_held st) < max_held_reports then st\<lparr>es_held := es_held st @ [held_report_of report]\<rparr>
                        else st\<lparr>es_overflowed_without_connection := True\<rparr>)
           else
             let (number, st) = number_report epoch st;
                 envelope = \<lparr>ve_seq_no = rp_seq_no report, ve_payload = rp_bytes report, ve_session = named_session (rp_session report),
                             ve_poss_resend = rp_poss_resend report, ve_gateway_ingress_ns = rp_gateway_ingress_ns report,
                             ve_report_engine_epoch = epoch, ve_report_number = number\<rparr>
             in (True, send_on Secondary_sequencer (es_secondary st) (rp_seq_no report) envelope
                         (send_on Primary_sequencer (es_primary st) (rp_seq_no report) envelope st)))"

definition held_envelope :: "held_engine_report \<Rightarrow> report_envelope" where
  "held_envelope h =
     \<lparr>ve_seq_no = hr_seq_no h, ve_payload = hr_payload h, ve_session = named_session (hr_session h), ve_poss_resend = hr_poss_resend h,
      ve_gateway_ingress_ns = None, ve_report_engine_epoch = hr_report_engine_epoch h, ve_report_number = hr_report_number h\<rparr>"

text \<open>One turn of the loop of \<open>send_held\<close>: the report is numbered if it was not, and sent where it has not been.\<close>

definition number_held :: "int \<Rightarrow> held_engine_report \<Rightarrow> report_sending \<Rightarrow> held_engine_report \<times> report_sending" where
  "number_held epoch h st =
     (if hr_numbered h then (h, st)
      else let (number, st) = number_report epoch st
           in (h\<lparr>hr_numbered := True, hr_report_engine_epoch := epoch, hr_report_number := number\<rparr>, st))"

definition send_held_one :: "bool \<Rightarrow> bool \<Rightarrow> int \<Rightarrow> held_engine_report \<Rightarrow> report_sending \<Rightarrow> held_engine_report \<times> report_sending" where
  "send_held_one to_primary to_secondary epoch h st =
     (let (h, st) = number_held epoch h st;
          (h, st) = (if to_primary \<and> \<not> hr_sent_to_primary h
                     then (h\<lparr>hr_sent_to_primary := True\<rparr>, send_on Primary_sequencer (es_primary st) (hr_seq_no h) (held_envelope h) st)
                     else (h, st))
      in if to_secondary \<and> \<not> hr_sent_to_secondary h
         then (h\<lparr>hr_sent_to_secondary := True\<rparr>, send_on Secondary_sequencer (es_secondary st) (hr_seq_no h) (held_envelope h) st)
         else (h, st))"

fun send_held_loop :: "bool \<Rightarrow> bool \<Rightarrow> int \<Rightarrow> held_engine_report list \<Rightarrow> report_sending \<Rightarrow> held_engine_report list \<times> report_sending" where
  "send_held_loop to_primary to_secondary epoch [] st = ([], st)"
| "send_held_loop to_primary to_secondary epoch (h # hs) st =
     (let (h, st) = send_held_one to_primary to_secondary epoch h st;
          (hs, st) = send_held_loop to_primary to_secondary epoch hs st
      in (h # hs, st))"

definition clear_overflows :: "report_sending \<Rightarrow> report_sending" where
  "clear_overflows st =
     st\<lparr>es_overflowed_until_entitled := False, es_overflowed_without_connection := False, es_waiting_for_connection := False\<rparr>"

definition send_held :: "bool \<Rightarrow> bool \<Rightarrow> int \<Rightarrow> report_sending \<Rightarrow> report_sending" where
  "send_held to_primary to_secondary epoch st =
     (let (hs, st) = send_held_loop to_primary to_secondary epoch (es_held st) st;
          hs = filter (\<lambda>h. \<not> (hr_sent_to_primary h \<and> (hr_sent_to_secondary h \<or> \<not> es_secondary_expected st))) hs;
          st = st\<lparr>es_held := hs\<rparr>
      in if hs = [] then clear_overflows st else st)"

definition connected :: "report_sending \<Rightarrow> bool" where
  "connected st \<longleftrightarrow> es_primary st \<noteq> None \<or> es_secondary st \<noteq> None"

definition release_now_serving :: "int \<Rightarrow> report_sending \<Rightarrow> report_sending" where
  "release_now_serving epoch st =
     (if es_held st = [] then clear_overflows st
      else if \<not> connected st then st
      else send_held (es_primary st \<noteq> None) (es_secondary st \<noteq> None) epoch
             (report_link_event (Reports_released NowServes (int (length (es_held st)))) st))"

definition release_for_connection :: "int \<Rightarrow> bool \<Rightarrow> report_sending \<Rightarrow> report_sending" where
  "release_for_connection epoch holding_until_entitled st =
     (if es_held st = [] \<or> holding_until_entitled then st
      else send_held (es_primary st \<noteq> None) (es_secondary st \<noteq> None) epoch
             (report_link_event (Reports_released ConnectionMade (int (length (es_held st)))) st))"

definition sending_discard :: "report_sending \<Rightarrow> report_sending" where
  "sending_discard st =
     (if es_held st = [] then st\<lparr>es_overflowed_until_entitled := False, es_overflowed_without_connection := False\<rparr>
      else (report_link_event (Reports_discarded (int (length (es_held st)))) st)
             \<lparr>es_held := [], es_overflowed_until_entitled := False, es_overflowed_without_connection := False\<rparr>)"

definition sending_hold :: "held_engine_report \<Rightarrow> report_sending \<Rightarrow> report_sending" where
  "sending_hold report st = st\<lparr>es_held := es_held st @ [report]\<rparr>"

definition send_held_on_the_connections_up :: "int \<Rightarrow> report_sending \<Rightarrow> report_sending" where
  "send_held_on_the_connections_up epoch st =
     (if es_held st \<noteq> [] \<and> connected st then send_held (es_primary st \<noteq> None) (es_secondary st \<noteq> None) epoch st else st)"

section \<open>Numbers\<close>

text \<open>What has been sent, and to which of the two sequencers.\<close>

fun sent_in :: "sending_event \<Rightarrow> (sequencer \<times> report_envelope) list" where
  "sent_in (Report_sent sequencer connection seq_no envelope) = [(sequencer, envelope)]"
| "sent_in event = []"

definition sent :: "report_sending \<Rightarrow> (sequencer \<times> report_envelope) list" where
  "sent st = concat (map sent_in (es_events st))"

abbreviation report_key :: "report_envelope \<Rightarrow> int \<times> int" where
  "report_key v \<equiv> (ve_report_engine_epoch v, ve_report_number v)"

abbreviation held_key :: "held_engine_report \<Rightarrow> int \<times> int" where
  "held_key h \<equiv> (hr_report_engine_epoch h, hr_report_number h)"

fun sent_to :: "sequencer \<Rightarrow> held_engine_report \<Rightarrow> bool" where
  "sent_to Primary_sequencer h = hr_sent_to_primary h"
| "sent_to Secondary_sequencer h = hr_sent_to_secondary h"

fun mark_sent :: "sequencer \<Rightarrow> held_engine_report \<Rightarrow> held_engine_report" where
  "mark_sent Primary_sequencer h = h\<lparr>hr_sent_to_primary := True\<rparr>"
| "mark_sent Secondary_sequencer h = h\<lparr>hr_sent_to_secondary := True\<rparr>"

lemma mark_sent_simps [simp]:
  "held_envelope (mark_sent s h) = held_envelope h" "hr_report_engine_epoch (mark_sent s h) = hr_report_engine_epoch h"
  "hr_report_number (mark_sent s h) = hr_report_number h" "hr_numbered (mark_sent s h) = hr_numbered h"
  "sent_to s' (mark_sent s h) \<longleftrightarrow> s' = s \<or> sent_to s' h" "hr_seq_no (mark_sent s h) = hr_seq_no h"
  by (cases s; cases s'; simp add: held_envelope_def)+

lemma held_envelope_key [simp]: "ve_report_engine_epoch (held_envelope h) = hr_report_engine_epoch h" "ve_report_number (held_envelope h) = hr_report_number h"
  by (simp_all add: held_envelope_def)

text \<open>A number that has been given out: one of an earlier epoch, or one the count of the present epoch has reached.\<close>

definition given :: "report_sending \<Rightarrow> int \<times> int \<Rightarrow> bool" where
  "given st k \<longleftrightarrow> fst k < es_report_number_epoch st \<or> fst k = es_report_number_epoch st \<and> snd k \<le> es_report_number st"

text \<open>
  The invariant, over the reports \<open>hs\<close> that are held: every number used was given out, no two held reports share
  one, nothing has gone twice to the same sequencer under one number, what went under a number is one report, and a
  held report that has gone to a sequencer says so.
\<close>

definition sending_ok :: "report_sending \<Rightarrow> held_engine_report list \<Rightarrow> bool" where
  "sending_ok st hs \<longleftrightarrow>
     (\<forall>(s, v) \<in> set (sent st). given st (report_key v)) \<and>
     (\<forall>h \<in> set hs. if hr_numbered h then given st (held_key h) else \<forall>s. \<not> sent_to s h) \<and>
     distinct (map held_key (filter hr_numbered hs)) \<and>
     distinct (map (\<lambda>(s, v). (s, report_key v)) (sent st)) \<and>
     (\<forall>(s, v) \<in> set (sent st). \<forall>(s', v') \<in> set (sent st). report_key v = report_key v' \<longrightarrow> v = v') \<and>
     (\<forall>h \<in> set hs. hr_numbered h \<longrightarrow> (\<forall>(s, v) \<in> set (sent st). report_key v = held_key h \<longrightarrow> v = held_envelope h \<and> sent_to s h))"

lemma sending_okD:
  assumes "sending_ok st hs"
  shows "\<And>s v. (s, v) \<in> set (sent st) \<Longrightarrow> given st (report_key v)"
    and "\<And>h. h \<in> set hs \<Longrightarrow> hr_numbered h \<Longrightarrow> given st (held_key h)"
    and "\<And>h s. h \<in> set hs \<Longrightarrow> \<not> hr_numbered h \<Longrightarrow> \<not> sent_to s h"
    and "distinct (map held_key (filter hr_numbered hs))" and "distinct (map (\<lambda>(s, v). (s, report_key v)) (sent st))"
    and "\<And>s v s' v'. (s, v) \<in> set (sent st) \<Longrightarrow> (s', v') \<in> set (sent st) \<Longrightarrow> report_key v = report_key v' \<Longrightarrow> v = v'"
    and "\<And>h s v. h \<in> set hs \<Longrightarrow> hr_numbered h \<Longrightarrow> (s, v) \<in> set (sent st) \<Longrightarrow> report_key v = held_key h \<Longrightarrow> v = held_envelope h \<and> sent_to s h"
  using assms unfolding sending_ok_def by (auto split: if_splits)

lemma sending_okI:
  assumes "\<And>s v. (s, v) \<in> set (sent st) \<Longrightarrow> given st (report_key v)"
    and "\<And>h. h \<in> set hs \<Longrightarrow> hr_numbered h \<Longrightarrow> given st (held_key h)"
    and "\<And>h s. h \<in> set hs \<Longrightarrow> \<not> hr_numbered h \<Longrightarrow> \<not> sent_to s h"
    and "distinct (map held_key (filter hr_numbered hs))" and "distinct (map (\<lambda>(s, v). (s, report_key v)) (sent st))"
    and "\<And>s v s' v'. (s, v) \<in> set (sent st) \<Longrightarrow> (s', v') \<in> set (sent st) \<Longrightarrow> report_key v = report_key v' \<Longrightarrow> v = v'"
    and "\<And>h s v. h \<in> set hs \<Longrightarrow> hr_numbered h \<Longrightarrow> (s, v) \<in> set (sent st) \<Longrightarrow> report_key v = held_key h \<Longrightarrow> v = held_envelope h \<and> sent_to s h"
  shows "sending_ok st hs"
  unfolding sending_ok_def using assms by auto

lemma number_report_fresh:
  assumes "number_report epoch st = (number, st')" and "es_report_number_epoch st \<le> epoch"
  shows "given st' (epoch, number)" and "\<not> given st (epoch, number)" and "\<And>k. given st k \<Longrightarrow> given st' k" and "sent st' = sent st"
    and "es_report_number_epoch st' = epoch"
    and "es_primary st' = es_primary st" and "es_secondary st' = es_secondary st" and "es_held st' = es_held st"
    and "es_secondary_expected st' = es_secondary_expected st"
  using assms by (auto simp: number_report_def given_def sent_def Let_def split: if_splits)

lemma send_on_simps [simp]:
  "sent (send_on s (Some c) q v st) = sent st @ [(s, v)]" "sent (send_on s None q v st) = sent st"
  "given (send_on s c' q v st) k = given st k" "es_report_number_epoch (send_on s c' q v st) = es_report_number_epoch st"
  "es_primary (send_on s c' q v st) = es_primary st" "es_secondary (send_on s c' q v st) = es_secondary st"
  "es_held (send_on s c' q v st) = es_held st" "es_secondary_expected (send_on s c' q v st) = es_secondary_expected st"
  by (simp_all add: send_on_def report_link_event_def sent_def given_def split: option.split)

text \<open>The invariant does not look at the rest of the state.\<close>

lemma sending_ok_frame:
  assumes "sending_ok st hs" and "sent st' = sent st" and "es_report_number st' = es_report_number st"
    and "es_report_number_epoch st' = es_report_number_epoch st"
  shows "sending_ok st' hs"
proof -
  have "given st' = given st" using assms(3,4) by (simp add: given_def fun_eq_iff)
  with assms(1,2) show ?thesis by (simp add: sending_ok_def)
qed

lemma sending_ok_subset:
  assumes "sending_ok st hs"
  shows "sending_ok st (filter P hs)"
proof (rule sending_okI)
  note D = sending_okD [OF assms]
  have "filter hr_numbered (filter P hs) = filter P (filter hr_numbered hs)" by (simp add: conj_commute)
  then show "distinct (map held_key (filter hr_numbered (filter P hs)))" using D(4) by (metis distinct_map_filter)
qed (use sending_okD [OF assms] in auto)

text \<open>A report that is held and has no number yet.\<close>

lemma sending_ok_hold:
  assumes "sending_ok st hs" and "\<not> hr_numbered h" and "\<And>s. \<not> sent_to s h"
  shows "sending_ok st (hs @ [h])"
  by (rule sending_okI) (use sending_okD [OF assms(1)] assms(2,3) in auto)

lemma sending_ok_number:
  assumes ok: "sending_ok st (xs @ h # ys)" and h: "\<not> hr_numbered h" and r: "number_report epoch st = (number, st')"
    and e: "es_report_number_epoch st \<le> epoch"
  shows "sending_ok st' (xs @ h\<lparr>hr_numbered := True, hr_report_engine_epoch := epoch, hr_report_number := number\<rparr> # ys)"
proof -
  let ?h = "h\<lparr>hr_numbered := True, hr_report_engine_epoch := epoch, hr_report_number := number\<rparr>"
  note D = sending_okD [OF ok] and F = number_report_fresh [OF r e]
  have new: "held_key x \<noteq> (epoch, number)" if "x \<in> set (xs @ ys)" "hr_numbered x" for x
    using D(2) [of x] that F(2) by (metis Un_iff insert_iff list.set(2) set_append)
  have unsent: "report_key v \<noteq> (epoch, number)" if "(s, v) \<in> set (sent st)" for s v using D(1) [OF that] F(2) by metis
  show ?thesis
  proof (rule sending_okI)
    show "distinct (map held_key (filter hr_numbered (xs @ ?h # ys)))" using D(4) h new by auto
    show "given st' (held_key x)" if "x \<in> set (xs @ ?h # ys)" "hr_numbered x" for x
      using that F(1,3) D(2) [of x] by auto
    show "v = held_envelope x \<and> sent_to s x" if "x \<in> set (xs @ ?h # ys)" "hr_numbered x" "(s, v) \<in> set (sent st')" "report_key v = held_key x" for x s v
      using that D(7) [of x s v] unsent [of s v] by (auto simp: F(4))
    show "\<not> sent_to s x" if "x \<in> set (xs @ ?h # ys)" "\<not> hr_numbered x" for x s using that D(3) [of x s] by auto
  qed (use D F in auto)
qed

lemma sending_ok_send:
  assumes ok: "sending_ok st (xs @ h # ys)" and h: "hr_numbered h" and unsent: "\<not> sent_to s h"
  shows "sending_ok (send_on s c q (held_envelope h) st) (xs @ mark_sent s h # ys)"
proof -
  note D = sending_okD [OF ok]
  let ?st = "send_on s c q (held_envelope h) st"
  have nin: "held_key h \<notin> held_key ` set (filter hr_numbered (xs @ ys))" using D(4) h by auto
  have key: "held_key x \<noteq> held_key h" if "x \<in> set (xs @ ys)" "hr_numbered x" for x
  proof -
    have "x \<in> set (filter hr_numbered (xs @ ys))" using that by simp
    from imageI [OF this, of held_key] nin show ?thesis by metis
  qed
  have here: "v = held_envelope h \<and> s' \<noteq> s" if "(s', v) \<in> set (sent st)" "report_key v = held_key h" for s' v
    using D(7) [of h s' v] that h unsent by auto
  have sent': "set (sent ?st) \<subseteq> insert (s, held_envelope h) (set (sent st))" by (cases c) auto
  have one: "x = held_envelope h" if "(r, x) \<in> set (sent ?st)" "report_key x = held_key h" for r x
    using subsetD [OF sent' that(1)] here [of r x] that(2) by blast
  have member: "x = mark_sent s h \<or> x \<in> set (xs @ ys)" if "x \<in> set (xs @ mark_sent s h # ys)" for x using that by auto
  show ?thesis
  proof (rule sending_okI)
    show "distinct (map held_key (filter hr_numbered (xs @ mark_sent s h # ys)))" using D(4) h by simp
    show "distinct (map (\<lambda>(s, v). (s, report_key v)) (sent ?st))" using D(5) by (cases c) (auto dest: here)
    show "v = v'" if "(t, v) \<in> set (sent ?st)" "(t', v') \<in> set (sent ?st)" "report_key v = report_key v'" for t v t' v'
    proof (cases "report_key v = held_key h")
      case True
      then have "v = held_envelope h" "v' = held_envelope h" using one that by metis+
      then show ?thesis by simp
    next
      case False
      then have "(t, v) \<noteq> (s, held_envelope h)" "(t', v') \<noteq> (s, held_envelope h)" using that(3) by auto
      then show ?thesis using D(6) sent' that by blast
    qed
    show "given ?st (report_key v)" if "(t, v) \<in> set (sent ?st)" for t v
      using subsetD [OF sent' that] D(1) [of t v] D(2) [of h] h by auto
    show "given ?st (held_key x)" if "x \<in> set (xs @ mark_sent s h # ys)" "hr_numbered x" for x
      using member [OF that(1)] that(2) D(2) [of x] D(2) [of h] h by auto
    show "\<not> sent_to t x" if "x \<in> set (xs @ mark_sent s h # ys)" "\<not> hr_numbered x" for x t
      using member [OF that(1)] that(2) D(3) [of x t] h by auto
    show "v = held_envelope x \<and> sent_to t x" if "x \<in> set (xs @ mark_sent s h # ys)" "hr_numbered x" "(t, v) \<in> set (sent ?st)" "report_key v = held_key x" for x t v
      using member [OF that(1)] subsetD [OF sent' that(3)] that(2,4) D(7) [of x t v] D(7) [of h t v] key [of x] h by auto
  qed
qed

text \<open>The turns of the loop, each over the reports that have had theirs and those that have not.\<close>

lemma send_held_one_ok:
  assumes "sending_ok st (xs @ h # ys)" and "es_report_number_epoch st \<le> epoch"
    and "send_held_one to_primary to_secondary epoch h st = (h', st')"
  shows "sending_ok st' (xs @ h' # ys)" and "es_report_number_epoch st' \<le> epoch"
    and "es_held st' = es_held st" and "es_secondary_expected st' = es_secondary_expected st"
proof -
  obtain h1 st1 where n: "number_held epoch h st = (h1, st1)" by fastforce
  have 1: "sending_ok st1 (xs @ h1 # ys) \<and> es_report_number_epoch st1 \<le> epoch \<and> hr_numbered h1 \<and>
    es_held st1 = es_held st \<and> es_secondary_expected st1 = es_secondary_expected st"
  proof (cases "hr_numbered h")
    case True
    with n assms(1,2) show ?thesis by (simp add: number_held_def)
  next
    case False
    obtain number st0 where r: "number_report epoch st = (number, st0)" by fastforce
    from False n r have "h1 = h\<lparr>hr_numbered := True, hr_report_engine_epoch := epoch, hr_report_number := number\<rparr>" "st1 = st0"
      by (simp_all add: number_held_def)
    with sending_ok_number [OF assms(1) False r assms(2)] number_report_fresh [OF r assms(2)] show ?thesis by simp
  qed
  note 1 = conjunct1 [OF 1] conjunct1 [OF conjunct2 [OF 1]] conjunct1 [OF conjunct2 [OF conjunct2 [OF 1]]] conjunct2 [OF conjunct2 [OF conjunct2 [OF 1]]]
  define p where "p = (to_primary \<and> \<not> sent_to Primary_sequencer h1)"
  define h2 where "h2 = (if p then mark_sent Primary_sequencer h1 else h1)"
  define st2 where "st2 = (if p then send_on Primary_sequencer (es_primary st1) (hr_seq_no h1) (held_envelope h1) st1 else st1)"
  have 2: "sending_ok st2 (xs @ h2 # ys)" "es_report_number_epoch st2 \<le> epoch" "hr_numbered h2"
      "es_held st2 = es_held st" "es_secondary_expected st2 = es_secondary_expected st"
    using 1 sending_ok_send [OF 1(1,3), of Primary_sequencer] by (simp_all add: h2_def st2_def p_def)
  define q where "q = (to_secondary \<and> \<not> sent_to Secondary_sequencer h2)"
  have h': "h' = (if q then mark_sent Secondary_sequencer h2 else h2)"
      "st' = (if q then send_on Secondary_sequencer (es_secondary st2) (hr_seq_no h2) (held_envelope h2) st2 else st2)"
    using assms(3) by (auto simp: send_held_one_def n q_def h2_def st2_def p_def Let_def split: if_splits)
  show "sending_ok st' (xs @ h' # ys)" "es_report_number_epoch st' \<le> epoch" "es_held st' = es_held st"
      "es_secondary_expected st' = es_secondary_expected st"
    using 2 sending_ok_send [OF 2(1,3), of Secondary_sequencer] by (simp_all add: h' q_def)
qed

lemma send_held_loop_ok:
  assumes "sending_ok st (xs @ hs)" and "es_report_number_epoch st \<le> epoch"
    and "send_held_loop to_primary to_secondary epoch hs st = (hs', st')"
  shows "sending_ok st' (xs @ hs') \<and> es_report_number_epoch st' \<le> epoch"
  using assms
proof (induction hs arbitrary: xs st hs' st')
  case (Cons h hs)
  obtain h1 st1 where 1: "send_held_one to_primary to_secondary epoch h st = (h1, st1)" by fastforce
  obtain hs2 st2 where 2: "send_held_loop to_primary to_secondary epoch hs st1 = (hs2, st2)" by fastforce
  have r: "hs' = h1 # hs2" "st' = st2" using Cons.prems(3) by (simp_all add: 1 2)
  note O = send_held_one_ok [OF Cons.prems(1,2) 1]
  have "sending_ok st2 ((xs @ [h1]) @ hs2) \<and> es_report_number_epoch st2 \<le> epoch"
    by (rule Cons.IH [OF _ O(2) 2]) (use O(1) in simp)
  then show ?case by (simp add: r)
qed simp

lemma send_held_ok:
  assumes "sending_ok st (es_held st)" and "es_report_number_epoch st \<le> epoch"
  shows "sending_ok (send_held p q epoch st) (es_held (send_held p q epoch st))" and "es_report_number_epoch (send_held p q epoch st) \<le> epoch"
proof -
  obtain hs st' where r: "send_held_loop p q epoch (es_held st) st = (hs, st')" by fastforce
  let ?keep = "\<lambda>h. \<not> (hr_sent_to_primary h \<and> (hr_sent_to_secondary h \<or> \<not> es_secondary_expected st'))"
  from send_held_loop_ok [of st "[]" "es_held st" epoch p q hs st'] assms r
  have ok: "sending_ok st' hs" and e: "es_report_number_epoch st' \<le> epoch" by simp_all
  have kept: "es_held (send_held p q epoch st) = filter ?keep hs"
    by (auto simp: send_held_def r Let_def clear_overflows_def)
  have same: "sent (send_held p q epoch st) = sent st'" "es_report_number (send_held p q epoch st) = es_report_number st'"
      "es_report_number_epoch (send_held p q epoch st) = es_report_number_epoch st'"
    by (simp_all add: send_held_def r Let_def clear_overflows_def sent_def)
  from sending_ok_frame [OF sending_ok_subset [OF ok] same] show "sending_ok (send_held p q epoch st) (es_held (send_held p q epoch st))"
    by (simp add: kept)
  show "es_report_number_epoch (send_held p q epoch st) \<le> epoch" using e same by simp
qed

lemma sending_event_simps [simp]:
  "es_held (report_link_event e st) = es_held st" "es_report_number_epoch (report_link_event e st) = es_report_number_epoch st"
  "es_report_number (report_link_event e st) = es_report_number st" "sent (report_link_event e st) = sent st @ sent_in e"
  by (simp_all add: report_link_event_def sent_def)

text \<open>A report sent at once has a number nothing else has.\<close>

lemma sending_ok_at_once:
  assumes ok: "sending_ok st hs" and r: "number_report epoch st = (number, st')" and e: "es_report_number_epoch st \<le> epoch"
    and v: "report_key v = (epoch, number)"
  shows "sending_ok (send_on Secondary_sequencer c q v (send_on Primary_sequencer c' q v st')) hs"
proof -
  note D = sending_okD [OF ok] and F = number_report_fresh [OF r e]
  let ?st = "send_on Secondary_sequencer c q v (send_on Primary_sequencer c' q v st')"
  let ?new = "(case c' of None \<Rightarrow> [] | Some _ \<Rightarrow> [(Primary_sequencer, v)]) @ (case c of None \<Rightarrow> [] | Some _ \<Rightarrow> [(Secondary_sequencer, v)])"
  have sent': "sent ?st = sent st @ ?new" by (cases c; cases c') (simp_all add: F(4))
  have new: "x = v" if "(s, x) \<in> set ?new" for s x using that by (auto split: option.splits)
  have member: "(s, x) \<in> set (sent st) \<or> x = v" if "(s, x) \<in> set (sent ?st)" for s x using that new unfolding sent' set_append by blast
  have fresh: "report_key x \<noteq> report_key v" if "(s, x) \<in> set (sent st)" for s x using D(1) [OF that] F(2) v by metis
  have unheld: "held_key h \<noteq> report_key v" if "h \<in> set hs" "hr_numbered h" for h using D(2) [OF that] F(2) v by metis
  show ?thesis
  proof (rule sending_okI)
    show "given ?st (report_key x)" if "(s, x) \<in> set (sent ?st)" for s x
      using member [OF that] D(1) [of s x] F(1,3) v by auto
    show "distinct (map (\<lambda>(s, v). (s, report_key v)) (sent ?st))"
      unfolding sent' using D(5) by (auto split: option.splits dest: fresh)
    show "x = y" if "(s, x) \<in> set (sent ?st)" "(t, y) \<in> set (sent ?st)" "report_key x = report_key y" for s x t y
      using member [OF that(1)] member [OF that(2)] D(6) that(3) fresh by metis
    show "x = held_envelope h \<and> sent_to s h" if "h \<in> set hs" "hr_numbered h" "(s, x) \<in> set (sent ?st)" "report_key x = held_key h" for h s x
      using member [OF that(3)] D(7) [OF that(1,2) _ that(4)] unheld [OF that(1,2)] that(4) by metis
  qed (use D F in auto)
qed

section \<open>Runs\<close>

datatype sending_op =
  Established sequencer int
| Lost sequencer
| Send_op engine_report int bool
| Now_serving int
| For_connection int bool
| Discard
| Hold held_engine_report
| Send_up int

fun run_op :: "sending_op \<Rightarrow> report_sending \<Rightarrow> report_sending" where
  "run_op (Established sequencer connection) st = connection_established sequencer connection st"
| "run_op (Lost sequencer) st = connection_lost sequencer st"
| "run_op (Send_op report epoch holding) st = snd (sending_send report epoch holding st)"
| "run_op (Now_serving epoch) st = release_now_serving epoch st"
| "run_op (For_connection epoch holding) st = release_for_connection epoch holding st"
| "run_op Discard st = sending_discard st"
| "run_op (Hold report) st = sending_hold report st"
| "run_op (Send_up epoch) st = send_held_on_the_connections_up epoch st"

text \<open>
  The engine's epoch does not go back from one call to the next, and a report handed over to be held, one kept while
  the engine followed, has not been numbered or sent.
\<close>

fun op_epoch :: "sending_op \<Rightarrow> int option" where
  "op_epoch (Send_op report epoch holding) = Some epoch"
| "op_epoch (Now_serving epoch) = Some epoch"
| "op_epoch (For_connection epoch holding) = Some epoch"
| "op_epoch (Send_up epoch) = Some epoch"
| "op_epoch op = None"

fun ops_ok :: "int \<Rightarrow> sending_op list \<Rightarrow> bool" where
  "ops_ok e [] \<longleftrightarrow> True"
| "ops_ok e (op # ops) \<longleftrightarrow>
     (case op of Hold h \<Rightarrow> \<not> hr_numbered h \<and> \<not> hr_sent_to_primary h \<and> \<not> hr_sent_to_secondary h | _ \<Rightarrow> True) \<and>
     (case op_epoch op of None \<Rightarrow> ops_ok e ops | Some e' \<Rightarrow> e \<le> e' \<and> ops_ok e' ops)"

lemma sending_send_ok:
  assumes ok: "sending_ok st (es_held st)" and e: "es_report_number_epoch st \<le> epoch"
  shows "sending_ok (snd (sending_send report epoch holding st)) (es_held (snd (sending_send report epoch holding st)))"
    and "es_report_number_epoch (snd (sending_send report epoch holding st)) \<le> epoch"
proof -
  let ?h = "held_report_of report"
  have hold: "sending_ok st' (es_held st @ [?h])" if "sent st' = sent st" "es_report_number st' = es_report_number st"
      "es_report_number_epoch st' = es_report_number_epoch st" for st'
    using sending_ok_frame [OF sending_ok_hold [OF ok, of ?h] that]
    by (metis held_engine_report.select_convs(5,8,9) held_report_of_def sent_to.elims(2))
  let ?st = "if holding then st\<lparr>es_overflowed_until_entitled := True\<rparr> else st"
  have same: "sent ?st = sent st" "es_report_number ?st = es_report_number st" "es_report_number_epoch ?st = es_report_number_epoch st" "es_held ?st = es_held st"
    by (simp_all add: sent_def)
  have ok': "sending_ok ?st (es_held st)" by (rule sending_ok_frame [OF ok same(1-3)])
  obtain number st' where r: "number_report epoch ?st = (number, st')" by fastforce
  have e': "es_report_number_epoch ?st \<le> epoch" using e same by simp
  note once = sending_ok_at_once [OF ok' r e'] and F = number_report_fresh [OF r e']
  show "sending_ok (snd (sending_send report epoch holding st)) (es_held (snd (sending_send report epoch holding st)))"
    using hold ok once F r sending_ok_frame [OF ok] by (simp add: sending_send_def Let_def sent_def report_link_event_def split: prod.split)
  show "es_report_number_epoch (snd (sending_send report epoch holding st)) \<le> epoch"
    using e F r by (auto simp: sending_send_def Let_def)
qed

lemma run_op_ok:
  assumes ok: "sending_ok st (es_held st)" and e: "es_report_number_epoch st \<le> e" and ops: "ops_ok e (op # ops)"
  shows "\<exists>e'. sending_ok (run_op op st) (es_held (run_op op st)) \<and> es_report_number_epoch (run_op op st) \<le> e' \<and> ops_ok e' ops"
proof -
  note frame = sending_ok_frame [OF ok]
  have released: "sending_ok (send_held p q epoch (report_link_event ev st)) (es_held (send_held p q epoch (report_link_event ev st))) \<and>
      es_report_number_epoch (send_held p q epoch (report_link_event ev st)) \<le> epoch" if "e \<le> epoch" "sent_in ev = []" for p q epoch ev
    using send_held_ok [of "report_link_event ev st" epoch p q] sending_ok_frame [OF ok, of "report_link_event ev st"] that e by simp
  show ?thesis
  proof (cases op)
    case (Established sequencer connection)
    then show ?thesis using e ops frame by (auto simp: connection_established_def sent_def)
  next
    case (Lost sequencer)
    then show ?thesis using e ops frame by (auto simp: connection_lost_def sent_def)
  next
    case (Send_op report epoch holding)
    then show ?thesis using sending_send_ok [OF ok, of epoch report holding] e ops by auto
  next
    case (Now_serving epoch)
    then show ?thesis using released [of epoch "Reports_released NowServes (int (length (es_held st)))"] e ops ok frame [of "clear_overflows st"]
      by (intro exI [of _ epoch]) (auto simp: release_now_serving_def clear_overflows_def sent_def)
  next
    case (For_connection epoch holding)
    then show ?thesis using released [of epoch "Reports_released ConnectionMade (int (length (es_held st)))"] e ops ok
      by (intro exI [of _ epoch]) (auto simp: release_for_connection_def)
  next
    case Discard
    then show ?thesis using e ops frame sending_ok_subset [OF ok, of "\<lambda>_. False"]
      by (auto simp: sending_discard_def sent_def report_link_event_def intro: sending_ok_frame)
  next
    case (Hold report)
    then have "\<not> sent_to s report" for s using ops by (cases s) auto
    then have "sending_ok (st\<lparr>es_held := es_held st @ [report]\<rparr>) (es_held st @ [report])"
      using sending_ok_frame [OF sending_ok_hold [OF ok, of report]] ops Hold by (simp add: sent_def)
    then show ?thesis using e ops Hold by (auto simp: sending_hold_def)
  next
    case (Send_up epoch)
    then show ?thesis using send_held_ok [OF ok, of epoch] e ops ok
      by (intro exI [of _ epoch]) (auto simp: send_held_on_the_connections_up_def)
  qed
qed

lemma runs_ok:
  assumes "sending_ok st (es_held st)" and "es_report_number_epoch st \<le> e" and "ops_ok e ops"
  shows "sending_ok (fold run_op ops st) (es_held (fold run_op ops st))"
  using assms
proof (induction ops arbitrary: st e)
  case (Cons op ops)
  from run_op_ok [OF Cons.prems] Cons.IH show ?case by auto
qed simp


definition example_report :: "nat \<Rightarrow> engine_report" where
  "example_report n =
     \<lparr>rp_bytes = [n], rp_seq_no = int n, rp_session = example_session, rp_poss_resend = False, rp_gateway_ingress_ns = None\<rparr>"

text \<open>Two reports produced without a connection, sent to the primary sequencer, and then to the secondary with a third.\<close>

definition example_ops :: "sending_op list" where
  "example_ops =
     [Send_op (example_report 5) 1 False, Send_op (example_report 6) 1 False, Established Primary_sequencer 10, For_connection 1 False,
      Send_op (example_report 7) 1 False, Established Secondary_sequencer 11, For_connection 1 False]"


end
