(* ===== verification/ReportComparison.thy ===== *)
theory ReportComparison
  imports ReportSending
begin

text \<open>
  \<open>applications/matching_engine/FollowerReportComparison.{hpp,cpp}\<close>: the reports an engine keeps while it follows the
  WAL, and their comparison with the leader's. What the class asks of its links is the list of events; the Quill
  log is left out.
\<close>

section \<open>The comparison\<close>

datatype cannot_lead_reason = KeptReportsFull | ReportDiffers | ReportNotProduced | ReportNotSent | AppliedVoidedCommand

datatype comparison_event =
  Stop_leading_for_good int cannot_lead_reason
| Difference_found
| Kept_reports_sent int int

definition max_kept_reports :: nat where
  "max_kept_reports = 100000"

record report_comparison =
  fc_kept :: "held_engine_report list"
  fc_overflowed :: bool
  fc_keeping_from :: int
  fc_last_record_accounted :: int
  fc_highest_command_compared :: int
  fc_refused_to_lead :: bool
  fc_differences :: int
  fc_events :: "comparison_event list"

definition new_comparison :: report_comparison where
  "new_comparison =
     \<lparr>fc_kept = [], fc_overflowed = False, fc_keeping_from = 0, fc_last_record_accounted = 0, fc_highest_command_compared = 0,
      fc_refused_to_lead = False, fc_differences = 0, fc_events = []\<rparr>"

definition has_room :: "report_comparison \<Rightarrow> bool" where
  "has_room c \<longleftrightarrow> length (fc_kept c) < max_kept_reports"

definition refuse_to_lead :: "int \<Rightarrow> cannot_lead_reason \<Rightarrow> report_comparison \<Rightarrow> report_comparison" where
  "refuse_to_lead command reason c =
     (if fc_refused_to_lead c then c
      else c\<lparr>fc_refused_to_lead := True, fc_events := fc_events c @ [Stop_leading_for_good command reason]\<rparr>)"

definition keep_report :: "held_engine_report \<Rightarrow> report_comparison \<Rightarrow> report_comparison" where
  "keep_report report c =
     (if \<not> has_room c
      then if fc_overflowed c then c else refuse_to_lead (hr_seq_no report) KeptReportsFull (c\<lparr>fc_overflowed := True\<rparr>)
      else c\<lparr>fc_kept := fc_kept c @ [report]\<rparr>)"

definition start_keeping_after :: "int \<Rightarrow> report_comparison \<Rightarrow> report_comparison" where
  "start_keeping_after after_seq_no c = (if fc_kept c = [] then c\<lparr>fc_keeping_from := after_seq_no + 1\<rparr> else c)"

definition report_difference :: "int \<Rightarrow> cannot_lead_reason \<Rightarrow> report_comparison \<Rightarrow> report_comparison" where
  "report_difference command reason c =
     refuse_to_lead command reason (c\<lparr>fc_differences := fc_differences c + 1, fc_events := fc_events c @ [Difference_found]\<rparr>)"

text \<open>The reports of commands before \<open>command\<close> are dropped, and each that was never compared is a difference.\<close>

fun drop_earlier :: "int \<Rightarrow> held_engine_report list \<Rightarrow> report_comparison \<Rightarrow> report_comparison" where
  "drop_earlier command [] c = c\<lparr>fc_kept := []\<rparr>"
| "drop_earlier command (kept # rest) c =
     (if hr_seq_no kept < command
      then drop_earlier command rest (if hr_compared kept then c else report_difference (hr_seq_no kept) ReportNotSent c)
      else c\<lparr>fc_kept := kept # rest\<rparr>)"

text \<open>
  The loop that looks for the kept report to compare with: whether it found one or a repeat of one, the reports
  as it leaves them, and whether the one it compared differed.
\<close>

fun compare_kept :: "int \<Rightarrow> nat list \<Rightarrow> held_engine_report list \<Rightarrow> bool \<times> held_engine_report list \<times> bool" where
  "compare_kept command bytes [] = (False, [], False)"
| "compare_kept command bytes (kept # rest) =
     (if hr_seq_no kept \<noteq> command then (False, kept # rest, False)
      else if hr_compared kept then
        if hr_payload kept = bytes then (True, kept # rest, False)
        else case compare_kept command bytes rest of (found, rest', differs) \<Rightarrow> (found, kept # rest', differs)
      else (True, kept\<lparr>hr_compared := True\<rparr> # rest, hr_payload kept \<noteq> bytes))"

definition leader_report :: "int \<Rightarrow> int \<Rightarrow> nat list \<Rightarrow> int \<Rightarrow> report_comparison \<Rightarrow> report_comparison" where
  "leader_report record_seq_no command bytes reports_in_wal_through c =
     (if record_seq_no \<le> fc_last_record_accounted c then c
      else let c = c\<lparr>fc_last_record_accounted := record_seq_no\<rparr>
        in if command < fc_highest_command_compared c then c
           else let c = drop_earlier command (fc_kept c) (c\<lparr>fc_highest_command_compared := command\<rparr>)
             in case compare_kept command bytes (fc_kept c) of
                  (True, kept, differs) \<Rightarrow>
                    let c = c\<lparr>fc_kept := kept\<rparr> in if differs then report_difference command ReportDiffers c else c
                | (False, kept, _) \<Rightarrow>
                    if reports_in_wal_through < command \<and> fc_keeping_from c \<le> command \<and> \<not> fc_overflowed c
                    then report_difference command ReportNotProduced c else c)"

definition take_reports_after :: "int \<Rightarrow> report_comparison \<Rightarrow> held_engine_report list \<times> report_comparison" where
  "take_reports_after reported_through c =
     (let taken = filter (\<lambda>kept. reported_through < hr_seq_no kept) (fc_kept c)
      in (taken, c\<lparr>fc_events := fc_events c @ [Kept_reports_sent (int (length taken)) reported_through], fc_kept := [], fc_overflowed := False\<rparr>))"

section \<open>When the engine refuses to lead\<close>

text \<open>
  What reaches a follower: a report it produces of a command it applies, and a report of the leader's, with the number
  of its record.
\<close>

datatype following_event = Produced int "nat list" | Leader_sent int int "nat list"

definition kept_of :: "int \<Rightarrow> nat list \<Rightarrow> held_engine_report" where
  "kept_of command bytes =
     held_report_of \<lparr>rp_bytes = bytes, rp_seq_no = command, rp_session = make_session [] 0, rp_poss_resend = True, rp_gateway_ingress_ns = None\<rparr>"

fun follow_event :: "int \<Rightarrow> following_event \<Rightarrow> report_comparison \<Rightarrow> report_comparison" where
  "follow_event through (Produced command bytes) c = keep_report (kept_of command bytes) c"
| "follow_event through (Leader_sent record_seq_no command bytes) c = leader_report record_seq_no command bytes through c"

text \<open>
  The order things come in: each engine's reports are in the order of its commands, no report has the bytes of
  another of the same command, and record numbers go up. \<open>K\<close> are the reports produced so far and \<open>L\<close> the leader's.
\<close>

fun in_order :: "int \<Rightarrow> (int \<times> nat list) list \<Rightarrow> (int \<times> nat list) list \<Rightarrow> int \<Rightarrow> following_event list \<Rightarrow> bool" where
  "in_order through K L r [] \<longleftrightarrow> True"
| "in_order through K L r (Produced command bytes # events) \<longleftrightarrow>
     (\<forall>k \<in> set K. fst k \<le> command) \<and> (command, bytes) \<notin> set K \<and> length K < max_kept_reports \<and>
     in_order through (K @ [(command, bytes)]) L r events"
| "in_order through K L r (Leader_sent r' command bytes # events) \<longleftrightarrow>
     r < r' \<and> through < command \<and> (\<forall>l \<in> set L. fst l \<le> command) \<and> (command, bytes) \<notin> set L \<and>
     in_order through K (L @ [(command, bytes)]) r' events"

text \<open>The leader's reports are this engine's own, in the same order, each of them produced here when it arrives.\<close>

fun agreeing :: "(int \<times> nat list) list \<Rightarrow> nat \<Rightarrow> following_event list \<Rightarrow> bool" where
  "agreeing K n [] \<longleftrightarrow> True"
| "agreeing K n (Produced command bytes # events) \<longleftrightarrow> agreeing (K @ [(command, bytes)]) n events"
| "agreeing K n (Leader_sent r command bytes # events) \<longleftrightarrow> n < length K \<and> K ! n = (command, bytes) \<and> agreeing K (Suc n) events"

abbreviation report_view :: "held_engine_report \<Rightarrow> int \<times> nat list" where
  "report_view h \<equiv> (hr_seq_no h, hr_payload h)"

text \<open>
  While the leader's first \<open>n\<close> reports are this engine's first \<open>n\<close>: those still kept are of the command compared
  last, and those after them have not been compared.
\<close>

definition following_ok :: "int \<Rightarrow> (int \<times> nat list) list \<Rightarrow> nat \<Rightarrow> int \<Rightarrow> report_comparison \<Rightarrow> bool" where
  "following_ok through K n r c \<longleftrightarrow>
     (\<exists>dropped compared new. K = dropped @ map report_view compared @ map report_view new \<and> fc_kept c = compared @ new \<and>
        n = length dropped + length compared \<and>
        (\<forall>h \<in> set compared. hr_compared h \<and> hr_seq_no h = fc_highest_command_compared c) \<and> (\<forall>h \<in> set new. \<not> hr_compared h)) \<and>
     sorted (map fst K) \<and> distinct K \<and> (\<forall>l \<in> set (take n K). fst l \<le> fc_highest_command_compared c) \<and>
     (fc_highest_command_compared c \<le> through \<or> fc_highest_command_compared c \<in> fst ` set (take n K)) \<and>
     fc_last_record_accounted c = r \<and> fc_keeping_from c \<le> through + 1 \<and> \<not> fc_overflowed c \<and> \<not> fc_refused_to_lead c"

lemma refused_stays [simp]:
  "fc_refused_to_lead c \<Longrightarrow> fc_refused_to_lead (refuse_to_lead command reason c)"
  "fc_refused_to_lead (report_difference command reason c)"
  "fc_refused_to_lead c \<Longrightarrow> fc_refused_to_lead (keep_report report c)"
  by (simp_all add: refuse_to_lead_def report_difference_def keep_report_def)

lemma drop_earlier_refused: "fc_refused_to_lead c \<Longrightarrow> fc_refused_to_lead (drop_earlier command hs c)"
  by (induction hs arbitrary: c) simp_all

lemma leader_report_refused: "fc_refused_to_lead c \<Longrightarrow> fc_refused_to_lead (leader_report r command bytes through c)"
  using drop_earlier_refused [of "c\<lparr>fc_last_record_accounted := r, fc_highest_command_compared := command\<rparr>" command "fc_kept c"]
  by (auto simp: leader_report_def Let_def split: prod.splits bool.splits)

lemma follow_refused: "fc_refused_to_lead c \<Longrightarrow> fc_refused_to_lead (fold (follow_event through) events c)"
proof (induction events arbitrary: c)
  case (Cons e events)
  then show ?case using leader_report_refused by (cases e) simp_all
qed simp

lemma drop_earlier_compared:
  "\<forall>h \<in> set hs. hr_seq_no h < command \<and> hr_compared h \<Longrightarrow> rest = [] \<or> command \<le> hr_seq_no (hd rest) \<Longrightarrow>
     drop_earlier command (hs @ rest) c = c\<lparr>fc_kept := rest\<rparr>"
  by (induction hs arbitrary: c) (cases rest, auto)

lemma drop_earlier_uncompared:
  "\<forall>h \<in> set hs. hr_seq_no h < command \<Longrightarrow> hr_seq_no h < command \<Longrightarrow> \<not> hr_compared h \<Longrightarrow>
     fc_refused_to_lead (drop_earlier command (hs @ h # rest) c)"
  by (induction hs arbitrary: c) (simp_all add: drop_earlier_refused)

lemma compare_kept_passes:
  "\<forall>h \<in> set hs. hr_seq_no h = command \<and> hr_compared h \<and> hr_payload h \<noteq> bytes \<Longrightarrow>
     compare_kept command bytes (hs @ rest) = (case compare_kept command bytes rest of (found, rest', differs) \<Rightarrow> (found, hs @ rest', differs))"
  by (induction hs) (auto split: prod.splits)

lemma following_ok_kept:
  assumes "following_ok through K n r c" and "\<forall>k \<in> set K. fst k \<le> command" and "(command, bytes) \<notin> set K" and "length K < max_kept_reports"
  shows "following_ok through (K @ [(command, bytes)]) n r (keep_report (kept_of command bytes) c)"
proof -
  from assms(1) obtain dropped compared new where
    K: "K = dropped @ map report_view compared @ map report_view new" and kept: "fc_kept c = compared @ new" and n: "n = length dropped + length compared"
    and marks: "\<forall>h \<in> set compared. hr_compared h \<and> hr_seq_no h = fc_highest_command_compared c" "\<forall>h \<in> set new. \<not> hr_compared h"
    unfolding following_ok_def by blast
  have "has_room c" using assms(4) by (simp add: has_room_def kept K)
  then have c': "keep_report (kept_of command bytes) c = c\<lparr>fc_kept := compared @ new @ [kept_of command bytes]\<rparr>" by (simp add: keep_report_def kept)
  have h: "report_view (kept_of command bytes) = (command, bytes)" "\<not> hr_compared (kept_of command bytes)"
    by (simp_all add: kept_of_def held_report_of_def)
  have le: "n \<le> length K" by (simp add: K n)
  have "\<exists>dropped' compared' new'. K @ [(command, bytes)] = dropped' @ map report_view compared' @ map report_view new' \<and>
      compared @ new @ [kept_of command bytes] = compared' @ new' \<and> n = length dropped' + length compared' \<and>
      (\<forall>h \<in> set compared'. hr_compared h \<and> hr_seq_no h = fc_highest_command_compared c) \<and> (\<forall>h \<in> set new'. \<not> hr_compared h)"
    by (rule exI [of _ dropped], rule exI [of _ compared], rule exI [of _ "new @ [kept_of command bytes]"]) (use K n marks h in auto)
  then show ?thesis
    using assms(1,2,3) le unfolding following_ok_def c' by (auto simp: sorted_append)
qed

lemma leader_step:
  assumes ok: "following_ok through K n r c" and r: "r < r'" and through: "through < command"
    and later: "\<forall>l \<in> set (take n K). fst l \<le> command" and new_report: "(command, bytes) \<notin> set (take n K)"
  shows "n < length K \<and> K ! n = (command, bytes) \<Longrightarrow> following_ok through K (Suc n) r' (leader_report r' command bytes through c)"
    and "\<not> (n < length K \<and> K ! n = (command, bytes)) \<Longrightarrow> fc_refused_to_lead (leader_report r' command bytes through c)"
proof -
  from ok obtain dropped compared new where
    K: "K = dropped @ map report_view compared @ map report_view new" and kept: "fc_kept c = compared @ new" and n: "n = length dropped + length compared"
    and marks: "\<forall>h \<in> set compared. hr_compared h \<and> hr_seq_no h = fc_highest_command_compared c" "\<forall>h \<in> set new. \<not> hr_compared h"
    unfolding following_ok_def by blast
  have others: "sorted (map fst K)" "distinct K" "fc_last_record_accounted c = r" "fc_keeping_from c \<le> through + 1" "\<not> fc_overflowed c" "\<not> fc_refused_to_lead c"
      "fc_highest_command_compared c \<le> through \<or> fc_highest_command_compared c \<in> fst ` set (take n K)" "\<forall>l \<in> set (take n K). fst l \<le> fc_highest_command_compared c"
    using ok unfolding following_ok_def by blast+
  have take_n: "take n K = dropped @ map report_view compared" by (simp add: K n)
  have highest: "fc_highest_command_compared c \<le> command" using others(7) through later by auto
  let ?c = "c\<lparr>fc_last_record_accounted := r', fc_highest_command_compared := command\<rparr>"
  define kb where "kb = (if fc_highest_command_compared c = command then compared else [])"
  have run: "leader_report r' command bytes through c =
      (let c = drop_earlier command (compared @ new) ?c
       in case compare_kept command bytes (fc_kept c) of
            (True, kept, differs) \<Rightarrow> let c = c\<lparr>fc_kept := kept\<rparr> in if differs then report_difference command ReportDiffers c else c
          | (False, kept, _) \<Rightarrow>
              if through < command \<and> fc_keeping_from c \<le> command \<and> \<not> fc_overflowed c
              then report_difference command ReportNotProduced c else c)"
    using r highest others(3) by (simp add: leader_report_def kept)
  have kb_marks: "\<forall>h \<in> set kb. hr_seq_no h = command \<and> hr_compared h \<and> hr_payload h \<noteq> bytes"
    using marks(1) new_report take_n by (auto simp: kb_def)
  have dropping: "drop_earlier command (compared @ new) ?c = ?c\<lparr>fc_kept := kb @ new\<rparr>" if "new = [] \<or> command \<le> hr_seq_no (hd new)"
  proof (cases "fc_highest_command_compared c = command")
    case True
    have "compared @ new = [] \<or> command \<le> hr_seq_no (hd (compared @ new))" using that marks(1) True by (cases compared) auto
    from drop_earlier_compared [of "[]" command "compared @ new" ?c, OF _ this] True show ?thesis by (simp add: kb_def)
  next
    case False
    then have "\<forall>h \<in> set compared. hr_seq_no h < command \<and> hr_compared h" using marks(1) highest by auto
    from drop_earlier_compared [OF this that, of ?c] False show ?thesis by (simp add: kb_def)
  qed
  note passes = compare_kept_passes [OF kb_marks]
  have at_n: "n < length K \<and> K ! n = (command, bytes) \<longleftrightarrow> (\<exists>h rest. new = h # rest \<and> report_view h = (command, bytes))"
    by (cases new) (auto simp: K n nth_append)
  show "following_ok through K (Suc n) r' (leader_report r' command bytes through c)" if agree: "n < length K \<and> K ! n = (command, bytes)"
  proof -
    from agree at_n obtain h rest where h: "new = h # rest" "report_view h = (command, bytes)" by auto
    have c': "leader_report r' command bytes through c = ?c\<lparr>fc_kept := kb @ h\<lparr>hr_compared := True\<rparr> # rest\<rparr>"
    proof -
      have "compare_kept command bytes (kb @ new) = (True, kb @ h\<lparr>hr_compared := True\<rparr> # rest, False)"
        unfolding passes using h marks(2) by auto
      with dropping h show ?thesis by (simp add: run)
    qed
    have "\<exists>dropped' compared' new'. K = dropped' @ map report_view compared' @ map report_view new' \<and>
        kb @ h\<lparr>hr_compared := True\<rparr> # rest = compared' @ new' \<and> Suc n = length dropped' + length compared' \<and>
        (\<forall>h \<in> set compared'. hr_compared h \<and> hr_seq_no h = command) \<and> (\<forall>h \<in> set new'. \<not> hr_compared h)"
      by (rule exI [of _ "dropped @ (if fc_highest_command_compared c = command then [] else map report_view compared)"],
          rule exI [of _ "kb @ [h\<lparr>hr_compared := True\<rparr>]"], rule exI [of _ rest]) (use K n marks h kb_marks in \<open>auto simp: kb_def\<close>)
    moreover have "take (Suc n) K = take n K @ [(command, bytes)]" using agree by (simp add: take_Suc_conv_app_nth)
    ultimately show ?thesis unfolding c' following_ok_def using others later by auto
  qed
  show "fc_refused_to_lead (leader_report r' command bytes through c)" if disagree: "\<not> (n < length K \<and> K ! n = (command, bytes))"
  proof (cases "new = [] \<or> command \<le> hr_seq_no (hd new)")
    case True
    note D = dropping [OF True]
    show ?thesis
    proof (cases "\<exists>h rest. new = h # rest \<and> hr_seq_no h = command")
      case True
      then obtain h rest where h: "new = h # rest" "hr_seq_no h = command" by blast
      then have "hr_payload h \<noteq> bytes" using disagree at_n by auto
      then have "compare_kept command bytes (kb @ new) = (True, kb @ h\<lparr>hr_compared := True\<rparr> # rest, True)"
        unfolding passes using h marks(2) by auto
      then show ?thesis by (simp add: run D)
    next
      case False
      then have "compare_kept command bytes new = (False, new, False)" by (cases new) auto
      then show ?thesis using through others(4,5) by (simp add: run D passes)
    qed
  next
    case False
    then obtain h rest where h: "new = h # rest" "hr_seq_no h < command" by (cases new) auto
    then have hl: "\<forall>x \<in> set compared. hr_seq_no x < command"
      using others(1) by (fastforce simp: K sorted_append)
    have "fc_refused_to_lead (drop_earlier command (compared @ new) ?c)"
      unfolding h(1) by (rule drop_earlier_uncompared [OF hl h(2)]) (use marks(2) h(1) in simp)
    then show ?thesis by (auto simp: run Let_def split: prod.splits bool.splits)
  qed
qed

lemma follow_exact:
  assumes "following_ok through K n r c" and "in_order through K (take n K) r events"
  shows "fc_refused_to_lead (fold (follow_event through) events c) \<longleftrightarrow> \<not> agreeing K n events"
  using assms
proof (induction events arbitrary: K n r c)
  case Nil
  then show ?case by (simp add: following_ok_def)
next
  case (Cons e events)
  have le: "n \<le> length K" using Cons.prems(1) by (auto simp: following_ok_def)
  show ?case
  proof (cases e)
    case (Produced command bytes)
    with Cons.prems have "following_ok through (K @ [(command, bytes)]) n r (keep_report (kept_of command bytes) c)"
        "in_order through (K @ [(command, bytes)]) (take n (K @ [(command, bytes)])) r events"
      using following_ok_kept [OF Cons.prems(1)] le by simp_all
    from Cons.IH [OF this] Produced show ?thesis by simp
  next
    case (Leader_sent r' command bytes)
    with Cons.prems have o: "r < r'" "through < command" "\<forall>l \<in> set (take n K). fst l \<le> command" "(command, bytes) \<notin> set (take n K)"
        "in_order through K (take n K @ [(command, bytes)]) r' events" by simp_all
    note S = leader_step [OF Cons.prems(1) o(1-4)]
    show ?thesis
    proof (cases "n < length K \<and> K ! n = (command, bytes)")
      case True
      then have "take (Suc n) K = take n K @ [(command, bytes)]" by (simp add: take_Suc_conv_app_nth)
      with Cons.IH [OF S(1) [OF True]] o(5) True Leader_sent show ?thesis by simp
    next
      case False
      from follow_refused [OF S(2) [OF False]] False Leader_sent show ?thesis by auto
    qed
  qed
qed



end
