(* ===== verification/DiedApplying.thy ===== *)
theory DiedApplying
  imports Prelude
begin

text \<open>
  \<open>applications/matching_engine/DiedApplyingCheck.{hpp,cpp}\<close>: whether to ask for the command the process before
  this one died applying to be voided. What the class asks of its links is the list of events; the Quill log and the
  reasons given to it are left out. The connection the peer can be asked on, if one is up, is an argument of the
  calls that may ask it.
\<close>

datatype question = No_question | Asking_peer | Asking_sequencers

datatype died_outcome = PeerAppliedIt | Voided | Declined

datatype died_event =
  Asked_peer int
| Start_peer_answer_timer
| Stop_peer_answer_timer
| Send_void_request int
| Start_void_request_timer
| Stop_void_request_timer
| Settled int died_outcome

record died_applying_check =
  da_command :: int
  da_question :: question
  da_peer_asked :: bool
  da_peer_timer_running :: bool
  da_void_timer_running :: bool
  da_outcome :: "died_outcome option"
  da_events :: "died_event list"

definition new_died_check :: died_applying_check where
  "new_died_check =
     \<lparr>da_command = 0, da_question = No_question, da_peer_asked = False, da_peer_timer_running = False, da_void_timer_running = False,
      da_outcome = None, da_events = []\<rparr>"

definition note_event :: "died_event \<Rightarrow> died_applying_check \<Rightarrow> died_applying_check" where
  "note_event event d = d\<lparr>da_events := da_events d @ [event]\<rparr>"

definition died_applying :: "int \<Rightarrow> died_applying_check \<Rightarrow> died_applying_check" where
  "died_applying command d = d\<lparr>da_command := command\<rparr>"

definition question_open :: "died_applying_check \<Rightarrow> bool" where
  "question_open d \<longleftrightarrow> da_question d \<noteq> No_question"

definition ask_peer :: "int option \<Rightarrow> died_applying_check \<Rightarrow> died_applying_check" where
  "ask_peer peer d =
     (if da_question d \<noteq> Asking_peer \<or> da_peer_asked d then d
      else case peer of None \<Rightarrow> d | Some connection \<Rightarrow> (note_event (Asked_peer connection) d)\<lparr>da_peer_asked := True\<rparr>)"

definition stop_peer_timer :: "died_applying_check \<Rightarrow> died_applying_check" where
  "stop_peer_timer d = (if da_peer_timer_running d then (note_event Stop_peer_answer_timer d)\<lparr>da_peer_timer_running := False\<rparr> else d)"

definition ask_for_void :: "died_applying_check \<Rightarrow> died_applying_check" where
  "ask_for_void d =
     (let d = stop_peer_timer (d\<lparr>da_question := Asking_sequencers\<rparr>)
      in (note_event Start_void_request_timer (note_event (Send_void_request (da_command d)) d))\<lparr>da_void_timer_running := True\<rparr>)"

definition settle :: "died_outcome \<Rightarrow> died_applying_check \<Rightarrow> died_applying_check" where
  "settle outcome d =
     (let d = stop_peer_timer (d\<lparr>da_question := No_question, da_outcome := Some outcome\<rparr>);
          d = (if da_void_timer_running d then (note_event Stop_void_request_timer d)\<lparr>da_void_timer_running := False\<rparr> else d)
      in note_event (Settled (da_command d) outcome) d)"

definition begin_check :: "bool \<Rightarrow> int option \<Rightarrow> died_applying_check \<Rightarrow> died_applying_check" where
  "begin_check ha_enabled peer d =
     (if da_command d = 0 then d
      else if \<not> ha_enabled then ask_for_void d
      else ask_peer peer ((note_event Start_peer_answer_timer (d\<lparr>da_question := Asking_peer\<rparr>))\<lparr>da_peer_timer_running := True\<rparr>))"

definition peer_connected :: "int option \<Rightarrow> died_applying_check \<Rightarrow> died_applying_check" where
  "peer_connected peer d = ask_peer peer d"

definition sequencer_connected :: "died_applying_check \<Rightarrow> died_applying_check" where
  "sequencer_connected d = (if da_question d = Asking_sequencers then note_event (Send_void_request (da_command d)) d else d)"

definition peer_answered :: "int \<Rightarrow> died_applying_check \<Rightarrow> died_applying_check" where
  "peer_answered highest_applied d =
     (if da_question d \<noteq> Asking_peer then d
      else if highest_applied < da_command d then ask_for_void d
      else settle PeerAppliedIt d)"

definition peer_answer_timer_fired :: "died_applying_check \<Rightarrow> died_applying_check" where
  "peer_answer_timer_fired d =
     (let d = d\<lparr>da_peer_timer_running := False\<rparr> in if da_question d = Asking_peer then ask_for_void d else d)"

definition void_request_timer_fired :: "died_applying_check \<Rightarrow> died_applying_check" where
  "void_request_timer_fired d = (if da_question d = Asking_sequencers then note_event (Send_void_request (da_command d)) d else d)"

definition voids_learned :: "bool \<Rightarrow> died_applying_check \<Rightarrow> died_applying_check" where
  "voids_learned names_the_command d =
     (if da_question d \<noteq> Asking_sequencers \<or> \<not> names_the_command then d else settle Voided d)"

definition void_declined :: "int \<Rightarrow> died_applying_check \<Rightarrow> died_applying_check" where
  "void_declined command d =
     (if da_question d \<noteq> Asking_sequencers \<or> command \<noteq> da_command d then d else settle Declined d)"

section \<open>Runs\<close>

text \<open>What reaches the check once it has begun.\<close>

datatype died_input =
  Peer_connected "int option"
| Sequencer_connected
| Peer_answered int
| Peer_timer_fired
| Void_timer_fired
| Voids_learned bool
| Void_declined int

text \<open>
  The checks that can be reached after \<open>begin\<close>, with what reached them. The first timer fires only while it
  runs, once, and the second only while it runs, again and again.
\<close>

inductive died_run :: "int \<Rightarrow> bool \<Rightarrow> died_input list \<Rightarrow> died_applying_check \<Rightarrow> bool" for command ha_enabled where
  died_begin: "died_run command ha_enabled [] (begin_check ha_enabled peer (died_applying command new_died_check))"
| died_peer: "died_run command ha_enabled inputs d \<Longrightarrow> died_run command ha_enabled (inputs @ [Peer_connected peer]) (peer_connected peer d)"
| died_sequencer: "died_run command ha_enabled inputs d \<Longrightarrow> died_run command ha_enabled (inputs @ [Sequencer_connected]) (sequencer_connected d)"
| died_answer: "died_run command ha_enabled inputs d \<Longrightarrow> died_run command ha_enabled (inputs @ [Peer_answered highest]) (peer_answered highest d)"
| died_peer_timer: "died_run command ha_enabled inputs d \<Longrightarrow> da_peer_timer_running d \<Longrightarrow>
    died_run command ha_enabled (inputs @ [Peer_timer_fired]) (peer_answer_timer_fired d)"
| died_void_timer: "died_run command ha_enabled inputs d \<Longrightarrow> da_void_timer_running d \<Longrightarrow>
    died_run command ha_enabled (inputs @ [Void_timer_fired]) (void_request_timer_fired d)"
| died_voids: "died_run command ha_enabled inputs d \<Longrightarrow> died_run command ha_enabled (inputs @ [Voids_learned names]) (voids_learned names d)"
| died_declined: "died_run command ha_enabled inputs d \<Longrightarrow> died_run command ha_enabled (inputs @ [Void_declined c]) (void_declined c d)"

inductive_cases died_run_NilE: "died_run command ha_enabled [] d"

definition settlements :: "died_applying_check \<Rightarrow> died_outcome list" where
  "settlements d = concat (map (\<lambda>e. case e of Settled c out \<Rightarrow> [out] | _ \<Rightarrow> []) (da_events d))"

lemmas died_defs = note_event_def ask_peer_def stop_peer_timer_def ask_for_void_def settle_def begin_check_def peer_connected_def
  sequencer_connected_def peer_answered_def peer_answer_timer_fired_def void_request_timer_fired_def voids_learned_def void_declined_def
  died_applying_def new_died_check_def question_open_def Let_def

text \<open>A reason to have settled as the check did.\<close>

fun settled_by :: "int \<Rightarrow> died_input list \<Rightarrow> died_outcome \<Rightarrow> bool" where
  "settled_by command inputs PeerAppliedIt \<longleftrightarrow> (\<exists>highest. Peer_answered highest \<in> set inputs \<and> command \<le> highest)"
| "settled_by command inputs Voided \<longleftrightarrow> Voids_learned True \<in> set inputs"
| "settled_by command inputs Declined \<longleftrightarrow> Void_declined command \<in> set inputs"

lemma settled_by_more: "settled_by command inputs out \<Longrightarrow> settled_by command (inputs @ [i]) out"
  by (cases out) auto

definition check_ok :: "int \<Rightarrow> died_input list \<Rightarrow> died_applying_check \<Rightarrow> bool" where
  "check_ok command inputs d \<longleftrightarrow>
     da_command d = command \<and>
     da_peer_timer_running d = (da_question d = Asking_peer) \<and> da_void_timer_running d = (da_question d = Asking_sequencers) \<and>
     (question_open d \<longrightarrow> da_outcome d = None) \<and>
     (\<not> question_open d \<longrightarrow> (\<exists>out. da_outcome d = Some out \<and> settled_by command inputs out)) \<and>
     settlements d = (case da_outcome d of None \<Rightarrow> [] | Some out \<Rightarrow> [out]) \<and>
     (da_question d = Asking_sequencers \<longrightarrow> Send_void_request command \<in> set (da_events d))"

lemma check_ok_run:
  assumes "died_run command ha_enabled inputs d" and "command \<noteq> 0"
  shows "check_ok command inputs d"
  using assms
proof (induction rule: died_run.induct)
  case (died_begin peer)
  then show ?case by (simp add: check_ok_def died_defs settlements_def split: option.split)
next
  case (died_peer inputs d peer)
  then show ?case using settled_by_more [of command inputs]
    by (auto simp: check_ok_def died_defs settlements_def split: option.splits)
next
  case (died_sequencer inputs d)
  then show ?case using settled_by_more [of command inputs]
    by (auto simp: check_ok_def died_defs settlements_def)
next
  case (died_answer inputs d highest)
  then show ?case using settled_by_more [of command inputs]
    by (auto simp: check_ok_def died_defs settlements_def)
next
  case (died_peer_timer inputs d)
  then show ?case by (auto simp: check_ok_def died_defs settlements_def)
next
  case (died_void_timer inputs d)
  then show ?case by (auto simp: check_ok_def died_defs settlements_def)
next
  case (died_voids inputs d names)
  then show ?case using settled_by_more [of command inputs]
    by (auto simp: check_ok_def died_defs settlements_def)
next
  case (died_declined inputs d c)
  then show ?case using settled_by_more [of command inputs]
    by (auto simp: check_ok_def died_defs settlements_def)
qed

text \<open>
  C17. The question of a command the last process died applying is settled at most once, for a reason, and never
  hangs. Whatever the peer and the sequencers say, and in whatever order: while the question is open exactly one
  timer runs, the one given the peer, whose end turns the question to the sequencers, or the one that asks the
  sequencers again; and once it is settled, which it is once and as the peer, a void or a refusal said, no timer
  runs and nothing changes it.
\<close>

theorem died_question_settled_once:
  assumes "died_run command ha_enabled inputs d" and "command \<noteq> 0"
  shows "if question_open d
    then settlements d = [] \<and> da_peer_timer_running d \<noteq> da_void_timer_running d \<and>
      (da_peer_timer_running d \<longrightarrow> da_question (peer_answer_timer_fired d) = Asking_sequencers) \<and>
      (da_void_timer_running d \<longrightarrow> da_events (void_request_timer_fired d) = da_events d @ [Send_void_request command])
    else \<exists>out. settlements d = [out] \<and> settled_by command inputs out \<and> \<not> da_peer_timer_running d \<and> \<not> da_void_timer_running d \<and>
      sequencer_connected d = d \<and> (\<forall>peer. peer_connected peer d = d) \<and> (\<forall>highest. peer_answered highest d = d) \<and>
      (\<forall>names. voids_learned names d = d) \<and> (\<forall>c. void_declined c d = d)"
  using check_ok_run [OF assms] by (cases "da_question d") (auto simp: check_ok_def died_defs)

theorem died_question_settled_once_witness:
  "\<exists>d. died_run 7 True [Peer_timer_fired, Voids_learned True] d \<and> settlements d = [Voided]"
proof -
  have 0: "died_run 7 True [] (begin_check True None (died_applying 7 new_died_check))" by (rule died_begin)
  let ?d1 = "peer_answer_timer_fired (begin_check True None (died_applying 7 new_died_check))"
  have 1: "died_run 7 True [Peer_timer_fired] ?d1" using died_peer_timer [OF 0] by (simp add: died_defs)
  have 2: "died_run 7 True [Peer_timer_fired, Voids_learned True] (voids_learned True ?d1)" using died_voids [OF 1, of True] by simp
  have "\<not> question_open (voids_learned True ?d1)" by (simp add: died_defs)
  with died_question_settled_once [OF 2] obtain out where out: "settlements (voids_learned True ?d1) = [out]" by auto
  moreover have "out = Voided" using out by (simp add: died_defs settlements_def)
  ultimately show ?thesis using 2 by auto
qed

end
