(* ===== verification/EngineThread.thy ===== *)
theory EngineThread
  imports EngineRole EngineCatchUp PeerSettings ReportComparison DiedApplying MatchingEngine
begin

text \<open>
  \<open>applications/matching_engine/MatchingEngineThread.cpp\<close>: the thread that joins the parts of a matching engine. Its state is
  the parts and what it keeps itself, and each of its handlers is an operation on that state. A message other
  than a record that cannot be decoded is dropped before it has any effect, and is left out. What is sent to the
  peer and the sequencers other than by the parts is a list of sends. Metrics, test events, the Quill log and what a
  test makes the thread do are left out.
\<close>

section \<open>State\<close>

text \<open>
  What the thread is given: the engine's surroundings, the encoding of a report, which is generated code, and whether the
  disk stores an epoch when it is asked to.
\<close>

record thread_env =
  tv_engine :: engine_env
  tv_encode :: "execution_report \<Rightarrow> nat list"
  tv_epoch_stored :: "int \<Rightarrow> bool"

datatype thread_send =
  Lease_send lease_send
| Role_announcement int me_role int
| Engine_settings int int int
| Engine_position int int int
| Applied_through int int

record engine_thread =
  th_ha_enabled :: bool
  th_instance_id :: int
  th_epoch :: int
  th_highest_written_epoch :: int
  th_epoch_on_disk :: int
  th_engine :: engine
  th_role :: engine_role
  th_catch_up :: engine_catch_up
  th_sending :: report_sending
  th_comparison :: report_comparison
  th_died :: died_applying_check
  th_settings :: "peer_settings_check option"
  th_agent :: "pair_lease_agent option"
  th_sequencer_order_conns :: "int list"
  th_outbound_peer :: "int option"
  th_inbound_peer :: "int option"
  th_current_command_follows :: bool
  th_followed_reports_withheld :: int
  th_order_ingress_ns :: "int option"
  th_resumed_through :: int
  th_sends :: "thread_send list"

abbreviation on_role :: "(engine_role \<Rightarrow> engine_role) \<Rightarrow> engine_thread \<Rightarrow> engine_thread" where
  "on_role f th \<equiv> th\<lparr>th_role := f (th_role th)\<rparr>"

abbreviation on_catch_up :: "(engine_catch_up \<Rightarrow> engine_catch_up) \<Rightarrow> engine_thread \<Rightarrow> engine_thread" where
  "on_catch_up f th \<equiv> th\<lparr>th_catch_up := f (th_catch_up th)\<rparr>"

abbreviation on_sending :: "(report_sending \<Rightarrow> report_sending) \<Rightarrow> engine_thread \<Rightarrow> engine_thread" where
  "on_sending f th \<equiv> th\<lparr>th_sending := f (th_sending th)\<rparr>"

abbreviation on_engine :: "(engine \<Rightarrow> engine) \<Rightarrow> engine_thread \<Rightarrow> engine_thread" where
  "on_engine f th \<equiv> th\<lparr>th_engine := f (th_engine th)\<rparr>"

abbreviation thread_sends :: "thread_send list \<Rightarrow> engine_thread \<Rightarrow> engine_thread" where
  "thread_sends sends th \<equiv> th\<lparr>th_sends := th_sends th @ sends\<rparr>"

text \<open>
  The comparison of reports, with its links: an engine that refuses to lead stops asking to, and marks its region so
  that no process after it uses it.
\<close>

definition on_comparison :: "(report_comparison \<Rightarrow> report_comparison) \<Rightarrow> engine_thread \<Rightarrow> engine_thread" where
  "on_comparison f th =
     (let c = f (th_comparison th); th' = th\<lparr>th_comparison := c\<rparr>
      in if fc_refused_to_lead c \<and> \<not> fc_refused_to_lead (th_comparison th)
         then on_engine (on_book book_mark_unusable) (th'\<lparr>th_agent := map_option stop_asking_to_lead (th_agent th')\<rparr>)
         else th')"

section \<open>Asking to be caught up\<close>

definition catch_up_context :: "engine_thread \<Rightarrow> request_context" where
  "catch_up_context th =
     \<lparr>cx_may_ask = (\<not> question_open (th_died th)), cx_died_applying = da_command (th_died th),
      cx_to_lead = catching_up_to_lead (th_role th), cx_highest_applied = en_highest_applied_seq_no (th_engine th)\<rparr>"

definition asked :: "bool \<times> engine_catch_up \<Rightarrow> engine_thread \<Rightarrow> engine_thread" where
  "asked r th =
     (let th' = th\<lparr>th_catch_up := snd r\<rparr>
      in if fst r then on_role (role_request_sent (catching_up_to_lead (th_role th') \<or> \<not> th_ha_enabled th')) th' else th')"

definition begin_reconciliation :: "engine_thread \<Rightarrow> engine_thread" where
  "begin_reconciliation th = asked (catch_up_begin (th_sequencer_order_conns th) (catch_up_context th) (th_catch_up th)) th"

definition send_follow_request :: "engine_thread \<Rightarrow> engine_thread" where
  "send_follow_request th = asked (catch_up_send_request (th_sequencer_order_conns th) (catch_up_context th) (th_catch_up th)) th"

definition follow_the_wal_again :: "engine_thread \<Rightarrow> engine_thread" where
  "follow_the_wal_again th = begin_reconciliation (on_catch_up stop_following (on_role start_catching_up_to_follow_again th))"

definition become_leader_when_current :: "engine_thread \<Rightarrow> engine_thread" where
  "become_leader_when_current th =
     (if role (th_role th) = Leader then th else begin_reconciliation (on_role start_catching_up_to_lead th))"

definition ask_on_new_sequencer_connection :: "int \<Rightarrow> engine_thread \<Rightarrow> engine_thread" where
  "ask_on_new_sequencer_connection connection th =
     (if \<not> ec_request_sent (th_catch_up th) then begin_reconciliation th
      else if following_the_wal (th_role th) then follow_the_wal_again th
      else on_catch_up (send_request_on connection (catch_up_context th)) th)"

text \<open>The check of a command died in, with its links: what is asked for once the question is settled.\<close>

definition on_died :: "(died_applying_check \<Rightarrow> died_applying_check) \<Rightarrow> engine_thread \<Rightarrow> engine_thread" where
  "on_died f th =
     (let th' = th\<lparr>th_died := f (th_died th)\<rparr>
      in if question_open (th_died th) \<and> \<not> question_open (th_died th') \<and> role (th_role th') = Reconciling \<and>
            \<not> ec_request_sent (th_catch_up th') \<and> th_sequencer_order_conns th' \<noteq> []
         then send_follow_request th' else th')"

definition peer_connection :: "engine_thread \<Rightarrow> int option" where
  "peer_connection th = (if th_outbound_peer th \<noteq> None then th_outbound_peer th else th_inbound_peer th)"

section \<open>Reports\<close>

definition send_er_to_sequencer ::
  "thread_env \<Rightarrow> execution_report \<Rightarrow> int \<Rightarrow> session_identity \<Rightarrow> report_is_repeat \<Rightarrow> engine_thread \<Rightarrow> engine_thread" where
  "send_er_to_sequencer env er seq_no session repeat th =
     on_sending (\<lambda>st. snd (sending_send
       \<lparr>rp_bytes = tv_encode env er, rp_seq_no = seq_no, rp_session = session, rp_poss_resend = (repeat = Possible_repeat),
        rp_gateway_ingress_ns = th_order_ingress_ns th\<rparr> (th_epoch th) (holding_reports_until_entitled (th_role th)) st)) th"

definition thread_keep_report :: "thread_env \<Rightarrow> execution_report \<Rightarrow> int \<Rightarrow> session_identity \<Rightarrow> engine_thread \<Rightarrow> engine_thread" where
  "thread_keep_report env er seq_no session th =
     on_comparison (\<lambda>c. keep_report (held_report_of
       \<lparr>rp_bytes = (if has_room c then tv_encode env er else []), rp_seq_no = seq_no, rp_session = session, rp_poss_resend = True,
        rp_gateway_ingress_ns = None\<rparr>) c) th"

definition outputs_send_report ::
  "thread_env \<Rightarrow> execution_report \<Rightarrow> int \<Rightarrow> session_identity \<Rightarrow> report_is_repeat \<Rightarrow> engine_thread \<Rightarrow> engine_thread" where
  "outputs_send_report env report sequence_number session repeat th =
     (let in_wal = (0 < sequence_number \<and> sequence_number \<le> ec_reports_in_wal_through (th_catch_up th))
      in if th_current_command_follows th then
           let th = th\<lparr>th_followed_reports_withheld := th_followed_reports_withheld th + 1\<rparr>
           in if in_wal then on_catch_up report_left_out th else thread_keep_report env report sequence_number session th
         else if repeat = Possible_repeat then
           if in_wal then on_catch_up report_left_out th
           else send_er_to_sequencer env report sequence_number session repeat (on_catch_up report_sent th)
         else send_er_to_sequencer env report sequence_number session repeat th)"

fun deliver_output :: "thread_env \<Rightarrow> engine_output \<Rightarrow> engine_thread \<Rightarrow> engine_thread" where
  "deliver_output env (Send_report report sequence_number session repeat) th =
     outputs_send_report env report sequence_number session repeat th"
| "deliver_output env (Order_outcome session cl_ord_id outcome repeat sequence_number orig_cl_ord_id) th = th"
| "deliver_output env Order_accepted th = th"

definition hold_all :: "held_engine_report list \<Rightarrow> report_sending \<Rightarrow> report_sending" where
  "hold_all = fold sending_hold"

definition send_kept_reports_after :: "int \<Rightarrow> engine_thread \<Rightarrow> engine_thread" where
  "send_kept_reports_after reported_through th =
     (let (taken, c) = take_reports_after reported_through (th_comparison th)
      in on_sending (\<lambda>st. send_held_on_the_connections_up (th_epoch th) (hold_all taken st)) (th\<lparr>th_comparison := c\<rparr>))"

section \<open>Commands and reports of the WAL\<close>

definition command_source_for :: "int \<Rightarrow> engine_thread \<Rightarrow> command_source \<times> engine_thread" where
  "command_source_for sequence_number th =
     (let th = th\<lparr>th_current_command_follows := keeps_its_reports (th_role th)\<rparr>
      in if following_the_wal (th_role th) then (Catch_up, th)
         else if role (th_role th) \<noteq> Reconciling then (Live, th)
         else (Catch_up, on_catch_up (record_offered sequence_number) th))"

text \<open>What the thread does with the results of a command other than its reports.\<close>

fun command_consequences :: "command_source \<Rightarrow> int \<Rightarrow> engine_command \<Rightarrow> engine \<Rightarrow> engine_thread \<Rightarrow> engine_thread" where
  "command_consequences source q (Technical_event_command view trading_date) en th =
     (let result = fst (apply_technical_event view q trading_date source en)
      in if ta_applied result \<and> ta_halt_changed result \<and> te_halted view then on_catch_up stop_awaiting_halt th else th)"
| "command_consequences source q (Void_commands_command view) en th =
     (if va_learned_too_late (fst (apply_void_commands view q source en))
      then on_comparison (refuse_to_lead q AppliedVoidedCommand) th else th)"
| "command_consequences source q _ en th = th"

definition thread_apply_command ::
  "thread_env \<Rightarrow> int \<Rightarrow> engine_command \<Rightarrow> int option \<Rightarrow> engine_thread \<Rightarrow> engine_thread result" where
  "thread_apply_command env q command ingress th =
     (let th = th\<lparr>th_order_ingress_ns := (case command of New_order_command _ _ _ _ \<Rightarrow> ingress | _ \<Rightarrow> None)\<rparr>;
          (source, th) = command_source_for q th;
          before = th_engine th;
          (e, en) = apply_command (tv_engine env) source q command before;
          th = fold (deliver_output env) (drop (length (en_outputs before)) (en_outputs en)) (th\<lparr>th_engine := en\<rparr>);
          th = command_consequences source q command (on_book (book_set_applying q) before) th
      in case e of None \<Rightarrow> Inr th | Some e \<Rightarrow> Inl e)"

text \<open>
  A record the thread is sent: a command, a command whose payload cannot be decoded, a report with the command it answers
  if it answers one, or anything else, a record whose envelope cannot be decoded among them.
\<close>

datatype record_body =
  Command_record engine_command "int option"
| Undecodable_command
| Report_record "int option" "nat list"
| Other_record

definition is_order_pdu :: "record_body \<Rightarrow> bool" where
  "is_order_pdu body = (case body of Command_record _ _ \<Rightarrow> True | Undecodable_command \<Rightarrow> True | _ \<Rightarrow> False)"

text \<open>
  \<open>on_framework_pdu_message\<close>, of a WAL record: first whether the record is due, then whether it belongs to the answer
  being waited for, then whether this instance applies commands at all.
\<close>

definition apply_record :: "thread_env \<Rightarrow> int \<Rightarrow> record_body \<Rightarrow> engine_thread \<Rightarrow> engine_thread result" where
  "apply_record env q body th =
     (case body of
        Command_record command ingress \<Rightarrow> thread_apply_command env q command ingress th
      | Undecodable_command \<Rightarrow> Inr (on_engine (on_book (book_set_applying 0)) th)
      | Report_record answers bytes \<Rightarrow>
          let th = (if role (th_role th) = Reconciling then on_catch_up (record_offered q) th else th)
          in Inr (case answers of
                    Some command \<Rightarrow>
                      if keeps_its_reports (th_role th)
                      then on_comparison (leader_report q command bytes (ec_reports_in_wal_through (th_catch_up th))) th else th
                  | None \<Rightarrow> th)
      | Other_record \<Rightarrow> Inr th)"

definition handle_record :: "thread_env \<Rightarrow> int \<Rightarrow> int \<Rightarrow> record_body \<Rightarrow> engine_thread \<Rightarrow> engine_thread result" where
  "handle_record env connection q body th =
     (let th = th\<lparr>th_order_ingress_ns := None\<rparr>;
          (due, c) = (if following_the_wal (th_role th) then next_followed_record q (th_catch_up th) else (True, th_catch_up th));
          th = th\<lparr>th_catch_up := c\<rparr>
      in if \<not> due then Inr (follow_the_wal_again th)
         else if role (th_role th) = Reconciling \<and> from_an_earlier_answer connection (th_catch_up th)
         then Inr (on_catch_up ignored_a_record_from_an_earlier_answer th)
         else if is_order_pdu body \<and> role (th_role th) = Follower \<and> \<not> following_the_wal (th_role th) then Inr th
         else if is_order_pdu body \<and> th_ha_enabled th \<and> role (th_role th) = Unknown \<and> \<not> following_the_wal (th_role th)
         then Inr (on_role command_discarded_without_a_lease th)
         else apply_record env q body th)"

section \<open>Roles\<close>

definition agent_highest_epoch :: "pair_lease_agent \<Rightarrow> int" where
  "agent_highest_epoch a = lv_highest_epoch (lp_voter (pa_participant a))"

text \<open>\<open>EpochRecording::record\<close>: an epoch already written is not written again.\<close>

definition record_epoch :: "thread_env \<Rightarrow> int \<Rightarrow> engine_thread \<Rightarrow> engine_thread" where
  "record_epoch env epoch th =
     (if epoch \<le> th_highest_written_epoch th \<or> \<not> tv_epoch_stored env epoch then th
      else th\<lparr>th_highest_written_epoch := epoch, th_epoch_on_disk := epoch\<rparr>)"

definition set_epoch :: "thread_env \<Rightarrow> int \<Rightarrow> engine_thread \<Rightarrow> engine_thread" where
  "set_epoch env new_epoch th = (if new_epoch \<le> th_epoch th then th else record_epoch env new_epoch (th\<lparr>th_epoch := new_epoch\<rparr>))"

definition announce_role :: "engine_thread \<Rightarrow> engine_thread" where
  "announce_role th =
     (if role (th_role th) \<noteq> Leader \<and> role (th_role th) \<noteq> Follower then th
      else thread_sends (map (\<lambda>connection. Role_announcement connection (role (th_role th)) (th_epoch th))
             ((case es_primary (th_sending th) of None \<Rightarrow> [] | Some c \<Rightarrow> [c]) @
              (case es_secondary (th_sending th) of None \<Rightarrow> [] | Some c \<Rightarrow> [c]))) th)"

definition adopt_leader_role :: "engine_thread \<Rightarrow> engine_thread" where
  "adopt_leader_role th =
     (if role (th_role th) = Leader then th
      else on_sending (release_now_serving (th_epoch th)) (announce_role (on_role became_leader th)))"

definition enter_follower_state :: "engine_thread \<Rightarrow> engine_thread" where
  "enter_follower_state th =
     (let th' = announce_role (on_sending sending_discard (on_role became_follower th))
      in if th_ha_enabled th \<and> role (th_role th) = Leader then follow_the_wal_again th' else th')"

definition follow_peer_claiming_leadership :: "thread_env \<Rightarrow> int \<Rightarrow> engine_thread \<Rightarrow> bool \<times> engine_thread" where
  "follow_peer_claiming_leadership env announced_epoch th =
     (if announced_epoch < th_epoch th then (False, th) else (True, enter_follower_state (set_epoch env announced_epoch th)))"

definition act_on_peer_leader_heard_while_reconciling :: "thread_env \<Rightarrow> engine_thread \<Rightarrow> engine_thread" where
  "act_on_peer_leader_heard_while_reconciling env th =
     (let (noted, r) = take_peer_leader_note (th_role th); th = th\<lparr>th_role := r\<rparr>
      in case noted of None \<Rightarrow> th | Some n \<Rightarrow> snd (follow_peer_claiming_leadership env (pl_epoch n) th))"

section \<open>The lease\<close>

text \<open>The settings check, when there is one, with its links to the lease agent.\<close>

definition bar_peer :: "time_point \<Rightarrow> engine_thread \<Rightarrow> engine_thread result" where
  "bar_peer now th =
     (case th_settings th of
        None \<Rightarrow> Inr th
      | Some c \<Rightarrow>
          bind_result (bar_peer_if_settings_differ now (th_agent th) c)
            (\<lambda>(_, sends, agent, c). Inr (thread_sends (map Lease_send sends) (th\<lparr>th_agent := agent, th_settings := Some c\<rparr>))))"

definition act_on :: "thread_env \<Rightarrow> time_point \<Rightarrow> change \<Rightarrow> engine_thread \<Rightarrow> engine_thread result" where
  "act_on env now change th =
     (case th_agent th of
        None \<Rightarrow> Inr th
      | Some a \<Rightarrow>
          let th = set_epoch env (agent_highest_epoch a) th
          in case change of
               BecameLeader \<Rightarrow> bar_peer now (become_leader_when_current th)
             | StoppedLeading \<Rightarrow> Inr (enter_follower_state (on_catch_up stop_awaiting_halt th))
             | AgreedPeerLeads \<Rightarrow>
                 if catching_up (th_role th) \<and> \<not> catching_up_to_lead (th_role th)
                 then Inr (on_role (note_peer_leader (pa_peer_id a) (agent_highest_epoch a)) th)
                 else if role (th_role th) = Unknown
                 then Inr (snd (follow_peer_claiming_leadership env (agent_highest_epoch a) th))
                 else Inr th
             | NoChange \<Rightarrow> Inr th)"

text \<open>An agent's answer acted on: what it sends, then the change it says.\<close>

definition agent_answered ::
  "thread_env \<Rightarrow> time_point \<Rightarrow> (change \<times> lease_send list \<times> pair_lease_agent) result \<Rightarrow> engine_thread \<Rightarrow> engine_thread result" where
  "agent_answered env now r th =
     bind_result r (\<lambda>(change, sends, a). act_on env now change (thread_sends (map Lease_send sends) (th\<lparr>th_agent := Some a\<rparr>)))"

text \<open>
  \<open>on_timer_event\<close>, of the lease's tick: an agent that begins to ask to lead has had the epoch it asks in recorded
  first (\<open>EpochRecordedBeforeAsking\<close>).
\<close>

definition record_before_asking :: "thread_env \<Rightarrow> pair_lease_agent \<Rightarrow> pair_lease_agent \<Rightarrow> engine_thread \<Rightarrow> engine_thread" where
  "record_before_asking env a a' th =
     (let epoch = lh_epoch (lp_holder (pa_participant a'))
      in if epoch \<noteq> lh_epoch (lp_holder (pa_participant a)) then record_epoch env epoch th else th)"

definition lease_tick :: "thread_env \<Rightarrow> time_point \<Rightarrow> int \<Rightarrow> duration \<Rightarrow> engine_thread \<Rightarrow> engine_thread result" where
  "lease_tick env now draw took th =
     (case th_agent th of
        None \<Rightarrow> Inr th
      | Some a \<Rightarrow>
          bind_result (agent_on_tick a now draw took)
            (\<lambda>(change, sends, a'). agent_answered env now (Inr (change, sends, a')) (record_before_asking env a a' th)))"

definition handle_lease_request ::
  "thread_env \<Rightarrow> time_point \<Rightarrow> int \<Rightarrow> instance_id \<Rightarrow> epoch \<Rightarrow> int \<Rightarrow> leader_statement \<Rightarrow> engine_thread \<Rightarrow> engine_thread result" where
  "handle_lease_request env now connection candidate epoch request_id statement th =
     (case th_agent th of
        None \<Rightarrow> Inr th
      | Some a \<Rightarrow> agent_answered env now (agent_on_request a connection candidate epoch request_id statement now) th)"

definition handle_lease_grant ::
  "thread_env \<Rightarrow> time_point \<Rightarrow> instance_id \<Rightarrow> epoch \<Rightarrow> int \<Rightarrow> int \<Rightarrow> engine_thread \<Rightarrow> engine_thread result" where
  "handle_lease_grant env now voter epoch request_id echoed th =
     (case th_agent th of
        None \<Rightarrow> Inr th
      | Some a \<Rightarrow> agent_answered env now (agent_on_grant a voter epoch request_id echoed now) th)"

definition handle_lease_refusal ::
  "thread_env \<Rightarrow> time_point \<Rightarrow> instance_id \<Rightarrow> epoch \<Rightarrow> int \<Rightarrow> refusal_reason \<Rightarrow> int \<Rightarrow> engine_thread \<Rightarrow> engine_thread result" where
  "handle_lease_refusal env now voter highest_epoch request_id reason draw th =
     (case th_agent th of
        None \<Rightarrow> Inr th
      | Some a \<Rightarrow>
          case agent_on_refusal a voter highest_epoch request_id reason now draw of
            (change, a) \<Rightarrow> agent_answered env now (Inr (change, [], a)) th)"

definition handle_statement_held :: "instance_id \<Rightarrow> leader_statement \<Rightarrow> bool \<Rightarrow> engine_thread \<Rightarrow> engine_thread" where
  "handle_statement_held arbiter statement alone th =
     th\<lparr>th_agent := map_option (\<lambda>a. agent_on_statement_held a arbiter (statement\<lparr>ls_peer_may_lead := False\<rparr>) alone) (th_agent th)\<rparr>"

definition handle_engine_settings :: "time_point \<Rightarrow> int \<Rightarrow> int \<Rightarrow> engine_thread \<Rightarrow> engine_thread result" where
  "handle_engine_settings now capacity' fingerprint th =
     (case th_settings th of
        None \<Rightarrow> Inr th
      | Some c \<Rightarrow>
          bind_result (peer_settings_arrived now capacity' fingerprint (th_agent th) c)
            (\<lambda>(sends, agent, c). Inr (thread_sends (map Lease_send sends) (th\<lparr>th_agent := agent, th_settings := Some c\<rparr>))))"

section \<open>Catching up\<close>

definition handle_follow_started :: "int \<Rightarrow> wal_follow_started \<Rightarrow> engine_thread \<Rightarrow> engine_thread" where
  "handle_follow_started connection started th =
     (let (mine, c) = catch_up_started connection started (role (th_role th) = Reconciling) (th_catch_up th);
          th = th\<lparr>th_catch_up := c\<rparr>
      in if \<not> mine then th
         else
           let th = (if ro_latest_request_asked_to_follow (th_role th)
                     then on_comparison (start_keeping_after (fs_after_seq_no started)) th else th)
           in if catching_up_to_lead (th_role th) then send_kept_reports_after (ec_reports_in_wal_through (th_catch_up th)) th else th)"

definition book_can_be_vouched_for :: "engine_thread \<Rightarrow> bool" where
  "book_can_be_vouched_for th \<longleftrightarrow> \<not> ec_region_was_unusable (th_catch_up th)"

definition finish_catch_up :: "thread_env \<Rightarrow> wal_follow_caught_up \<Rightarrow> engine_thread \<Rightarrow> engine_thread" where
  "finish_catch_up env ack th =
     (let th = (if book_can_be_vouched_for th then th
                else on_catch_up (account_for_unusable_region ack (\<not> th_ha_enabled th \<or> catching_up_to_lead (th_role th))) th);
          (completed, r) = catch_up_completed_now (th_role th);
          th = th\<lparr>th_role := r\<rparr>
      in if completed \<noteq> To_lead then
           let th = (if ro_latest_request_asked_to_follow (th_role th)
                     then on_catch_up (follow_from (fu_last_seq_no ack + 1)) th else th)
           in if ob_halted (en_book (th_engine th)) then th else act_on_peer_leader_heard_while_reconciling env th
         else adopt_leader_role (th\<lparr>th_resumed_through := fu_last_seq_no ack\<rparr>))"

definition handle_caught_up :: "thread_env \<Rightarrow> wal_follow_caught_up \<Rightarrow> engine_thread \<Rightarrow> engine_thread" where
  "handle_caught_up env ack th =
     (if role (th_role th) \<noteq> Reconciling then th
      else case caught_up ack (th_catch_up th) of
          (Complete_answer, c) \<Rightarrow>
            let th = on_engine (note_caught_up_to (fu_last_seq_no ack)) (th\<lparr>th_catch_up := c\<rparr>)
            in if ro_situation (th_role th) = Catching_up_to_follow_again
               then on_catch_up (follow_from (fu_last_seq_no ack + 1)) (on_role (snd \<circ> catch_up_completed_now) th)
               else finish_catch_up env ack th
        | (_, c) \<Rightarrow> th\<lparr>th_catch_up := c\<rparr>)"

definition handle_leader_changed :: "engine_thread \<Rightarrow> engine_thread" where
  "handle_leader_changed th =
     (if following_the_wal (th_role th) then follow_the_wal_again th
      else if role (th_role th) \<noteq> Reconciling then th
      else send_follow_request th)"

definition retry_tick :: "engine_thread \<Rightarrow> engine_thread" where
  "retry_tick th =
     on_catch_up (on_retry_tick (th_sequencer_order_conns th) (role (th_role th) = Reconciling) (catch_up_context th)) th"

definition halt_tick :: "engine_thread \<Rightarrow> engine_thread" where
  "halt_tick th = on_catch_up (on_halt_tick (ob_halted (en_book (th_engine th)))) th"

section \<open>Voids, and the command died in\<close>

definition learn_voided :: "voided_range \<Rightarrow> engine_thread \<Rightarrow> engine_thread" where
  "learn_voided voided th =
     (let (learned, en) = learn_void voided (th_engine th); th = th\<lparr>th_engine := en\<rparr>
      in if learned = After_applying_some then on_comparison (refuse_to_lead (vr_void_seq_no voided) AppliedVoidedCommand) th else th)"

definition handle_voided_commands :: "voided_range list \<Rightarrow> engine_thread \<Rightarrow> engine_thread" where
  "handle_voided_commands voids th =
     (let th = fold learn_voided voids th; command = da_command (th_died th)
      in on_died (voids_learned (command \<noteq> 0 \<and> voiding command Void_cancel (en_voids (th_engine th)) \<noteq> None)) th)"

section \<open>Connections\<close>

datatype connection_kind = Reports_to sequencer | To_peer | From_peer | Orders_from_sequencer

definition own_settings :: "thread_env \<Rightarrow> int \<Rightarrow> engine_thread \<Rightarrow> thread_send" where
  "own_settings env connection th =
     Engine_settings connection (int (ss_slot_count (ob_store (en_book (th_engine th)))))
       (secret_fingerprint (ev_crypto (tv_engine env)) (en_identifiers (th_engine th)))"

definition sequencer_order_connection :: "int \<Rightarrow> engine_thread \<Rightarrow> engine_thread" where
  "sequencer_order_connection connection th =
     (let th = on_died sequencer_connected (th\<lparr>th_sequencer_order_conns := List.insert connection (th_sequencer_order_conns th)\<rparr>)
      in if role (th_role th) = Reconciling then ask_on_new_sequencer_connection connection th
         else if \<not> ro_catch_up_completed (th_role th) \<and> role (th_role th) \<noteq> Follower
         then begin_reconciliation (on_role start_catching_up_to_become_current th)
         else th)"

definition on_connection_established :: "thread_env \<Rightarrow> connection_kind \<Rightarrow> int \<Rightarrow> engine_thread \<Rightarrow> engine_thread" where
  "on_connection_established env kind connection th =
     (case kind of
        Reports_to s \<Rightarrow>
          let th = announce_role (on_sending (connection_established s connection) th)
          in on_sending (release_for_connection (th_epoch th) (holding_reports_until_entitled (th_role th))) th
      | To_peer \<Rightarrow>
          let th = th\<lparr>th_outbound_peer := Some connection\<rparr>; th = thread_sends [own_settings env connection th] th
          in on_died (peer_connected (peer_connection th)) th
      | From_peer \<Rightarrow>
          let th = th\<lparr>th_inbound_peer := Some connection\<rparr>; th = thread_sends [own_settings env connection th] th
          in on_died (peer_connected (peer_connection th)) th
      | Orders_from_sequencer \<Rightarrow> sequencer_order_connection connection th)"

definition on_connection_lost :: "connection_kind \<Rightarrow> int \<Rightarrow> engine_thread \<Rightarrow> engine_thread" where
  "on_connection_lost kind connection th =
     (case kind of
        Reports_to s \<Rightarrow> on_sending (connection_lost s) th
      | To_peer \<Rightarrow> th\<lparr>th_outbound_peer := None\<rparr>
      | From_peer \<Rightarrow> th\<lparr>th_inbound_peer := None\<rparr>
      | Orders_from_sequencer \<Rightarrow> th\<lparr>th_sequencer_order_conns := removeAll connection (th_sequencer_order_conns th)\<rparr>)"

definition handle_engine_position_query :: "int \<Rightarrow> int \<Rightarrow> engine_thread \<Rightarrow> engine_thread" where
  "handle_engine_position_query connection request_id th =
     (if th_ha_enabled th \<and> role (th_role th) \<noteq> Leader then th
      else thread_sends [Engine_position connection request_id (en_highest_applied_seq_no (th_engine th))] th)"

definition handle_applied_through_query :: "int \<Rightarrow> engine_thread \<Rightarrow> engine_thread" where
  "handle_applied_through_query connection th =
     thread_sends [Applied_through connection (en_highest_applied_seq_no (th_engine th))] th"

section \<open>Starting\<close>

text \<open>\<open>recover_open_orders\<close>, on a thread whose engine has the book the region was opened as.\<close>

definition recover_open_orders :: "bool \<Rightarrow> engine_thread \<Rightarrow> engine_thread" where
  "recover_open_orders region_existed th =
     (if ec_region_was_unusable (th_catch_up th) then th
      else if \<not> region_existed then on_catch_up no_region_found th
      else
        let (found, book) = book_recover (en_book (th_engine th));
            th = on_catch_up (region_found_current_to (rc_published found)) (on_engine (\<lambda>en. en\<lparr>en_book := book\<rparr>) th);
            th = on_engine (note_caught_up_to (rc_published found)) th;
            applying = ob_applying_when_opened book
        in if rc_published found < applying then th\<lparr>th_died := died_applying applying (th_died th)\<rparr> else th)"

definition blank_thread :: "bool \<Rightarrow> int \<Rightarrow> engine \<Rightarrow> engine_thread" where
  "blank_thread ha_enabled instance_id en =
     \<lparr>th_ha_enabled = ha_enabled, th_instance_id = instance_id, th_epoch = 0, th_highest_written_epoch = 0, th_epoch_on_disk = 0,
      th_engine = en, th_role = new_role ha_enabled, th_catch_up = new_catch_up instance_id ha_enabled,
      th_sending = new_sending ha_enabled, th_comparison = new_comparison, th_died = new_died_check, th_settings = None,
      th_agent = None, th_sequencer_order_conns = [], th_outbound_peer = None, th_inbound_peer = None,
      th_current_command_follows = False, th_followed_reports_withheld = 0, th_order_ingress_ns = None, th_resumed_through = 0,
      th_sends = []\<rparr>"

text \<open>
  The constructor and \<open>on_app_ready_event\<close>: the region as it was opened, or a new one where the one found could not
  be used, the epoch on disk, and the lease agent.
\<close>

definition new_thread ::
  "thread_env \<Rightarrow> bool \<Rightarrow> int \<Rightarrow> (bool \<times> order_book) result \<Rightarrow> order_book \<Rightarrow> report_identifiers \<Rightarrow> int \<Rightarrow>
   pair_lease_agent option \<Rightarrow> engine_thread" where
  "new_thread env ha_enabled instance_id opened fresh_book identifiers epoch_on_disk agent =
     (let (unusable, existed, book) = (case opened of Inl _ \<Rightarrow> (True, False, fresh_book) | Inr (existed, book) \<Rightarrow> (False, existed, book));
          th = blank_thread ha_enabled instance_id (new_engine book identifiers);
          th = (if unusable then on_catch_up region_found_unusable th else th);
          th = recover_open_orders existed th;
          th = (if ha_enabled then th\<lparr>th_epoch := epoch_on_disk, th_epoch_on_disk := epoch_on_disk, th_agent := agent\<rparr> else th);
          th = th\<lparr>th_settings := Some (new_settings_check (int (ss_slot_count (ob_store (en_book (th_engine th)))))
                  (secret_fingerprint (ev_crypto (tv_engine env)) (en_identifiers (th_engine th))))\<rparr>
      in on_died (begin_check ha_enabled None) th)"

end
