(* ===== verification/AgentLeading.thy ===== *)
theory AgentLeading
  imports AgentHandlers PeerSettings
begin

text \<open>
  An agent that leads goes on leading until one of its handlers says that it has stopped, and leads once one says that
  it has begun to. This is what the owner of an agent relies on.
\<close>

lemma ask_voters_state: "ask_voters a e now = (sends, b) \<Longrightarrow> lh_state (lp_holder (pa_participant b)) = lh_state (lp_holder (pa_participant a))"
  by (auto simp: ask_voters_def record_request_def holder_record_request_def Let_def split: prod.splits)

lemma renew_state: "renew a now = (sends, b) \<Longrightarrow> agent_leading b = agent_leading a"
  using ask_voters_state unfolding renew_def agent_leading_def by fastforce

lemma tick_leading:
  assumes "agent_on_tick a now draw took = Inr (ch, sends, b)" and "agent_leading a" and "ch \<noteq> StoppedLeading"
  shows "agent_leading b"
proof -
  define a2 where "a2 = report_whether_may_lead (write_statement_if_needed (start_wanted_record
    (adopt_background_record (a\<lparr>pa_last_tick_at := now\<rparr>))))"
  have l2: "agent_leading a2" using assms(2) by (simp add: a2_def agent_leading_def)
  then have a3: "tick_abandon a2 now draw = a2" by (simp add: tick_abandon_def agent_leading_def)
  obtain c4 a4 where t4: "tick_ran_out a2 now = (c4, a4)" by fastforce
  obtain s5 a5 where t5: "tick_renew a4 now = (s5, a5)" by fastforce
  obtain s6 a6 where t6: "tick_ask_again a5 now = (s6, a6)" by fastforce
  obtain s8 where t8: "tick_ask (tick_give_up a6 now draw) now took = Inr (s8, b)" and ch: "ch = c4"
    using assms(1) t4 t5 t6 a3 unfolding agent_on_tick_def Let_def by (auto simp: a2_def [symmetric] bind_result_eq_Inr)
  have l4: "agent_leading a4"
    using t4 l2 ch assms(3) by (auto simp: tick_ran_out_def stop_if_lease_ran_out_def agent_leading_def split: if_splits prod.splits)
  have l5: "agent_leading a5" using t5 l4 renew_state by (auto simp: tick_renew_def split: if_splits)
  have l6: "agent_leading a6" using t6 l5 renew_state by (auto simp: tick_ask_again_def split: if_splits)
  have "tick_give_up a6 now draw = a6 \<or> agent_leading (tick_give_up a6 now draw)"
    using l6 by (auto simp: tick_give_up_def agent_leading_def)
  then have l7: "agent_leading (tick_give_up a6 now draw)" using l6 by auto
  then have "\<not> may_ask_to_lead (pa_participant (tick_give_up a6 now draw)) now" by (simp add: may_ask_to_lead_def agent_leading_def)
  then have "b = tick_give_up a6 now draw" using t8 by (simp add: tick_ask_def)
  with l7 show ?thesis by simp
qed

lemma leading_frame [simp]:
  "agent_leading (a\<lparr>pa_reported_no_leader := b\<rparr>) = agent_leading a" "agent_leading (stop_asking_to_lead a) = agent_leading a"
  "agent_leading (agent_on_statement_held a arbiter statement alone) = agent_leading a"
  by (auto simp: agent_leading_def stop_asking_to_lead_def agent_on_statement_held_def note_held_by_arbiter_def Let_def split: prod.split)

lemma grant_leading:
  assumes "agent_on_grant a v e r n now = Inr (ch, sends, b)"
  shows "ch = BecameLeader \<or> agent_leading a \<Longrightarrow> agent_leading b" and "ch \<in> {NoChange, BecameLeader}"
proof -
  obtain ev p1 where g1: "participant_on_grant (pa_participant a) v r e now = Inr (ev, p1)"
    using assms by (auto simp: agent_on_grant_def bind_result_eq_Inr)
  define p2 where "p2 = (if v = pa_peer_id a then note_echo_from_peer p1 e n else p1)"
  define a3 where "a3 = (if ev = EventLeaseExtended then record_leading (a\<lparr>pa_participant := p2\<rparr>) else a\<lparr>pa_participant := p2\<rparr>)"
  have h: "snd (holder_on_grant (lp_holder (pa_participant a)) v r e now) = lp_holder p1"
    "fst (holder_on_grant (lp_holder (pa_participant a)) v r e now) = ev"
    using g1 by (auto simp: participant_on_grant_def Let_def bind_result_eq_Inr split: prod.splits if_splits)
  have l1: "lh_state (lp_holder p1) = Leading" if "ev = EventBecameLeader \<or> agent_leading a"
    unfolding h(1) [symmetric] using h(2) that
    by (cases rule: on_grant_cases [of "lp_holder (pa_participant a)" v r e now]) (auto simp: agent_leading_def)
  have l3: "agent_leading a3 \<longleftrightarrow> lh_state (lp_holder p1) = Leading"
    by (simp add: agent_leading_def a3_def p2_def note_echo_from_peer_def)
  have b: "ch = (if ev = EventBecameLeader then BecameLeader else NoChange)" "agent_leading b = agent_leading a3"
    using assms g1 renew_state
    by (auto simp: agent_on_grant_def p2_def [symmetric] a3_def agent_leading_def Let_def split: prod.splits if_splits)
  show "ch = BecameLeader \<or> agent_leading a \<Longrightarrow> agent_leading b" using b l1 l3 by (auto split: if_splits)
  show "ch \<in> {NoChange, BecameLeader}" using b(1) by simp
qed

lemma request_leading:
  assumes q: "agent_on_request a c v e r st now = Inr (ch, sends, b)" and lead: "agent_leading a"
  shows "agent_leading b \<and> ch \<in> {NoChange, AgreedPeerLeads}"
  using q
proof (rule on_request_parts)
  fix n1 p1 outcome p2 n3 p3 covered a4
  assume r1: "(if ls_leader_id st \<noteq> 0 \<and> newer_than st (lv_recorded_statement (lp_voter (pa_participant a)))
      then record_peer_statement (pa_participant a) st else Inr (0, pa_participant a)) = Inr (n1, p1)"
    and o: "on_peer_request p1 v e now = (outcome, p2)"
    and r3: "(if ans_verdict (pro_answer outcome) = Granted \<and> ls_leader_id st \<noteq> 0 then record_peer_statement p2 st else Inr (0, p2)) =
      Inr (n3, p3)"
    and c4: "(if ans_verdict (pro_answer outcome) = Granted then promise_recorded (a\<lparr>pa_participant := p3\<rparr>) v
      else (False, a\<lparr>pa_participant := p3\<rparr>)) = (covered, a4)"
    and b: "b = (if covered then report_whether_may_lead (write_statement_if_needed (a4\<lparr>pa_reported_no_leader := False\<rparr>)) else a4)"
    and ch: "ch = (if covered then AgreedPeerLeads else NoChange)"
  have holder: "lp_holder p = lp_holder q" if "record_peer_statement q st = Inr (n, p)" for n p q
    using that by (auto simp: record_peer_statement_def bind_result_eq_Inr)
  have "lp_holder p1 = lp_holder (pa_participant a)" using r1 holder by (auto split: if_splits)
  then have "lh_state (lp_holder p2) = Leading"
    using o lead by (auto simp: on_peer_request_def agent_leading_def Let_def split: prod.splits)
  moreover have "lp_holder p3 = lp_holder p2" using r3 holder by (auto split: if_splits)
  moreover have "a4 = (if ans_verdict (pro_answer outcome) = Granted then snd (promise_recorded (a\<lparr>pa_participant := p3\<rparr>) v)
      else a\<lparr>pa_participant := p3\<rparr>)" using c4 by (metis snd_conv)
  then have "pa_participant a4 = p3" by simp
  ultimately show ?thesis by (simp add: b ch agent_leading_def)
qed

lemma refusal_leading:
  assumes "agent_on_refusal a v h r why now draw = (ch, b)" and "agent_leading a" and "ch \<noteq> StoppedLeading"
  shows "agent_leading b \<and> ch = NoChange"
  using assms
  by (auto simp: agent_on_refusal_def participant_on_refusal_def holder_on_refusal_def agent_leading_def Let_def
      split: if_splits prod.splits)

lemma says_leading:
  assumes "agent_says say a now = Inr (sends, b)" and "say \<in> {say_peer_may_not_lead, say_peer_may_lead}"
  shows "agent_leading b = agent_leading a"
proof -
  from assms(1) obtain p where p: "say (pa_participant a) = Inr p" and b: "statement_changed (a\<lparr>pa_participant := p\<rparr>) now = (sends, b)"
    by (auto simp: agent_says_def bind_result_eq_Inr)
  have "lh_state (lp_holder p) = lh_state (lp_holder (pa_participant a))"
    using p assms(2) change_statement_ok
    by (auto simp: say_peer_may_not_lead_def say_peer_may_lead_def require_leading_def bind_result_eq_Inr split: if_splits)
  then have "agent_leading (write_statement_if_needed (a\<lparr>pa_participant := p\<rparr>)) = agent_leading a" by (simp add: agent_leading_def)
  then show ?thesis using b renew_state by (auto simp: statement_changed_def Let_def split: if_splits)
qed

lemma bar_peer_leading:
  assumes "bar_peer_if_settings_differ now agent c = Inr (barred, sends, agent', c')"
  shows "links_leading agent' = links_leading agent \<and> (agent' = None) = (agent = None)"
  using assms says_leading
  by (auto simp: bar_peer_if_settings_differ_def links_leading_def agent_say_peer_may_not_lead_def agent_say_peer_may_lead_def
      bind_result_eq_Inr split: option.splits if_splits)

lemma settings_arrived_leading:
  assumes "peer_settings_arrived now capacity' fingerprint agent c = Inr (sends, agent', c')"
  shows "links_leading agent' = links_leading agent \<and> (agent' = None) = (agent = None)"
  using assms bar_peer_leading by (fastforce simp: peer_settings_arrived_def bind_result_eq_Inr Let_def)

end
