(* ===== verification/EngineLeading.thy ===== *)
theory EngineLeading
  imports EngineThread AgentLeading
begin

text \<open>
  Which instance of a matching engine speaks to members. \<open>thread_step\<close> is the thread given anything that can reach
  it, and \<open>thread_reach\<close> the states it can come to from its start. The invariant \<open>thread_ok\<close> ties what the parts hold to
  what the lease agent says; it shows that a report leaves an instance only while its agent says it leads.
\<close>

section \<open>What reaches the thread\<close>

datatype thread_input =
  Record_arrives int int record_body
| Follow_started_arrives int wal_follow_started
| Caught_up_arrives wal_follow_caught_up
| Leader_changed_arrives
| Connected connection_kind int
| Lost connection_kind int
| Retry_tick
| Halt_tick
| Peer_answer_timer
| Void_request_timer
| Lease_tick time_point int duration
| Lease_request_arrives time_point int instance_id epoch int leader_statement
| Lease_grant_arrives time_point instance_id epoch int int
| Lease_refusal_arrives time_point instance_id epoch int refusal_reason int
| Statement_held_arrives instance_id leader_statement bool
| Settings_arrive time_point int int
| Voided_commands_arrive "voided_range list"
| Void_declined_arrives int
| Applied_through_arrives int
| Position_query_arrives int int
| Applied_through_query_arrives int

fun thread_step :: "thread_env \<Rightarrow> thread_input \<Rightarrow> engine_thread \<Rightarrow> engine_thread result" where
  "thread_step env (Record_arrives connection q body) th = handle_record env connection q body th"
| "thread_step env (Follow_started_arrives connection started) th = Inr (handle_follow_started connection started th)"
| "thread_step env (Caught_up_arrives ack) th = Inr (handle_caught_up env ack th)"
| "thread_step env Leader_changed_arrives th = Inr (handle_leader_changed th)"
| "thread_step env (Connected kind connection) th = Inr (on_connection_established env kind connection th)"
| "thread_step env (Lost kind connection) th = Inr (on_connection_lost kind connection th)"
| "thread_step env Retry_tick th = Inr (retry_tick th)"
| "thread_step env Halt_tick th = Inr (halt_tick th)"
| "thread_step env Peer_answer_timer th = Inr (on_died peer_answer_timer_fired th)"
| "thread_step env Void_request_timer th = Inr (on_died void_request_timer_fired th)"
| "thread_step env (Lease_tick now draw took) th = lease_tick env now draw took th"
| "thread_step env (Lease_request_arrives now connection candidate epoch request_id statement) th =
     handle_lease_request env now connection candidate epoch request_id statement th"
| "thread_step env (Lease_grant_arrives now voter epoch request_id echoed) th = handle_lease_grant env now voter epoch request_id echoed th"
| "thread_step env (Lease_refusal_arrives now voter epoch request_id reason draw) th =
     handle_lease_refusal env now voter epoch request_id reason draw th"
| "thread_step env (Statement_held_arrives arbiter statement alone) th = Inr (handle_statement_held arbiter statement alone th)"
| "thread_step env (Settings_arrive now capacity' fingerprint) th = handle_engine_settings now capacity' fingerprint th"
| "thread_step env (Voided_commands_arrive voids) th = Inr (handle_voided_commands voids th)"
| "thread_step env (Void_declined_arrives command) th = Inr (on_died (void_declined command) th)"
| "thread_step env (Applied_through_arrives highest) th = Inr (on_died (peer_answered highest) th)"
| "thread_step env (Position_query_arrives connection request_id) th = Inr (handle_engine_position_query connection request_id th)"
| "thread_step env (Applied_through_query_arrives connection) th = Inr (handle_applied_through_query connection th)"

text \<open>
  What is relied on: records come on a connection that is up, and an answer names a request, which are numbered from
  one.
\<close>

fun input_ok :: "thread_input \<Rightarrow> engine_thread \<Rightarrow> bool" where
  "input_ok (Record_arrives connection q body) th \<longleftrightarrow> connection \<in> set (th_sequencer_order_conns th)"
| "input_ok (Follow_started_arrives connection started) th \<longleftrightarrow> 1 \<le> fs_request_number started"
| "input_ok _ th \<longleftrightarrow> True"

inductive thread_reach :: "thread_env \<Rightarrow> engine_thread \<Rightarrow> engine_thread \<Rightarrow> bool" for env th0 where
  reach_start: "thread_reach env th0 th0"
| reach_step: "thread_reach env th0 th \<Longrightarrow> input_ok i th \<Longrightarrow> thread_step env i th = Inr th' \<Longrightarrow> thread_reach env th0 th'"

section \<open>The invariant\<close>

text \<open>An instance that leads, or catches up in order to lead.\<close>

definition to_serve :: "engine_role \<Rightarrow> bool" where
  "to_serve r \<longleftrightarrow> ro_situation r = Situation_leading \<or> ro_situation r = Catching_up_to_lead"

text \<open>
  With high availability on: an instance that serves has an agent that leads, and has caught up; no other holds a
  report; and while the question of a command died in is open, nothing has been asked for.
\<close>

definition thread_base :: "engine_thread \<Rightarrow> bool" where
  "thread_base th \<longleftrightarrow>
     th_ha_enabled th \<and> ro_ha_enabled (th_role th) \<and> th_agent th \<noteq> None \<and>
     (to_serve (th_role th) \<longrightarrow> links_leading (th_agent th)) \<and>
     (\<not> to_serve (th_role th) \<longrightarrow> es_held (th_sending th) = []) \<and>
     (ro_situation (th_role th) = Situation_leading \<longrightarrow> ro_catch_up_completed (th_role th)) \<and>
     ro_follow_again_returns_to (th_role th) \<in> {Current, Situation_following} \<and>
     (question_open (th_died th) \<longrightarrow> ec_request_number (th_catch_up th) = 0 \<and> ec_answer_connection (th_catch_up th) = None)"

text \<open>What a catch-up under way has asked for: it has asked if it could, and as one that is to lead or not.\<close>

definition asked_as_it_should :: "engine_thread \<Rightarrow> bool" where
  "asked_as_it_should th \<longleftrightarrow>
     (catching_up (th_role th) \<and> ec_request_sent (th_catch_up th) \<longrightarrow>
        ro_latest_request_asked_to_follow (th_role th) = (\<not> catching_up_to_lead (th_role th)))"

definition thread_ok :: "engine_thread \<Rightarrow> bool" where
  "thread_ok th \<longleftrightarrow>
     thread_base th \<and> asked_as_it_should th \<and>
     (catching_up (th_role th) \<and> th_sequencer_order_conns th \<noteq> [] \<and> \<not> question_open (th_died th) \<longrightarrow> ec_request_sent (th_catch_up th))"

text \<open>What an instance has told the sequencers as one that serves: its reports, and that it leads.\<close>

fun says_it_leads :: "thread_send \<Rightarrow> bool" where
  "says_it_leads (Role_announcement connection role' epoch) \<longleftrightarrow> role' = Leader"
| "says_it_leads _ \<longleftrightarrow> False"

definition told :: "engine_thread \<Rightarrow> (sequencer \<times> report_envelope) list \<times> thread_send list" where
  "told th = (sent (th_sending th), filter says_it_leads (th_sends th))"

definition tells_as_leader :: "engine_thread \<Rightarrow> engine_thread \<Rightarrow> bool" where
  "tells_as_leader th th' \<longleftrightarrow> thread_ok th' \<and> (told th' \<noteq> told th \<longrightarrow> links_leading (th_agent th))"

named_theorems thread_ops \<open>operations of the parts unfolded\<close>

lemmas [thread_ops] = role_moves role_tests catch_up_begin_def catch_up_send_request_def catch_up_links_def send_request_on_def
  record_offered_def follow_from_def stop_following_def ignored_a_record_from_an_earlier_answer_def report_left_out_def
  report_sent_def stop_awaiting_halt_def on_halt_tick_def

lemma filter_lease_sends [simp]: "filter says_it_leads (map Lease_send sends) = []"
  by (induction sends) simp_all

lemma thread_ok_base: "thread_ok th \<Longrightarrow> thread_base th"
  by (simp add: thread_ok_def)

text \<open>A step that leaves alone what the invariant is about.\<close>

definition same_standing :: "engine_thread \<Rightarrow> engine_thread \<Rightarrow> bool" where
  "same_standing th th' \<longleftrightarrow>
     th_ha_enabled th' = th_ha_enabled th \<and> th_role th' = th_role th \<and> th_sequencer_order_conns th' = th_sequencer_order_conns th \<and>
     th_died th' = th_died th \<and> (th_agent th' = None) = (th_agent th = None) \<and> links_leading (th_agent th') = links_leading (th_agent th) \<and>
     ec_request_number (th_catch_up th') = ec_request_number (th_catch_up th) \<and>
     ec_answer_connection (th_catch_up th') = ec_answer_connection (th_catch_up th) \<and>
     ec_request_sent (th_catch_up th') = ec_request_sent (th_catch_up th)"

lemma standing_refl [simp]: "same_standing th th"
  by (simp add: same_standing_def)

lemma standing_trans: "same_standing a b \<Longrightarrow> same_standing b c \<Longrightarrow> same_standing a c"
  by (simp add: same_standing_def)

lemma standing_ok:
  "thread_ok th \<Longrightarrow> same_standing th th' \<Longrightarrow> to_serve (th_role th) \<or> es_held (th_sending th') = [] \<Longrightarrow> thread_ok th'"
  by (cases "to_serve (th_role th)") (simp_all add: thread_ok_def thread_base_def asked_as_it_should_def same_standing_def)

lemma standing_same_ok: "thread_ok th \<Longrightarrow> same_standing th th' \<Longrightarrow> th_sending th' = th_sending th \<Longrightarrow> thread_ok th'"
  using standing_ok [of th th'] by (cases "to_serve (th_role th)") (simp_all add: thread_ok_def thread_base_def)

lemma standing_tells:
  "thread_ok th \<Longrightarrow> same_standing th th' \<Longrightarrow>
     to_serve (th_role th) \<or> th_sending th' = th_sending th \<and> filter says_it_leads (th_sends th') = filter says_it_leads (th_sends th) \<Longrightarrow>
     tells_as_leader th th'"
  using standing_ok [of th th'] by (cases "to_serve (th_role th)") (simp_all add: tells_as_leader_def told_def thread_ok_def thread_base_def)

section \<open>Asking\<close>

text \<open>The parts that asking leaves alone, and what it makes of the others.\<close>

lemma asking_leaves [simp]:
  "th_ha_enabled (asked r th) = th_ha_enabled th" "th_agent (asked r th) = th_agent th" "th_sending (asked r th) = th_sending th"
  "th_died (asked r th) = th_died th" "th_sequencer_order_conns (asked r th) = th_sequencer_order_conns th"
  "told (asked r th) = told th" "th_catch_up (asked r th) = snd r"
  by (simp_all add: asked_def told_def Let_def)

lemma asked_role:
  "th_ha_enabled th \<Longrightarrow> th_role (asked r th) = (if fst r then role_request_sent (catching_up_to_lead (th_role th)) (th_role th) else th_role th)"
  by (simp add: asked_def Let_def)

lemma send_request_effect:
  assumes "catch_up_send_request connections context c = r"
  shows "fst r = (cx_may_ask context \<and> connections \<noteq> [])"
    and "ec_request_sent (snd r) = (fst r \<or> ec_request_sent c)"
    and "\<not> fst r \<Longrightarrow> snd r = c"
  unfolding assms [symmetric]
  by (cases "cx_may_ask context"; cases "connections = []"; simp add: catch_up_send_request_def catch_up_links_def Let_def)+

lemma begin_effect:
  assumes "catch_up_begin connections context c = r"
  shows "fst r = (cx_may_ask context \<and> connections \<noteq> [])" and "ec_request_sent (snd r) = fst r"
    and "\<not> fst r \<Longrightarrow> ec_request_number (snd r) = ec_request_number c"
    and "\<not> fst r \<Longrightarrow> ec_answer_connection (snd r) = ec_answer_connection c"
  unfolding assms [symmetric]
  by (cases "cx_may_ask context"; cases "connections = []"; simp add: catch_up_begin_def catch_up_send_request_def catch_up_links_def Let_def)+

lemma request_role [simp]:
  "ro_situation (role_request_sent b r) = ro_situation r" "ro_ha_enabled (role_request_sent b r) = ro_ha_enabled r"
  "ro_catch_up_completed (role_request_sent b r) = ro_catch_up_completed r"
  "ro_follow_again_returns_to (role_request_sent b r) = ro_follow_again_returns_to r"
  "ro_latest_request_asked_to_follow (role_request_sent b r) = (\<not> b)" "catching_up (role_request_sent b r) = catching_up r"
  "catching_up_to_lead (role_request_sent b r) = catching_up_to_lead r" "to_serve (role_request_sent b r) = to_serve r"
  by (simp_all add: role_request_sent_def role_tests to_serve_def)

lemma may_ask [simp]: "cx_may_ask (catch_up_context th) = (\<not> question_open (th_died th))"
  by (simp add: catch_up_context_def)

lemma begin_reconciliation_ok:
  assumes base: "thread_base th"
  shows "thread_ok (begin_reconciliation th)" and "told (begin_reconciliation th) = told th"
    and "th_agent (begin_reconciliation th) = th_agent th"
proof -
  obtain r where r: "catch_up_begin (th_sequencer_order_conns th) (catch_up_context th) (th_catch_up th) = r" by simp
  have role: "th_role (asked r th) = (if fst r then role_request_sent (catching_up_to_lead (th_role th)) (th_role th) else th_role th)"
    using base by (simp add: asked_role thread_base_def)
  show "thread_ok (begin_reconciliation th)"
    using base begin_effect [OF r] unfolding begin_reconciliation_def r thread_ok_def thread_base_def asked_as_it_should_def
    by (cases "fst r") (auto simp: role)
  show "told (begin_reconciliation th) = told th" "th_agent (begin_reconciliation th) = th_agent th"
    by (simp_all add: begin_reconciliation_def)
qed

lemma send_follow_request_ok:
  assumes base: "thread_base th" "asked_as_it_should th"
  shows "thread_ok (send_follow_request th)" and "told (send_follow_request th) = told th"
proof -
  obtain r where r: "catch_up_send_request (th_sequencer_order_conns th) (catch_up_context th) (th_catch_up th) = r" by simp
  have role: "th_role (asked r th) = (if fst r then role_request_sent (catching_up_to_lead (th_role th)) (th_role th) else th_role th)"
    using base by (simp add: asked_role thread_base_def)
  show "thread_ok (send_follow_request th)"
    using base send_request_effect [OF r] unfolding send_follow_request_def r thread_ok_def thread_base_def asked_as_it_should_def
    by (cases "fst r") (auto simp: role)
  show "told (send_follow_request th) = told th" by (simp add: send_follow_request_def)
qed

lemma follow_the_wal_again_ok:
  assumes "thread_base th" and "\<not> to_serve (th_role th)"
  shows "thread_ok (follow_the_wal_again th)" and "told (follow_the_wal_again th) = told th"
proof -
  let ?th = "on_catch_up stop_following (on_role start_catching_up_to_follow_again th)"
  have "thread_base ?th" using assms by (simp add: thread_base_def to_serve_def thread_ops)
  from begin_reconciliation_ok [OF this] show "thread_ok (follow_the_wal_again th)" "told (follow_the_wal_again th) = told th"
    by (simp_all add: follow_the_wal_again_def told_def)
qed

lemma on_died_ok:
  assumes ok: "thread_ok th" and closes: "question_open (f (th_died th)) \<Longrightarrow> question_open (th_died th)"
  shows "thread_ok (on_died f th)" and "told (on_died f th) = told th"
proof -
  let ?th = "th\<lparr>th_died := f (th_died th)\<rparr>"
  have base: "thread_base ?th" "asked_as_it_should ?th"
    using ok closes by (auto simp: thread_ok_def thread_base_def asked_as_it_should_def)
  have "thread_ok ?th"
    if "\<not> (question_open (th_died th) \<and> \<not> question_open (th_died ?th) \<and> catching_up (th_role ?th) \<and>
       \<not> ec_request_sent (th_catch_up ?th) \<and> th_sequencer_order_conns ?th \<noteq> [])"
    using base ok that by (auto simp: thread_ok_def)
  then show "thread_ok (on_died f th)" "told (on_died f th) = told th"
    using send_follow_request_ok [OF base] by (auto simp: on_died_def role_simps Let_def told_def)
qed

section \<open>Records\<close>

lemma leading_stop_asking [simp]: "links_leading (map_option stop_asking_to_lead agent) = links_leading agent"
  by (cases agent) (simp_all add: links_leading_def)

lemma comparison_standing:
  "same_standing th (on_comparison f th)" "th_sending (on_comparison f th) = th_sending th" "th_sends (on_comparison f th) = th_sends th"
  "th_current_command_follows (on_comparison f th) = th_current_command_follows th"
  by (simp_all add: on_comparison_def same_standing_def Let_def)

text \<open>What is done with a report, and with all those of a command.\<close>

definition reports_kept :: "engine_thread \<Rightarrow> engine_thread \<Rightarrow> bool" where
  "reports_kept th th' \<longleftrightarrow>
     same_standing th th' \<and> th_sends th' = th_sends th \<and> th_current_command_follows th' = th_current_command_follows th \<and>
     (th_current_command_follows th \<longrightarrow> th_sending th' = th_sending th)"

lemma reports_kept_refl [simp]: "reports_kept th th"
  by (simp add: reports_kept_def)

lemma reports_kept_trans: "reports_kept a b \<Longrightarrow> reports_kept b c \<Longrightarrow> reports_kept a c"
  using standing_trans by (auto simp: reports_kept_def)

lemma output_kept: "reports_kept th (deliver_output env out th)"
proof (cases out)
  case (Send_report report q session repeat)
  let ?th = "th\<lparr>th_followed_reports_withheld := th_followed_reports_withheld th + 1\<rparr>"
  have "reports_kept th ?th" by (simp add: reports_kept_def same_standing_def)
  moreover have "reports_kept ?th (on_comparison f ?th)" for f by (simp add: reports_kept_def comparison_standing)
  ultimately have kept: "reports_kept th (thread_keep_report env report q session ?th)"
    unfolding thread_keep_report_def by (rule reports_kept_trans)
  show ?thesis
  proof (cases "th_current_command_follows th")
    case True
    with kept Send_report show ?thesis
      by (simp add: outputs_send_report_def Let_def reports_kept_def same_standing_def report_left_out_def)
  next
    case False
    with Send_report show ?thesis
      by (simp add: outputs_send_report_def Let_def reports_kept_def same_standing_def report_left_out_def report_sent_def send_er_to_sequencer_def)
  qed
qed simp_all

lemma outputs_kept: "reports_kept th (fold (deliver_output env) outs th)"
proof (induction outs arbitrary: th)
  case (Cons out outs)
  from reports_kept_trans [OF output_kept Cons] show ?case by simp
qed simp

lemma consequences_kept: "reports_kept th (command_consequences source q command en th)"
proof (cases command)
  case (Technical_event_command view d)
  then show ?thesis
    by (simp add: Let_def reports_kept_def same_standing_def stop_awaiting_halt_def catch_up_links_def)
next
  case (Void_commands_command view)
  then show ?thesis by (simp add: reports_kept_def comparison_standing)
qed simp_all

lemma source_standing:
  assumes "command_source_for q th = (source, th')"
  shows "same_standing th th' \<and> th_sending th' = th_sending th \<and> th_sends th' = th_sends th \<and>
    th_current_command_follows th' = keeps_its_reports (th_role th)"
  using assms by (auto simp: command_source_for_def Let_def same_standing_def record_offered_def split: if_splits)

lemma apply_command_standing:
  assumes "thread_apply_command env q command ingress th = Inr th'"
  shows "same_standing th th' \<and> th_sends th' = th_sends th \<and> (keeps_its_reports (th_role th) \<longrightarrow> th_sending th' = th_sending th)"
proof -
  define th1 where "th1 = th\<lparr>th_order_ingress_ns := (case command of New_order_command _ _ _ _ \<Rightarrow> ingress | _ \<Rightarrow> None)\<rparr>"
  obtain source th2 where s: "command_source_for q th1 = (source, th2)" by fastforce
  obtain e en where a: "apply_command (tv_engine env) source q command (th_engine th2) = (e, en)" by fastforce
  let ?outs = "drop (length (en_outputs (th_engine th2))) (en_outputs en)"
  define th4 where "th4 = fold (deliver_output env) ?outs (th2\<lparr>th_engine := en\<rparr>)"
  have th': "th' = command_consequences source q command (on_book (book_set_applying q) (th_engine th2)) th4"
    using assms s a unfolding thread_apply_command_def Let_def th1_def [symmetric] th4_def by (auto split: option.splits)
  have 1: "same_standing th th1" "th_sending th1 = th_sending th" "th_sends th1 = th_sends th" "th_role th1 = th_role th"
    by (simp_all add: th1_def same_standing_def)
  note 2 = source_standing [OF s]
  have 3: "same_standing th2 (th2\<lparr>th_engine := en\<rparr>)" by (simp add: same_standing_def)
  note 4 = outputs_kept [of "th2\<lparr>th_engine := en\<rparr>" env ?outs, folded th4_def]
  note 5 = consequences_kept [of th4 source q command "on_book (book_set_applying q) (th_engine th2)", folded th']
  have "same_standing th th'"
    using standing_trans [OF standing_trans [OF 1(1)] standing_trans [OF 3 standing_trans]] 2 4 5 unfolding reports_kept_def by blast
  with 1 2 4 5 show ?thesis by (auto simp: reports_kept_def)
qed

lemma keeps_standing: "same_standing th th' \<Longrightarrow> th_role th' = th_role th"
  by (simp add: same_standing_def)

lemma apply_record_tells:
  assumes ok: "thread_ok th" and r: "apply_record env q body th = Inr th'"
    and serves: "is_order_pdu body \<Longrightarrow> to_serve (th_role th) \<or> keeps_its_reports (th_role th)"
  shows "tells_as_leader th th'"
proof (cases body)
  case (Command_record command ingress)
  with r have a: "thread_apply_command env q command ingress th = Inr th'" by (simp add: apply_record_def)
  from apply_command_standing [OF a] serves Command_record show ?thesis
    by (intro standing_tells [OF ok]) (auto simp: is_order_pdu_def)
next
  case Undecodable_command
  with r show ?thesis by (intro standing_tells [OF ok]) (auto simp: apply_record_def same_standing_def)
next
  case (Report_record answers bytes)
  define th1 where "th1 = (if role (th_role th) = Reconciling then on_catch_up (record_offered q) th else th)"
  have 1: "same_standing th th1" "th_sending th1 = th_sending th" "th_sends th1 = th_sends th"
    by (simp_all add: th1_def same_standing_def record_offered_def)
  from r Report_record have "th' = th1 \<or> (\<exists>f. th' = on_comparison f th1)"
    unfolding apply_record_def by (auto simp: th1_def [symmetric] Let_def split: option.splits if_splits)
  then show ?thesis
    using standing_tells [OF ok 1(1)] standing_tells [OF ok standing_trans [OF 1(1) comparison_standing(1)]] 1
    by (auto simp: comparison_standing)
next
  case Other_record
  with r show ?thesis by (intro standing_tells [OF ok]) (auto simp: apply_record_def)
qed

lemma handle_record_tells:
  assumes ok: "thread_ok th" and input: "connection \<in> set (th_sequencer_order_conns th)" and r: "handle_record env connection q body th = Inr th'"
  shows "tells_as_leader th th'"
proof -
  define th1 where "th1 = th\<lparr>th_order_ingress_ns := None\<rparr>"
  obtain due c where due: "(if following_the_wal (th_role th1) then next_followed_record q (th_catch_up th1) else (True, th_catch_up th1)) = (due, c)"
    by fastforce
  define th2 where "th2 = th1\<lparr>th_catch_up := c\<rparr>"
  have c: "ec_request_number c = ec_request_number (th_catch_up th)" "ec_answer_connection c = ec_answer_connection (th_catch_up th)"
      "ec_request_sent c = ec_request_sent (th_catch_up th)"
    using due by (auto simp: th1_def next_followed_record_def split: if_splits)
  have s2: "same_standing th th2" "th_sending th2 = th_sending th" "th_sends th2 = th_sends th"
    using c by (simp_all add: th2_def th1_def same_standing_def)
  have ok2: "thread_ok th2" using standing_same_ok [OF ok s2(1,2)] .
  have links: "links_leading (th_agent th2) = links_leading (th_agent th)" "told th2 = told th"
    using s2 by (simp_all add: same_standing_def told_def)
  have via: "tells_as_leader th th'" if "tells_as_leader th2 th'" using that links by (simp add: tells_as_leader_def)
  have run: "(if \<not> due then Inr (follow_the_wal_again th2)
         else if role (th_role th2) = Reconciling \<and> from_an_earlier_answer connection (th_catch_up th2)
         then Inr (on_catch_up ignored_a_record_from_an_earlier_answer th2)
         else if is_order_pdu body \<and> role (th_role th2) = Follower \<and> \<not> following_the_wal (th_role th2) then Inr th2
         else if is_order_pdu body \<and> th_ha_enabled th2 \<and> role (th_role th2) = Unknown \<and> \<not> following_the_wal (th_role th2)
         then Inr (on_role command_discarded_without_a_lease th2)
         else apply_record env q body th2) = Inr th'"
    using r unfolding handle_record_def Let_def th1_def [symmetric] due prod.case th2_def [symmetric] .
  show ?thesis
  proof (rule via, cases due)
    case False
    with due have "following_the_wal (th_role th2)" by (auto simp: th2_def th1_def split: if_splits)
    then have "\<not> to_serve (th_role th2)" by (auto simp: following_the_wal_def to_serve_def catching_up_def)
    with follow_the_wal_again_ok [OF thread_ok_base [OF ok2]] run False show "tells_as_leader th2 th'" by (auto simp: tells_as_leader_def)
  next
    case True
    have base: "thread_base th2" using ok2 by (rule thread_ok_base)
    consider (earlier) "th' = on_catch_up ignored_a_record_from_an_earlier_answer th2" | (same) "th' = th2"
      | (discard) "th' = on_role command_discarded_without_a_lease th2" "role (th_role th2) = Unknown"
      | (applies) "apply_record env q body th2 = Inr th'"
        "is_order_pdu body \<Longrightarrow> role (th_role th2) = Reconciling \<Longrightarrow> ec_answer_connection (th_catch_up th2) = Some connection"
        "is_order_pdu body \<Longrightarrow> role (th_role th2) \<noteq> Reconciling \<Longrightarrow> role (th_role th2) = Leader \<or> following_the_wal (th_role th2)"
    proof -
      have ha: "th_ha_enabled th2" using base by (simp add: thread_base_def)
      show ?thesis
      proof (cases "role (th_role th2) = Reconciling \<and> from_an_earlier_answer connection (th_catch_up th2)")
        case True
        with run \<open>due\<close> have "th' = on_catch_up ignored_a_record_from_an_earlier_answer th2" by simp
        then show ?thesis by (rule that(1))
      next
        case connection: False
        show ?thesis
        proof (cases "is_order_pdu body \<and> role (th_role th2) \<noteq> Reconciling \<and> role (th_role th2) \<noteq> Leader \<and> \<not> following_the_wal (th_role th2)")
          case True
          then have "role (th_role th2) = Follower \<or> role (th_role th2) = Unknown" using me_role.exhaust by blast
          then show ?thesis using True run \<open>due\<close> ha connection that(2,3) by (elim disjE) simp_all
        next
          case False
          with run \<open>due\<close> connection have "apply_record env q body th2 = Inr th'" by auto
          then show ?thesis by (rule that(4)) (use False connection in \<open>auto simp: from_an_earlier_answer_def\<close>)
        qed
      qed
    qed
    then show "tells_as_leader th2 th'"
    proof cases
      case earlier
      then show ?thesis
        by (intro standing_tells [OF ok2]) (simp_all add: same_standing_def ignored_a_record_from_an_earlier_answer_def)
    next
      case same
      then show ?thesis by (intro standing_tells [OF ok2]) simp_all
    next
      case discard
      then show ?thesis
        using ok2
        by (simp add: tells_as_leader_def told_def thread_ok_def thread_base_def asked_as_it_should_def role_simps role_tests to_serve_def
            command_discarded_without_a_lease_def) auto
    next
      case applies
      have "to_serve (th_role th2) \<or> keeps_its_reports (th_role th2)" if "is_order_pdu body"
      proof (cases "role (th_role th2) = Reconciling")
        case True
        with applies(2) [OF that] have "\<not> question_open (th_died th2)" using base by (auto simp: thread_base_def)
        moreover have "th_sequencer_order_conns th2 \<noteq> []" using input by (auto simp: th2_def th1_def)
        ultimately have "ro_latest_request_asked_to_follow (th_role th2) = (\<not> catching_up_to_lead (th_role th2))"
          using ok2 True by (simp add: thread_ok_def asked_as_it_should_def role_simps)
        then show ?thesis using base True
          by (auto simp: keeps_its_reports_def to_serve_def catching_up_to_lead_def thread_base_def)
      next
        case False
        from applies(3) [OF that this] show ?thesis by (auto simp: role_simps to_serve_def following_the_wal_def keeps_its_reports_def)
      qed
      with apply_record_tells [OF ok2 applies(1)] show ?thesis by simp
    qed
  qed
qed

section \<open>The lease\<close>

lemma tells_same: "thread_ok th' \<Longrightarrow> told th' = told th \<Longrightarrow> tells_as_leader th th'"
  by (simp add: tells_as_leader_def)

lemma epoch_standing [simp]:
  "thread_base (set_epoch env e th) = thread_base th" "thread_ok (set_epoch env e th) = thread_ok th" "told (set_epoch env e th) = told th"
  "th_agent (set_epoch env e th) = th_agent th" "th_role (set_epoch env e th) = th_role th" "th_ha_enabled (set_epoch env e th) = th_ha_enabled th"
  "th_settings (set_epoch env e th) = th_settings th" "th_sending (set_epoch env e th) = th_sending th"
  by (simp_all add: set_epoch_def record_epoch_def thread_ok_def thread_base_def asked_as_it_should_def told_def)

lemma announce_standing [simp]:
  "same_standing th (announce_role th)" "th_sending (announce_role th) = th_sending th" "th_agent (announce_role th) = th_agent th"
  "th_role (announce_role th) = th_role th" "thread_base (announce_role th) = thread_base th" "thread_ok (announce_role th) = thread_ok th"
  "th_ha_enabled (announce_role th) = th_ha_enabled th" "th_epoch (announce_role th) = th_epoch th"
  by (simp_all add: announce_role_def same_standing_def thread_ok_def thread_base_def asked_as_it_should_def)

lemma announce_told: "role (th_role th) \<noteq> Leader \<Longrightarrow> told (announce_role th) = told th"
  by (simp add: announce_role_def told_def split: option.split)

lemma discard_sent [simp]: "sent (sending_discard st) = sent st" "es_held (sending_discard st) = []"
  by (simp_all add: sending_discard_def sent_def report_link_event_def)

text \<open>Following needs of the invariant only what does not depend on what the instance was doing.\<close>

definition thread_bare :: "engine_thread \<Rightarrow> bool" where
  "thread_bare th \<longleftrightarrow>
     th_ha_enabled th \<and> ro_ha_enabled (th_role th) \<and> th_agent th \<noteq> None \<and>
     ro_follow_again_returns_to (th_role th) \<in> {Current, Situation_following} \<and>
     (question_open (th_died th) \<longrightarrow> ec_request_number (th_catch_up th) = 0 \<and> ec_answer_connection (th_catch_up th) = None)"

lemma thread_ok_bare: "thread_ok th \<Longrightarrow> thread_bare th"
  by (simp add: thread_ok_def thread_base_def thread_bare_def)

lemma enter_follower_state_ok:
  assumes "thread_bare th"
  shows "thread_ok (enter_follower_state th)" and "told (enter_follower_state th) = told th"
proof -
  let ?thx = "on_sending sending_discard (on_role became_follower th)"
  have r: "\<not> to_serve (th_role ?thx)" "role (th_role ?thx) = Follower" "\<not> catching_up (th_role ?thx)"
    by (simp_all add: to_serve_def became_follower_def role_tests)
  have ok: "thread_ok ?thx"
    using assms r by (simp add: thread_ok_def thread_base_def thread_bare_def asked_as_it_should_def became_follower_def)
  have t: "told (announce_role ?thx) = told th" using r by (subst announce_told) (simp_all add: told_def)
  from follow_the_wal_again_ok [of "announce_role ?thx"] ok t r(1)
  show "thread_ok (enter_follower_state th)" "told (enter_follower_state th) = told th"
    unfolding enter_follower_state_def Let_def by (simp_all add: thread_ok_base)
qed

lemma follow_peer_ok:
  assumes "thread_ok th"
  shows "thread_ok (snd (follow_peer_claiming_leadership env e th))" and "told (snd (follow_peer_claiming_leadership env e th)) = told th"
  using enter_follower_state_ok [of "set_epoch env e th"] assms thread_ok_bare [of "set_epoch env e th"]
  by (simp_all add: follow_peer_claiming_leadership_def)

lemma become_leader_ok:
  assumes "thread_base th" and "\<not> catching_up (th_role th) \<or> thread_ok th" and "links_leading (th_agent th)"
  shows "thread_ok (become_leader_when_current th) \<and> told (become_leader_when_current th) = told th"
proof (cases "role (th_role th) = Leader")
  case True
  then have "\<not> catching_up (th_role th)" by (simp add: role_simps catching_up_def)
  with True assms show ?thesis by (simp add: become_leader_when_current_def thread_ok_def asked_as_it_should_def)
next
  case False
  have "thread_base (on_role start_catching_up_to_lead th)" using assms by (simp add: thread_base_def to_serve_def thread_ops)
  from begin_reconciliation_ok [OF this] False show ?thesis by (simp add: become_leader_when_current_def told_def)
qed

lemma bar_peer_ok:
  assumes ok: "thread_ok th" and r: "bar_peer now th = Inr th'"
  shows "thread_ok th' \<and> told th' = told th"
proof (cases "th_settings th")
  case None
  with r ok show ?thesis by (simp add: bar_peer_def)
next
  case (Some c)
  with r obtain barred sends agent' c' where b: "bar_peer_if_settings_differ now (th_agent th) c = Inr (barred, sends, agent', c')"
    and th': "th' = thread_sends (map Lease_send sends) (th\<lparr>th_agent := agent', th_settings := Some c'\<rparr>)"
    by (auto simp: bar_peer_def bind_result_eq_Inr)
  have "same_standing th th'" using bar_peer_leading [OF b] by (simp add: th' same_standing_def)
  from standing_same_ok [OF ok this] show ?thesis by (simp add: th' told_def)
qed

text \<open>
  An agent's answer: the agent it leaves leads if it says it has begun to, or if it led before and does not say that it
  has stopped.
\<close>

lemma act_on_ok:
  assumes ok: "thread_ok th" and r: "act_on env now change (th\<lparr>th_agent := Some a\<rparr>) = Inr th'"
    and leads: "change = BecameLeader \<or> links_leading (th_agent th) \<and> change \<noteq> StoppedLeading \<Longrightarrow> agent_leading a"
  shows "thread_ok th' \<and> told th' = told th"
proof -
  let ?th = "set_epoch env (agent_highest_epoch a) (th\<lparr>th_agent := Some a\<rparr>)"
  have told: "told ?th = told th" by simp (simp add: told_def)
  have th: "thread_ok (th\<lparr>th_agent := Some a\<rparr>)" if "change \<noteq> StoppedLeading"
    using ok leads that by (auto simp: thread_ok_def thread_base_def asked_as_it_should_def links_leading_def)
  show ?thesis
  proof (cases change)
    case NoChange
    with r th told show ?thesis by (auto simp: act_on_def Let_def)
  next
    case BecameLeader
    then have "links_leading (th_agent ?th)" using leads by (simp add: links_leading_def)
    with th BecameLeader have "thread_ok (become_leader_when_current ?th) \<and> told (become_leader_when_current ?th) = told ?th"
      by (intro become_leader_ok) (simp_all add: thread_ok_base)
    moreover have "bar_peer now (become_leader_when_current ?th) = Inr th'" using r BecameLeader by (simp add: act_on_def Let_def)
    ultimately show ?thesis using bar_peer_ok told by metis
  next
    case StoppedLeading
    let ?thx = "on_catch_up stop_awaiting_halt ?th"
    have "thread_bare ?thx"
      using ok by (simp add: thread_ok_def thread_base_def thread_bare_def stop_awaiting_halt_def catch_up_links_def set_epoch_def record_epoch_def)
    moreover have "told ?thx = told th" using told by (simp add: told_def)
    ultimately show ?thesis using enter_follower_state_ok [of ?thx] r StoppedLeading by (simp add: act_on_def Let_def)
  next
    case AgreedPeerLeads
    have ok': "thread_ok ?th" using th AgreedPeerLeads by simp
    have "thread_ok (on_role (note_peer_leader (pa_peer_id a) (agent_highest_epoch a)) ?th)"
      using ok' by (simp add: thread_ok_def thread_base_def asked_as_it_should_def to_serve_def role_tests note_peer_leader_def)
    with AgreedPeerLeads r ok' told follow_peer_ok [OF ok'] show ?thesis
      by (auto simp: act_on_def Let_def told_def split: if_splits)
  qed
qed

lemma agent_answered_tells:
  assumes ok: "thread_ok th" and r: "agent_answered env now (Inr (change, sends, a)) th = Inr th'"
    and leads: "change = BecameLeader \<or> links_leading (th_agent th) \<and> change \<noteq> StoppedLeading \<Longrightarrow> agent_leading a"
  shows "tells_as_leader th th'"
proof -
  let ?th = "thread_sends (map Lease_send sends) th"
  have swap: "thread_sends (map Lease_send sends) (th\<lparr>th_agent := Some a\<rparr>) = ?th\<lparr>th_agent := Some a\<rparr>" by simp
  have "thread_ok ?th" using ok by (simp add: thread_ok_def thread_base_def asked_as_it_should_def)
  moreover have "act_on env now change (?th\<lparr>th_agent := Some a\<rparr>) = Inr th'"
    using r unfolding agent_answered_def by (simp only: bind_result_simps prod.case swap)
  ultimately have "thread_ok th' \<and> told th' = told ?th" using leads by (intro act_on_ok) simp_all
  then show ?thesis by (simp add: tells_as_leader_def told_def)
qed

lemma record_before_asking_standing [simp]:
  "thread_ok (record_before_asking env a a' th) = thread_ok th" "told (record_before_asking env a a' th) = told th"
  "th_agent (record_before_asking env a a' th) = th_agent th"
  by (simp_all add: record_before_asking_def record_epoch_def Let_def thread_ok_def thread_base_def asked_as_it_should_def told_def)

lemma agent_of: "thread_ok th \<Longrightarrow> \<exists>a. th_agent th = Some a"
  by (auto simp: thread_ok_def thread_base_def)

lemma tick_change: "agent_on_tick a now draw took = Inr (ch, sends, b) \<Longrightarrow> ch \<in> {NoChange, StoppedLeading}"
  by (auto simp: agent_on_tick_def tick_ran_out_def bind_result_eq_Inr Let_def split: prod.splits if_splits)

lemma lease_tells:
  assumes ok: "thread_ok th"
  shows "lease_tick env now draw took th = Inr th' \<Longrightarrow> tells_as_leader th th'"
    and "handle_lease_request env now connection candidate epoch' request_id statement th = Inr th' \<Longrightarrow> tells_as_leader th th'"
    and "handle_lease_grant env now voter epoch' request_id echoed th = Inr th' \<Longrightarrow> tells_as_leader th th'"
    and "handle_lease_refusal env now voter epoch' request_id reason draw th = Inr th' \<Longrightarrow> tells_as_leader th th'"
proof -
  from agent_of [OF ok] obtain a where a: "th_agent th = Some a" by blast
  then have lead: "links_leading (th_agent th) = agent_leading a" by (simp add: links_leading_def)
  show "tells_as_leader th th'" if r: "lease_tick env now draw took th = Inr th'"
  proof -
    from r a obtain ch sends b where t: "agent_on_tick a now draw took = Inr (ch, sends, b)"
      and ans: "agent_answered env now (Inr (ch, sends, b)) (record_before_asking env a b th) = Inr th'"
      by (auto simp: lease_tick_def bind_result_eq_Inr)
    have "tells_as_leader (record_before_asking env a b th) th'"
      by (rule agent_answered_tells [OF _ ans]) (use ok lead tick_leading [OF t] tick_change [OF t] in auto)
    then show ?thesis by (simp add: tells_as_leader_def)
  qed
  show "tells_as_leader th th'" if r: "handle_lease_request env now connection candidate epoch' request_id statement th = Inr th'"
  proof -
    from r a obtain ch sends b where t: "agent_on_request a connection candidate epoch' request_id statement now = Inr (ch, sends, b)"
      and ans: "agent_answered env now (Inr (ch, sends, b)) th = Inr th'"
      by (cases "agent_on_request a connection candidate epoch' request_id statement now") (auto simp: handle_lease_request_def agent_answered_def)
    have "ch \<noteq> BecameLeader" using t by (rule on_request_parts) auto
    then show ?thesis by (intro agent_answered_tells [OF ok ans]) (use lead request_leading [OF t] in auto)
  qed
  show "tells_as_leader th th'" if r: "handle_lease_grant env now voter epoch' request_id echoed th = Inr th'"
  proof -
    from r a obtain ch sends b where t: "agent_on_grant a voter epoch' request_id echoed now = Inr (ch, sends, b)"
      and ans: "agent_answered env now (Inr (ch, sends, b)) th = Inr th'"
      by (cases "agent_on_grant a voter epoch' request_id echoed now") (auto simp: handle_lease_grant_def agent_answered_def)
    show ?thesis by (rule agent_answered_tells [OF ok ans]) (use lead grant_leading [OF t] in auto)
  qed
  show "tells_as_leader th th'" if r: "handle_lease_refusal env now voter epoch' request_id reason draw th = Inr th'"
  proof -
    obtain ch b where t: "agent_on_refusal a voter epoch' request_id reason now draw = (ch, b)" by fastforce
    with r a have ans: "agent_answered env now (Inr (ch, [], b)) th = Inr th'" by (simp add: handle_lease_refusal_def)
    have "ch \<noteq> BecameLeader" using t by (auto simp: agent_on_refusal_def Let_def split: if_splits prod.splits)
    then show ?thesis by (intro agent_answered_tells [OF ok ans]) (use lead refusal_leading [OF t] in auto)
  qed
qed

section \<open>Catching up\<close>

lemma kept_reports_standing: "same_standing th (send_kept_reports_after q th)" "th_sends (send_kept_reports_after q th) = th_sends th"
  by (simp_all add: send_kept_reports_after_def same_standing_def split: prod.split)

lemma follow_started_tells:
  assumes ok: "thread_ok th" and number: "1 \<le> fs_request_number started"
  shows "tells_as_leader th (handle_follow_started connection started th)"
proof (cases "fst (catch_up_started connection started (role (th_role th) = Reconciling) (th_catch_up th))")
  case False
  then have "handle_follow_started connection started th = th"
    by (auto simp: handle_follow_started_def catch_up_started_def split: if_splits)
  then show ?thesis using ok by (simp add: tells_as_leader_def)
next
  case True
  let ?c = "snd (catch_up_started connection started (role (th_role th) = Reconciling) (th_catch_up th))"
  define th1 where "th1 = th\<lparr>th_catch_up := ?c\<rparr>"
  have c: "ec_request_number ?c = ec_request_number (th_catch_up th)" "ec_request_sent ?c = ec_request_sent (th_catch_up th)"
      "fs_request_number started = ec_request_number (th_catch_up th)"
    using True by (auto simp: catch_up_started_def split: if_splits)
  have "\<not> question_open (th_died th)" using ok c number by (auto simp: thread_ok_def thread_base_def)
  then have ok1: "thread_ok th1" using ok c by (simp add: th1_def thread_ok_def thread_base_def asked_as_it_should_def)
  define th2 where "th2 = (if ro_latest_request_asked_to_follow (th_role th1)
                     then on_comparison (start_keeping_after (fs_after_seq_no started)) th1 else th1)"
  have s2: "same_standing th1 th2" "th_sending th2 = th_sending th1" "th_sends th2 = th_sends th1"
    by (simp_all add: th2_def comparison_standing)
  have th': "handle_follow_started connection started th =
      (if catching_up_to_lead (th_role th2) then send_kept_reports_after (ec_reports_in_wal_through (th_catch_up th2)) th2 else th2)"
    using True unfolding handle_follow_started_def th2_def th1_def Let_def by (auto split: prod.splits)
  have "tells_as_leader th1 (handle_follow_started connection started th)"
  proof (cases "catching_up_to_lead (th_role th2)")
    case True
    with s2 have "to_serve (th_role th1)" by (simp add: same_standing_def to_serve_def catching_up_to_lead_def)
    then show ?thesis unfolding th' using True standing_trans [OF s2(1) kept_reports_standing(1)]
      by (intro standing_tells [OF ok1]) simp_all
  next
    case False
    then show ?thesis unfolding th' using s2 by (intro standing_tells [OF ok1]) simp_all
  qed
  then show ?thesis by (simp add: tells_as_leader_def th1_def told_def)
qed

lemma peer_leader_heard_ok:
  assumes "thread_ok th"
  shows "thread_ok (act_on_peer_leader_heard_while_reconciling env th)" and "told (act_on_peer_leader_heard_while_reconciling env th) = told th"
proof -
  let ?th = "th\<lparr>th_role := (th_role th)\<lparr>ro_peer_leader := None\<rparr>\<rparr>"
  have "thread_ok ?th" using assms by (simp add: thread_ok_def thread_base_def asked_as_it_should_def to_serve_def role_tests)
  from follow_peer_ok [OF this] this
  show "thread_ok (act_on_peer_leader_heard_while_reconciling env th)" "told (act_on_peer_leader_heard_while_reconciling env th) = told th"
    by (auto simp: act_on_peer_leader_heard_while_reconciling_def take_peer_leader_note_def told_def Let_def split: option.split)
qed

lemma unusable_region_standing:
  "same_standing th (on_catch_up (account_for_unusable_region ack alone) th)"
  by (simp add: same_standing_def account_for_unusable_region_def catch_up_links_def)

lemma finish_catch_up_tells:
  assumes ok: "thread_ok th" and role: "catching_up (th_role th)" "ro_situation (th_role th) \<noteq> Catching_up_to_follow_again"
  shows "tells_as_leader th (finish_catch_up env ack th)"
proof -
  define th1 where "th1 = (if book_can_be_vouched_for th then th
                else on_catch_up (account_for_unusable_region ack (\<not> th_ha_enabled th \<or> catching_up_to_lead (th_role th))) th)"
  have s1: "same_standing th th1" "th_sending th1 = th_sending th" "th_sends th1 = th_sends th"
    using unusable_region_standing by (auto simp: th1_def)
  have ok1: "thread_ok th1" using standing_same_ok [OF ok s1(1,2)] .
  have via: "tells_as_leader th th'" if "tells_as_leader th1 th'" for th'
    using that s1 by (simp add: tells_as_leader_def same_standing_def told_def)
  have role1: "th_role th1 = th_role th" using s1(1) by (simp add: same_standing_def)
  show ?thesis
  proof (cases "ro_situation (th_role th) = Catching_up_to_lead")
    case True
    define th2 where "th2 = th1\<lparr>th_role := (th_role th1)\<lparr>ro_catch_up_completed := True, ro_situation := Current\<rparr>, th_resumed_through := fu_last_seq_no ack\<rparr>"
    have f: "finish_catch_up env ack th = adopt_leader_role th2"
      using True role1 unfolding finish_catch_up_def th1_def [symmetric] Let_def
      by (simp add: catch_up_completed_now_def th2_def)
    have lead: "links_leading (th_agent th1)" using ok1 True role1 by (simp add: thread_ok_def thread_base_def to_serve_def)
    let ?thl = "on_role became_leader th2"
    have okl: "thread_ok ?thl"
      using ok1 lead by (simp add: th2_def thread_ok_def thread_base_def asked_as_it_should_def to_serve_def became_leader_def role_tests)
    have "same_standing ?thl (on_sending g (announce_role ?thl))" for g
      using announce_standing(1) [of ?thl] by (simp add: same_standing_def)
    moreover have "to_serve (th_role ?thl)" by (simp add: to_serve_def became_leader_def)
    moreover have "role (th_role th2) \<noteq> Leader" by (simp add: th2_def role_tests)
    ultimately have "thread_ok (adopt_leader_role th2)" using standing_ok [OF okl] by (simp add: adopt_leader_role_def)
    then show ?thesis unfolding f using lead by (intro via) (simp add: tells_as_leader_def)
  next
    case False
    define th2 where "th2 = th1\<lparr>th_role := (th_role th1)\<lparr>ro_catch_up_completed := True, ro_situation := Current\<rparr>\<rparr>"
    have now: "catch_up_completed_now (th_role th1) = (Became_current, th_role th2)"
      using False role role1 by (auto simp: catch_up_completed_now_def th2_def catching_up_def)
    define th3 where "th3 = (if ro_latest_request_asked_to_follow (th_role th2) then on_catch_up (follow_from (fu_last_seq_no ack + 1)) th2 else th2)"
    have f: "finish_catch_up env ack th = (if ob_halted (en_book (th_engine th3)) then th3 else act_on_peer_leader_heard_while_reconciling env th3)"
      unfolding finish_catch_up_def th1_def [symmetric] Let_def now prod.case th3_def by (simp add: th2_def)
    have "\<not> to_serve (th_role th1)" using False role role1 by (auto simp: to_serve_def catching_up_def)
    then have ok2: "thread_ok th2"
      using ok1 by (simp add: th2_def thread_ok_def thread_base_def asked_as_it_should_def to_serve_def role_tests)
    have "same_standing th2 th3" "th_sending th3 = th_sending th2" "th_sends th3 = th_sends th2"
      by (simp_all add: th3_def same_standing_def follow_from_def)
    then have ok3: "thread_ok th3" and told3: "told th3 = told th1"
      using standing_same_ok [OF ok2] by (simp_all add: told_def th2_def)
    from peer_leader_heard_ok [OF ok3] ok3 told3 show ?thesis unfolding f by (intro via) (auto simp: tells_as_leader_def)
  qed
qed

lemma caught_up_tells:
  assumes ok: "thread_ok th"
  shows "tells_as_leader th (handle_caught_up env ack th)"
proof (cases "role (th_role th) = Reconciling \<and> fst (caught_up ack (th_catch_up th)) = Complete_answer")
  case False
  have "snd (caught_up ack (th_catch_up th)) = th_catch_up th" if "fst (caught_up ack (th_catch_up th)) \<noteq> Complete_answer"
    using that by (auto simp: caught_up_def split: if_splits)
  then have "handle_caught_up env ack th = th"
    using False by (auto simp: handle_caught_up_def split: prod.split catch_up_answer.split)
  then show ?thesis using ok by (simp add: tells_as_leader_def)
next
  case True
  obtain c where c: "caught_up ack (th_catch_up th) = (Complete_answer, c)" using True by (metis prod.collapse)
  define th1 where "th1 = on_engine (note_caught_up_to (fu_last_seq_no ack)) (th\<lparr>th_catch_up := c\<rparr>)"
  have s1: "same_standing th th1" "th_sending th1 = th_sending th" "th_sends th1 = th_sends th"
    using c by (auto simp: th1_def same_standing_def caught_up_def catch_up_links_def split: if_splits)
  have ok1: "thread_ok th1" using standing_same_ok [OF ok s1(1,2)] .
  have r: "catching_up (th_role th1)" using True s1(1) by (simp add: role_simps same_standing_def)
  have th': "handle_caught_up env ack th =
      (if ro_situation (th_role th1) = Catching_up_to_follow_again
       then on_catch_up (follow_from (fu_last_seq_no ack + 1)) (on_role (snd \<circ> catch_up_completed_now) th1)
       else finish_catch_up env ack th1)"
    using True c unfolding handle_caught_up_def th1_def Let_def by simp
  have via: "tells_as_leader th th'" if "tells_as_leader th1 th'" for th'
    using that s1 by (simp add: tells_as_leader_def same_standing_def told_def)
  show ?thesis
  proof (cases "ro_situation (th_role th1) = Catching_up_to_follow_again")
    case False
    with finish_catch_up_tells [OF ok1 r] show ?thesis unfolding th' by (intro via) simp
  next
    case again: True
    have ret: "ro_follow_again_returns_to (th_role th1) \<in> {Current, Situation_following}"
      using ok1 by (simp add: thread_ok_def thread_base_def)
    then have "thread_ok (on_catch_up (follow_from (fu_last_seq_no ack + 1)) (on_role (snd \<circ> catch_up_completed_now) th1))"
      using ok1 again by (auto simp: thread_ok_def thread_base_def asked_as_it_should_def to_serve_def role_tests catch_up_completed_now_def follow_from_def)
    then show ?thesis unfolding th' using again by (intro via tells_same) (simp_all add: told_def)
  qed
qed

lemma leader_changed_tells:
  assumes ok: "thread_ok th"
  shows "tells_as_leader th (handle_leader_changed th)"
proof (cases "following_the_wal (th_role th)")
  case True
  then have "\<not> to_serve (th_role th)" by (auto simp: following_the_wal_def to_serve_def catching_up_def)
  from follow_the_wal_again_ok [OF thread_ok_base [OF ok] this] True show ?thesis by (simp add: handle_leader_changed_def tells_same)
next
  case False
  have "thread_ok (send_follow_request th)" "told (send_follow_request th) = told th"
    using send_follow_request_ok [of th] ok by (simp_all add: thread_ok_def)
  with False ok show ?thesis by (auto simp: handle_leader_changed_def intro: tells_same)
qed

lemma retry_tick_tells:
  assumes ok: "thread_ok th"
  shows "tells_as_leader th (retry_tick th)"
proof -
  let ?asks = "catching_up (th_role th) \<and> \<not> question_open (th_died th) \<and> th_sequencer_order_conns th \<noteq> [] \<and>
    ec_records_seen (th_catch_up th) = ec_records_at_last_tick (th_catch_up th)"
  let ?c = "(th_catch_up th)\<lparr>ec_attempts := ec_attempts (th_catch_up th) + 1\<rparr>"
  have told: "told (retry_tick th) = told th" by (simp add: retry_tick_def told_def)
  show ?thesis
  proof (cases ?asks)
    case True
    then have c: "th_catch_up (retry_tick th) = snd (catch_up_send_request (th_sequencer_order_conns th) (catch_up_context th) ?c)"
      by (simp add: retry_tick_def on_retry_tick_def role_simps)
    have "fst (catch_up_send_request (th_sequencer_order_conns th) (catch_up_context th) ?c)"
      using send_request_effect(1) [OF refl] True by simp
    with send_request_effect(2) [OF refl] c have "ec_request_sent (th_catch_up (retry_tick th))" by simp
    moreover have "ec_request_sent (th_catch_up th)" using ok True by (simp add: thread_ok_def)
    ultimately have "thread_ok (retry_tick th)"
      using ok True by (simp add: retry_tick_def thread_ok_def thread_base_def asked_as_it_should_def)
    then show ?thesis using told by (rule tells_same)
  next
    case False
    then have "same_standing th (retry_tick th)"
      by (auto simp: same_standing_def retry_tick_def on_retry_tick_def catch_up_links_def role_simps Let_def)
    moreover have "th_sending (retry_tick th) = th_sending th" by (simp add: retry_tick_def)
    ultimately show ?thesis using told by (intro tells_same standing_same_ok [OF ok])
  qed
qed

section \<open>Voids and connections\<close>

lemma voided_kept: "reports_kept th (learn_voided voided th)"
proof -
  obtain l en where l: "learn_void voided (th_engine th) = (l, en)" by fastforce
  let ?th = "th\<lparr>th_engine := en\<rparr>"
  have "reports_kept th ?th" by (simp add: reports_kept_def same_standing_def)
  moreover have "reports_kept ?th (on_comparison f ?th)" for f by (simp add: reports_kept_def comparison_standing)
  ultimately show ?thesis using l reports_kept_trans by (simp add: learn_voided_def Let_def)
qed

lemma voided_sending: "th_sending (learn_voided voided th) = th_sending th"
  by (simp add: learn_voided_def comparison_standing Let_def split: prod.split)

lemma voids_standing:
  "same_standing th (fold learn_voided voids th) \<and> th_sending (fold learn_voided voids th) = th_sending th \<and>
   th_sends (fold learn_voided voids th) = th_sends th"
proof (induction voids arbitrary: th)
  case (Cons v voids)
  from Cons [of "learn_voided v th"] voided_kept [of th v] voided_sending [of v th] show ?case
    using standing_trans by (fastforce simp: reports_kept_def)
qed simp

lemma question_moves:
  "question_open (peer_connected peer d) \<Longrightarrow> question_open d" "question_open (sequencer_connected d) = question_open d"
  "question_open (peer_answered highest d) \<Longrightarrow> question_open d" "question_open (peer_answer_timer_fired d) \<Longrightarrow> question_open d"
  "question_open (void_request_timer_fired d) \<Longrightarrow> question_open d" "question_open (voids_learned b d) \<Longrightarrow> question_open d"
  "question_open (void_declined command d) \<Longrightarrow> question_open d"
  by (auto simp: question_open_def died_defs split: if_splits option.splits)

lemma voided_commands_tells:
  assumes ok: "thread_ok th"
  shows "tells_as_leader th (handle_voided_commands voids th)"
proof -
  let ?th = "fold learn_voided voids th"
  have "thread_ok ?th" using voids_standing [of th voids] by (intro standing_same_ok [OF ok]) simp_all
  moreover have "told ?th = told th" using voids_standing [of th voids] by (simp add: told_def)
  ultimately show ?thesis using on_died_ok [of ?th] question_moves(6) by (auto simp: handle_voided_commands_def Let_def intro!: tells_same)
qed

lemma sequencer_connection_tells:
  assumes ok: "thread_ok th"
  shows "tells_as_leader th (sequencer_order_connection connection th)"
proof -
  let ?conns = "List.insert connection (th_sequencer_order_conns th)"
  define th1 where "th1 = th\<lparr>th_sequencer_order_conns := ?conns, th_died := sequencer_connected (th_died th)\<rparr>"
  have d: "on_died sequencer_connected (th\<lparr>th_sequencer_order_conns := ?conns\<rparr>) = th1"
    by (auto simp: on_died_def th1_def question_moves(2) Let_def)
  have told: "told th1 = told th" by (simp add: th1_def told_def)
  have base: "thread_base th1" using ok by (simp add: th1_def thread_ok_def thread_base_def question_moves(2))
  consider (asking) "catching_up (th_role th)" | (first) "\<not> catching_up (th_role th)" "\<not> ro_catch_up_completed (th_role th)" "role (th_role th) \<noteq> Follower"
    | (neither) "\<not> catching_up (th_role th)" "\<not> (\<not> ro_catch_up_completed (th_role th) \<and> role (th_role th) \<noteq> Follower)" by blast
  then show ?thesis
  proof cases
    case asking
    then have "\<not> following_the_wal (th_role th1)" by (simp add: th1_def following_the_wal_def)
    have th': "sequencer_order_connection connection th = ask_on_new_sequencer_connection connection th1"
      unfolding sequencer_order_connection_def d Let_def using asking by (simp add: th1_def role_simps)
    show ?thesis
    proof (cases "ec_request_sent (th_catch_up th1)")
      case False
      with begin_reconciliation_ok [OF base] told show ?thesis
        unfolding th' ask_on_new_sequencer_connection_def by (simp add: tells_same)
    next
      case True
      have "thread_ok (on_catch_up (send_request_on connection (catch_up_context th1)) th1)"
        using ok True by (simp add: th1_def thread_ok_def thread_base_def asked_as_it_should_def send_request_on_def catch_up_links_def question_moves(2))
      with True \<open>\<not> following_the_wal (th_role th1)\<close> told show ?thesis
        unfolding th' ask_on_new_sequencer_connection_def by (simp add: tells_same told_def)
    qed
  next
    case first
    have "ro_situation (th_role th) \<noteq> Situation_leading" using ok first by (auto simp: thread_ok_def thread_base_def)
    with first have "\<not> to_serve (th_role th1)" by (auto simp: th1_def to_serve_def catching_up_def)
    then have "thread_base (on_role start_catching_up_to_become_current th1)"
      using base by (simp add: thread_base_def to_serve_def start_catching_up_to_become_current_def)
    from begin_reconciliation_ok [OF this] first told show ?thesis
      unfolding sequencer_order_connection_def d Let_def by (simp add: th1_def role_simps tells_same told_def)
  next
    case neither
    then have "thread_ok th1" using base by (simp add: th1_def thread_ok_def asked_as_it_should_def)
    then show ?thesis using neither told
      unfolding sequencer_order_connection_def d Let_def by (auto simp: th1_def role_simps intro: tells_same)
  qed
qed

lemma connected_tells:
  assumes ok: "thread_ok th"
  shows "tells_as_leader th (on_connection_established env kind connection th)"
proof (cases kind)
  case (Reports_to s)
  define th1 where "th1 = on_sending (connection_established s connection) th"
  let ?th2 = "announce_role th1"
  let ?st = "release_for_connection (th_epoch ?th2) (holding_reports_until_entitled (th_role ?th2)) (th_sending ?th2)"
  have e: "on_connection_established env kind connection th = ?th2\<lparr>th_sending := ?st\<rparr>"
    by (simp add: on_connection_established_def Reports_to th1_def Let_def)
  have s1: "same_standing th th1" by (simp add: th1_def same_standing_def)
  have held: "es_held (th_sending th1) = es_held (th_sending th)" "sent (th_sending th1) = sent (th_sending th)"
    by (simp_all add: th1_def connection_established_def sent_def)
  have s: "same_standing th (?th2\<lparr>th_sending := ?st\<rparr>)"
    using standing_trans [OF s1 announce_standing(1) [of th1]] by (simp add: same_standing_def)
  show ?thesis
  proof (cases "to_serve (th_role th)")
    case True
    then show ?thesis unfolding e using s by (intro standing_tells [OF ok]) simp_all
  next
    case False
    then have none: "es_held (th_sending th1) = []" using ok held by (simp add: thread_ok_def thread_base_def)
    then have "?st = th_sending th1" by (simp add: release_for_connection_def)
    then have "thread_ok (?th2\<lparr>th_sending := ?st\<rparr>)" using none by (intro standing_ok [OF ok s]) simp
    moreover have "role (th_role th1) \<noteq> Leader" using False s1 by (auto simp: same_standing_def role_simps to_serve_def)
    then have "told ?th2 = told th" using held by (simp add: announce_told) (simp add: told_def th1_def)
    then have "told (?th2\<lparr>th_sending := ?st\<rparr>) = told th" using \<open>?st = th_sending th1\<close> by (simp add: told_def)
    ultimately show ?thesis unfolding e by (rule tells_same)
  qed
next
  case To_peer
  let ?th = "th\<lparr>th_outbound_peer := Some connection\<rparr>"
  let ?th2 = "thread_sends [own_settings env connection ?th] ?th"
  have "thread_ok ?th2" by (rule standing_same_ok [OF ok]) (simp_all add: same_standing_def)
  from on_died_ok [OF this, of "peer_connected (peer_connection ?th2)"] question_moves(1) show ?thesis
    unfolding on_connection_established_def To_peer by (auto simp: Let_def told_def own_settings_def intro!: tells_same)
next
  case From_peer
  let ?th = "th\<lparr>th_inbound_peer := Some connection\<rparr>"
  let ?th2 = "thread_sends [own_settings env connection ?th] ?th"
  have "thread_ok ?th2" by (rule standing_same_ok [OF ok]) (simp_all add: same_standing_def)
  from on_died_ok [OF this, of "peer_connected (peer_connection ?th2)"] question_moves(1) show ?thesis
    unfolding on_connection_established_def From_peer by (auto simp: Let_def told_def own_settings_def intro!: tells_same)
next
  case Orders_from_sequencer
  then show ?thesis using sequencer_connection_tells [OF ok] by (simp add: on_connection_established_def)
qed

lemma lost_tells:
  assumes ok: "thread_ok th"
  shows "tells_as_leader th (on_connection_lost kind connection th)"
proof (cases kind)
  case (Reports_to s)
  have "thread_ok (on_sending (connection_lost s) th)"
    by (rule standing_ok [OF ok]) (use ok in \<open>auto simp: same_standing_def connection_lost_def thread_ok_def thread_base_def\<close>)
  with Reports_to show ?thesis by (simp add: on_connection_lost_def tells_same told_def connection_lost_def sent_def)
next
  case Orders_from_sequencer
  have "thread_ok (th\<lparr>th_sequencer_order_conns := removeAll connection (th_sequencer_order_conns th)\<rparr>)"
    using ok by (cases "th_sequencer_order_conns th = []") (simp_all add: thread_ok_def thread_base_def asked_as_it_should_def)
  with Orders_from_sequencer show ?thesis by (simp add: on_connection_lost_def tells_same told_def)
qed (auto simp: on_connection_lost_def told_def same_standing_def intro!: tells_same standing_same_ok [OF ok])

section \<open>Only the leader speaks\<close>

lemma step_tells:
  assumes ok: "thread_ok th" and input: "input_ok i th" and step: "thread_step env i th = Inr th'"
  shows "tells_as_leader th th'"
proof -
  have other: "tells_as_leader th x" if "same_standing th x" "th_sending x = th_sending th"
      "filter says_it_leads (th_sends x) = filter says_it_leads (th_sends th)" for x
    using that by (intro standing_tells [OF ok]) simp_all
  have asks: "tells_as_leader th (on_died f th)" if "question_open (f (th_died th)) \<Longrightarrow> question_open (th_died th)" for f
    using on_died_ok [OF ok that] by (intro tells_same) simp_all
  show ?thesis
  proof (cases i)
    case (Record_arrives connection q body)
    with input step show ?thesis by (intro handle_record_tells [OF ok]) simp_all
  next
    case (Follow_started_arrives connection started)
    with input step follow_started_tells [OF ok] show ?thesis by auto
  next
    case (Caught_up_arrives ack)
    with step caught_up_tells [OF ok] show ?thesis by auto
  next
    case Leader_changed_arrives
    with step leader_changed_tells [OF ok] show ?thesis by auto
  next
    case (Connected kind connection)
    with step connected_tells [OF ok] show ?thesis by auto
  next
    case (Lost kind connection)
    with step lost_tells [OF ok] show ?thesis by auto
  next
    case Retry_tick
    with step retry_tick_tells [OF ok] show ?thesis by auto
  next
    case Halt_tick
    with step show ?thesis by (auto simp: halt_tick_def on_halt_tick_def catch_up_links_def same_standing_def intro!: other)
  next
    case Peer_answer_timer
    with step asks [OF question_moves(4)] show ?thesis by auto
  next
    case Void_request_timer
    with step asks [OF question_moves(5)] show ?thesis by auto
  next
    case (Lease_tick now draw took)
    with step show ?thesis by (intro lease_tells(1) [OF ok]) simp
  next
    case (Lease_request_arrives now connection candidate epoch' request_id statement)
    with step show ?thesis by (intro lease_tells(2) [OF ok]) simp
  next
    case (Lease_grant_arrives now voter epoch' request_id echoed)
    with step show ?thesis by (intro lease_tells(3) [OF ok]) simp
  next
    case (Lease_refusal_arrives now voter epoch' request_id reason draw)
    with step show ?thesis by (intro lease_tells(4) [OF ok]) simp
  next
    case (Statement_held_arrives arbiter statement alone)
    have "links_leading (map_option (\<lambda>a. agent_on_statement_held a arbiter st alone) agent) = links_leading agent" for st agent
      by (cases agent) (simp_all add: links_leading_def)
    with Statement_held_arrives step show ?thesis by (auto simp: handle_statement_held_def same_standing_def intro!: other)
  next
    case (Settings_arrive now capacity' fingerprint)
    show ?thesis
    proof (cases "th_settings th")
      case None
      with Settings_arrive step ok show ?thesis by (simp add: handle_engine_settings_def tells_as_leader_def)
    next
      case (Some c)
      with Settings_arrive step obtain sends agent' c' where p: "peer_settings_arrived now capacity' fingerprint (th_agent th) c = Inr (sends, agent', c')"
        and th': "th' = thread_sends (map Lease_send sends) (th\<lparr>th_agent := agent', th_settings := Some c'\<rparr>)"
        by (auto simp: handle_engine_settings_def bind_result_eq_Inr)
      show ?thesis unfolding th' by (rule other) (use settings_arrived_leading [OF p] in \<open>simp_all add: same_standing_def\<close>)
    qed
  next
    case (Voided_commands_arrive voids)
    with step voided_commands_tells [OF ok] show ?thesis by auto
  next
    case (Void_declined_arrives command)
    with step asks [OF question_moves(7)] show ?thesis by auto
  next
    case (Applied_through_arrives highest)
    with step asks [OF question_moves(3)] show ?thesis by auto
  next
    case (Position_query_arrives connection request_id)
    with step show ?thesis by (auto simp: handle_engine_position_query_def same_standing_def intro!: other)
  next
    case (Applied_through_query_arrives connection)
    with step show ?thesis by (auto simp: handle_applied_through_query_def same_standing_def intro!: other)
  qed
qed

lemma new_thread_ok:
  assumes "th0 = new_thread env True instance_id opened fresh_book identifiers epoch_on_disk (Some agent)"
  shows "thread_ok th0"
proof -
  have fresh: "thread_ok th" if "th_ha_enabled th" "th_role th = new_role True" "th_agent th \<noteq> None" "es_held (th_sending th) = []"
      "ec_request_number (th_catch_up th) = 0" "ec_answer_connection (th_catch_up th) = None" for th
    using that by (simp add: thread_ok_def thread_base_def asked_as_it_should_def to_serve_def role_tests new_role_def)
  have unknown: "role (new_role True) \<noteq> Reconciling" by (simp add: role_tests new_role_def)
  show ?thesis
    unfolding assms new_thread_def Let_def
    by (rule fresh)
      (auto simp: on_died_def blank_thread_def recover_open_orders_def new_sending_def new_catch_up_def region_found_unusable_def
        no_region_found_def region_found_current_to_def unknown Let_def split: prod.split sum.split)
qed

lemma reach_ok:
  assumes "thread_reach env th0 th" and "thread_ok th0"
  shows "thread_ok th"
  using assms by induction (auto dest: step_tells simp: tells_as_leader_def)

text \<open>
  C12. Only the instance whose lease agent leads speaks to members. An engine with high availability on starts with any
  region and anything on disk, and anything reaches it in any order: records, answers, connections made and lost,
  timers, lease messages, voids and settings. Whenever it sends a report to a sequencer, or tells one that it leads, its
  agent leads; and an engine that catches up has asked to be, as soon as there is a sequencer to ask and no
  question about the command it died in.
\<close>

theorem only_the_leader_speaks:
  assumes "th0 = new_thread env True instance_id opened fresh_book identifiers epoch_on_disk (Some agent)"
    and "thread_reach env th0 th" and "input_ok i th" and "thread_step env i th = Inr th'"
  shows "(told th' \<noteq> told th \<longrightarrow> links_leading (th_agent th)) \<and>
    (role (th_role th') = Reconciling \<and> th_sequencer_order_conns th' \<noteq> [] \<and> \<not> question_open (th_died th') \<longrightarrow> ec_request_sent (th_catch_up th'))"
proof -
  from reach_ok [OF assms(2) new_thread_ok [OF assms(1)]] have "thread_ok th" .
  from step_tells [OF this assms(3,4)] show ?thesis by (simp add: tells_as_leader_def thread_ok_def role_simps)
qed

definition example_thread_env :: thread_env where
  "example_thread_env =
     \<lparr>tv_engine = \<lparr>ev_crypto = \<lparr>cr_hmac = (\<lambda>k m. k), cr_aes = (\<lambda>k b. b)\<rparr>, ev_sizes = example_sizes,
        ev_faults = \<lparr>fl_index_full = False, fl_send = False, fl_rejection = False\<rparr>\<rparr>,
      tv_encode = (\<lambda>report. map of_char (er_exec_id report)), tv_epoch_stored = (\<lambda>epoch. True)\<rparr>"

definition example_agent :: pair_lease_agent where
  "example_agent = projr (new_agent 1 1 2 3 \<lparr>lt_period = 3000, lt_drift_allowance = 100, lt_renewal_interval = 500\<rparr> 0 0 SayWhenPeerMayNotLead)"

definition example_thread :: engine_thread where
  "example_thread =
     new_thread example_thread_env True 1 (Inr (False, new_book (example_entry 0 []) 280 3)) (new_book (example_entry 0 []) 280 3)
       (new_identifiers []) 0 (Some example_agent)"

lemma example_thread_fields:
  "th_role example_thread = new_role True" "th_sequencer_order_conns example_thread = []" "th_died example_thread = new_died_check"
  by (simp_all add: example_thread_def new_thread_def blank_thread_def on_died_def recover_open_orders_def new_catch_up_def
      begin_check_def new_died_check_def)

lemma first_connection:
  assumes "th_role th = new_role True" and "th_died th = new_died_check" and "th' = sequencer_order_connection connection th"
  shows "role (th_role th') = Reconciling" and "th_sequencer_order_conns th' \<noteq> []" and "\<not> question_open (th_died th')"
proof -
  let ?th = "on_role start_catching_up_to_become_current (th\<lparr>th_sequencer_order_conns := List.insert connection (th_sequencer_order_conns th),
    th_died := sequencer_connected (th_died th)\<rparr>)"
  have "sequencer_connected new_died_check = new_died_check" by (simp add: sequencer_connected_def new_died_check_def)
  then have th': "th' = begin_reconciliation ?th"
    unfolding assms(3) sequencer_order_connection_def on_died_def using assms(1,2)
    by (simp add: new_role_def role_tests question_open_def new_died_check_def)
  show "role (th_role th') = Reconciling" "th_sequencer_order_conns th' \<noteq> []" "\<not> question_open (th_died th')"
    unfolding th' begin_reconciliation_def using assms(1,2) \<open>sequencer_connected new_died_check = new_died_check\<close>
    by (simp_all add: asked_def role_tests start_catching_up_to_become_current_def question_open_def new_died_check_def role_request_sent_def Let_def)
      (auto simp: List.insert_def)
qed

text \<open>A sequencer connects to an engine that has just started: the engine catches up, and has asked to be.\<close>

theorem only_the_leader_speaks_witness:
  "\<exists>th'. thread_step example_thread_env (Connected Orders_from_sequencer 7) example_thread = Inr th' \<and>
     role (th_role th') = Reconciling \<and> ec_request_sent (th_catch_up th') \<and>
     (told th' \<noteq> told example_thread \<longrightarrow> links_leading (th_agent example_thread))"
proof -
  let ?i = "Connected Orders_from_sequencer 7" and ?th' = "sequencer_order_connection 7 example_thread"
  have step: "thread_step example_thread_env ?i example_thread = Inr ?th'" by (simp add: on_connection_established_def)
  have "input_ok ?i example_thread" by simp
  from only_the_leader_speaks [OF example_thread_def reach_start this step] first_connection [OF example_thread_fields(1,3) refl] step
  show ?thesis by blast
qed

end
