(* ===== verification/EngineDeaf.thy ===== *)
theory EngineDeaf
  imports EngineLeading
begin

text \<open>
  An instance that loses its lease while it catches up in order to lead (\<open>docs/bug_list.md\<close>, BUG-0225): it becomes a
  follower whose last request asked to lead, and applies nothing until it is granted a lease again.
\<close>

section \<open>What does not wake it\<close>

fun lease_input :: "thread_input \<Rightarrow> bool" where
  "lease_input (Lease_tick now draw took) \<longleftrightarrow> True"
| "lease_input (Lease_request_arrives now connection candidate epoch request_id statement) \<longleftrightarrow> True"
| "lease_input (Lease_grant_arrives now voter epoch request_id echoed) \<longleftrightarrow> True"
| "lease_input (Lease_refusal_arrives now voter epoch request_id reason draw) \<longleftrightarrow> True"
| "lease_input _ \<longleftrightarrow> False"

fun thread_steps :: "thread_env \<Rightarrow> thread_input list \<Rightarrow> engine_thread \<Rightarrow> engine_thread result" where
  "thread_steps env [] th = Inr th"
| "thread_steps env (i # is) th = bind_result (thread_step env i th) (thread_steps env is)"

text \<open>The orders an engine holds and how far it has applied the WAL are as they were.\<close>

definition applied_nothing :: "engine_thread \<Rightarrow> engine_thread \<Rightarrow> bool" where
  "applied_nothing th th' \<longleftrightarrow>
     book_find (en_book (th_engine th')) = book_find (en_book (th_engine th)) \<and>
     en_highest_applied_seq_no (th_engine th') = en_highest_applied_seq_no (th_engine th)"

definition deaf :: "engine_thread \<Rightarrow> bool" where
  "deaf th \<longleftrightarrow> th_ha_enabled th \<and> follows_without_following_the_wal (th_role th)"

lemma deaf_role:
  assumes "deaf th"
  shows "role (th_role th) = Follower" "\<not> following_the_wal (th_role th)" "\<not> keeps_its_reports (th_role th)" "\<not> catching_up (th_role th)"
  using assms by (simp_all add: deaf_def follows_without_following_the_wal_def role_tests)

text \<open>A step that leaves the role alone, and the orders.\<close>

definition stays_deaf :: "engine_thread \<Rightarrow> engine_thread \<Rightarrow> bool" where
  "stays_deaf th th' \<longleftrightarrow> th_ha_enabled th' = th_ha_enabled th \<and> th_role th' = th_role th \<and> applied_nothing th th'"

lemma stays_deaf_refl [simp]: "stays_deaf th th"
  by (simp add: stays_deaf_def applied_nothing_def)

lemma stays_deaf_trans: "stays_deaf a b \<Longrightarrow> stays_deaf b c \<Longrightarrow> stays_deaf a c"
  by (simp add: stays_deaf_def applied_nothing_def)

lemma stays_deafI:
  "th_ha_enabled th' = th_ha_enabled th \<Longrightarrow> th_role th' = th_role th \<Longrightarrow> th_engine th' = th_engine th \<Longrightarrow> stays_deaf th th'"
  by (simp add: stays_deaf_def applied_nothing_def)

lemma died_deaf: "role (th_role th) = Follower \<Longrightarrow> stays_deaf th (on_died f th)"
  by (rule stays_deafI) (simp_all add: on_died_def Let_def)

lemma comparison_deaf: "stays_deaf th (on_comparison f th)"
  by (simp add: on_comparison_def Let_def stays_deaf_def applied_nothing_def)

lemma voided_deaf: "stays_deaf th (learn_voided voided th)"
proof -
  obtain l en where l: "learn_void voided (th_engine th) = (l, en)" by fastforce
  have "stays_deaf th (th\<lparr>th_engine := en\<rparr>)"
    using l by (auto simp: learn_void_def stays_deaf_def applied_nothing_def Let_def split: prod.splits bool.splits if_splits)
  then show ?thesis using l stays_deaf_trans [OF _ comparison_deaf] by (simp add: learn_voided_def Let_def)
qed

lemma voids_deaf: "stays_deaf th (fold learn_voided voids th)"
proof (induction voids arbitrary: th)
  case (Cons v voids)
  from stays_deaf_trans [OF voided_deaf Cons] show ?case by simp
qed simp

lemma record_deaf:
  assumes "deaf th" and "handle_record env connection q body th = Inr th'"
  shows "stays_deaf th th'"
proof -
  have "apply_record env q body th1 = Inr th1" if "\<not> is_order_pdu body" "th_role th1 = th_role th" for th1
    using that deaf_role [OF assms(1)]
    by (cases body) (auto simp: apply_record_def is_order_pdu_def split: option.split)
  then have "th' = th\<lparr>th_order_ingress_ns := None\<rparr>"
    using assms(2) deaf_role [OF assms(1)] by (cases "is_order_pdu body") (simp_all add: handle_record_def)
  then show ?thesis by (simp add: stays_deafI)
qed

lemma connected_deaf:
  assumes "deaf th"
  shows "stays_deaf th (on_connection_established env kind connection th)"
proof (cases kind)
  case (Reports_to s)
  have "stays_deaf th (announce_role (on_sending (connection_established s connection) th))"
    by (rule stays_deafI) (simp_all add: announce_role_def)
  with Reports_to show ?thesis by (simp add: on_connection_established_def Let_def stays_deaf_def applied_nothing_def)
next
  case To_peer
  have "stays_deaf th2 (on_died f th2)" if "th_role th2 = th_role th" for f th2 using deaf_role(1) [OF assms] that by (intro died_deaf) simp
  moreover have "stays_deaf th (thread_sends sends (th\<lparr>th_outbound_peer := c\<rparr>))" for sends c by (rule stays_deafI) simp_all
  ultimately show ?thesis
    unfolding To_peer on_connection_established_def connection_kind.case Let_def by (rule stays_deaf_trans [rotated]) simp
next
  case From_peer
  have "stays_deaf th2 (on_died f th2)" if "th_role th2 = th_role th" for f th2 using deaf_role(1) [OF assms] that by (intro died_deaf) simp
  moreover have "stays_deaf th (thread_sends sends (th\<lparr>th_inbound_peer := c\<rparr>))" for sends c by (rule stays_deafI) simp_all
  ultimately show ?thesis
    unfolding From_peer on_connection_established_def connection_kind.case Let_def by (rule stays_deaf_trans [rotated]) simp
next
  case Orders_from_sequencer
  let ?th = "th\<lparr>th_sequencer_order_conns := List.insert connection (th_sequencer_order_conns th)\<rparr>"
  have d: "stays_deaf ?th (on_died sequencer_connected ?th)" by (rule died_deaf) (simp add: deaf_role [OF assms])
  then have "role (th_role (on_died sequencer_connected ?th)) = Follower" using deaf_role(1) [OF assms] by (simp add: stays_deaf_def)
  then have "sequencer_order_connection connection th = on_died sequencer_connected ?th"
    by (simp add: sequencer_order_connection_def Let_def)
  moreover have "stays_deaf th ?th" by (rule stays_deafI) simp_all
  ultimately show ?thesis using Orders_from_sequencer stays_deaf_trans [OF _ d] by (simp add: on_connection_established_def)
qed

lemma settings_deaf: "handle_engine_settings now capacity' fingerprint th = Inr th' \<Longrightarrow> stays_deaf th th'"
  by (auto simp: handle_engine_settings_def bind_result_eq_Inr intro!: stays_deafI split: option.splits)

lemma deaf_step:
  assumes deaf: "deaf th" and other: "\<not> lease_input i" and step: "thread_step env i th = Inr th'"
  shows "stays_deaf th th'"
proof (cases i)
  case (Record_arrives connection q body)
  with step show ?thesis by (intro record_deaf [OF deaf]) simp
next
  case (Follow_started_arrives connection started)
  with step show ?thesis using deaf_role [OF deaf] by (auto simp: handle_follow_started_def catch_up_started_def intro!: stays_deafI)
next
  case (Caught_up_arrives ack)
  with step show ?thesis using deaf_role [OF deaf] by (auto simp: handle_caught_up_def)
next
  case Leader_changed_arrives
  with step show ?thesis using deaf_role [OF deaf] by (auto simp: handle_leader_changed_def)
next
  case (Connected kind connection)
  with step connected_deaf [OF deaf] show ?thesis by auto
next
  case (Lost kind connection)
  with step show ?thesis by (cases kind) (auto simp: on_connection_lost_def intro!: stays_deafI)
next
  case Retry_tick
  with step show ?thesis by (auto simp: retry_tick_def intro!: stays_deafI)
next
  case Halt_tick
  with step show ?thesis by (auto simp: halt_tick_def intro!: stays_deafI)
next
  case (Statement_held_arrives arbiter statement alone)
  with step show ?thesis by (auto simp: handle_statement_held_def intro!: stays_deafI)
next
  case (Settings_arrive now capacity' fingerprint)
  with step show ?thesis by (intro settings_deaf) simp
next
  case (Voided_commands_arrive voids)
  have "role (th_role (fold learn_voided voids th)) = Follower" using voids_deaf [of th voids] deaf_role(1) [OF deaf] by (simp add: stays_deaf_def)
  from stays_deaf_trans [OF voids_deaf died_deaf [OF this]] Voided_commands_arrive step show ?thesis
    by (auto simp: handle_voided_commands_def Let_def)
next
  case (Position_query_arrives connection request_id)
  with step show ?thesis by (auto simp: handle_engine_position_query_def intro!: stays_deafI split: if_splits)
next
  case (Applied_through_query_arrives connection)
  with step show ?thesis by (auto simp: handle_applied_through_query_def intro!: stays_deafI)
qed (use other step died_deaf deaf_role(1) [OF deaf] in auto)

lemma deaf_steps:
  assumes "deaf th" and "\<forall>i \<in> set is. \<not> lease_input i" and "thread_steps env is th = Inr th'"
  shows "stays_deaf th th'"
  using assms
proof (induction "is" arbitrary: th)
  case (Cons i "is")
  from Cons.prems(3) obtain th1 where 1: "thread_step env i th = Inr th1" and 2: "thread_steps env is th1 = Inr th'"
    by (auto simp: bind_result_eq_Inr)
  have s: "stays_deaf th th1" using Cons.prems(1,2) by (intro deaf_step [OF _ _ 1]) simp_all
  then have "deaf th1" using Cons.prems(1) by (simp add: deaf_def stays_deaf_def)
  from stays_deaf_trans [OF s Cons.IH [OF this _ 2]] Cons.prems(2) show ?case by simp
qed simp


text \<open>An engine that has a sequencer to ask is granted the lease, and loses it before it has caught up.\<close>

definition example_promoted :: engine_thread where
  "example_promoted = become_leader_when_current (example_thread\<lparr>th_sequencer_order_conns := [7]\<rparr>)"

lemma example_promoted_fields:
  "th_ha_enabled example_promoted" "ro_ha_enabled (th_role example_promoted)" "th_agent example_promoted = Some example_agent"
  "catching_up_to_lead (th_role example_promoted)" "\<not> ro_latest_request_asked_to_follow (th_role example_promoted)"
proof -
  let ?th = "on_role start_catching_up_to_lead (example_thread\<lparr>th_sequencer_order_conns := [7]\<rparr>)"
  obtain r where r: "catch_up_begin (th_sequencer_order_conns ?th) (catch_up_context ?th) (th_catch_up ?th) = r" by simp
  have p: "example_promoted = asked r ?th"
    using r by (simp add: example_promoted_def become_leader_when_current_def begin_reconciliation_def example_thread_fields new_role_def role_tests)
  have ha: "th_ha_enabled example_thread" "th_agent example_thread = Some example_agent"
    by (simp_all add: example_thread_def new_thread_def blank_thread_def on_died_def recover_open_orders_def new_catch_up_def
        begin_check_def new_died_check_def)
  have "fst r" using begin_effect(1) [OF r] by (simp add: example_thread_fields question_open_def new_died_check_def)
  then have "th_role example_promoted = role_request_sent True (start_catching_up_to_lead (new_role True))"
    using ha unfolding p by (simp add: asked_role example_thread_fields catching_up_to_lead_def start_catching_up_to_lead_def)
  then show "ro_ha_enabled (th_role example_promoted)" "catching_up_to_lead (th_role example_promoted)"
      "\<not> ro_latest_request_asked_to_follow (th_role example_promoted)"
    by (simp_all add: start_catching_up_to_lead_def new_role_def catching_up_to_lead_def)
  show "th_ha_enabled example_promoted" "th_agent example_promoted = Some example_agent" using ha by (simp_all add: p)
qed


end
