(* ===== verification/RehashMap.thy ===== *)
theory RehashMap
  imports Prelude
begin

text \<open>
  \<open>IncrementalRehashMap\<close> (\<open>IncrementalRehashMap.hpp\<close>), the hash map the order book is indexed by. It grows by moving a few
  slots of the old table into the new one at every operation that changes it, so that for a while an entry is in one of
  two tables. The hash function is a parameter. The states and the entries of a table are one list of slots: the storage
  of a slot that is not occupied is never read. A loop that need not end is a partial function, and that it ends is part
  of what is proved.
\<close>

unbundle bit_operations_syntax

section \<open>Tables\<close>

datatype ('k, 'v) table_slot = Slot_empty | Occupied 'k 'v | Tombstone

record ('k, 'v) table =
  tb_slots :: "('k, 'v) table_slot list"
  tb_live :: nat
  tb_used :: nat

definition no_table :: "('k, 'v) table" where
  "no_table = \<lparr>tb_slots = [], tb_live = 0, tb_used = 0\<rparr>"

abbreviation tb_capacity :: "('k, 'v) table \<Rightarrow> nat" where
  "tb_capacity t \<equiv> length (tb_slots t)"

abbreviation tb_mask :: "('k, 'v) table \<Rightarrow> nat" where
  "tb_mask t \<equiv> tb_capacity t - 1"

fun occupied :: "('k, 'v) table_slot \<Rightarrow> bool" where
  "occupied (Occupied k v) = True"
| "occupied _ = False"

definition minimum_capacity :: nat where
  "minimum_capacity = 16"

definition migration_slots_per_operation :: nat where
  "migration_slots_per_operation = 8"

text \<open>The smallest power of two, from the minimum on, whose half is at least the number of entries.\<close>

function capacity_from :: "nat \<Rightarrow> nat \<Rightarrow> nat" where
  "capacity_from wanted entry_count =
     (if wanted = 0 then 0 else if wanted div 2 < entry_count then capacity_from (wanted * 2) entry_count else wanted)"
  by pat_completeness auto
termination by (relation "measure (\<lambda>(wanted, entry_count). 2 * entry_count - wanted)") auto

declare capacity_from.simps [simp del]

definition capacity_for :: "nat \<Rightarrow> nat" where
  "capacity_for entry_count = capacity_from minimum_capacity entry_count"

definition allocate_table :: "nat \<Rightarrow> ('k, 'v) table" where
  "allocate_table table_capacity = \<lparr>tb_slots = replicate table_capacity Slot_empty, tb_live = 0, tb_used = 0\<rparr>"

definition destroy_entries :: "('k, 'v) table \<Rightarrow> ('k, 'v) table" where
  "destroy_entries t = \<lparr>tb_slots = replicate (tb_capacity t) Slot_empty, tb_live = 0, tb_used = 0\<rparr>"

fun probe :: "nat \<Rightarrow> ('k, 'v) table \<Rightarrow> 'k \<Rightarrow> nat \<Rightarrow> nat" where
  "probe 0 t key slot = tb_capacity t"
| "probe (Suc n) t key slot =
     (case tb_slots t ! slot of
        Slot_empty \<Rightarrow> tb_capacity t
      | Occupied k v \<Rightarrow> if k = key then slot else probe n t key ((slot + 1) AND tb_mask t)
      | Tombstone \<Rightarrow> probe n t key ((slot + 1) AND tb_mask t))"

definition find_slot :: "('k, 'v) table \<Rightarrow> 'k \<Rightarrow> nat \<Rightarrow> nat" where
  "find_slot t key hash_value =
     (if tb_capacity t = 0 then 0 else probe (tb_capacity t) t key (hash_value AND tb_mask t))"

partial_function (option) free_slot_from :: "('k, 'v) table \<Rightarrow> nat \<Rightarrow> nat option" where
  "free_slot_from t slot =
     (if occupied (tb_slots t ! slot) then free_slot_from t ((slot + 1) AND tb_mask t) else Some slot)"

definition find_free_slot :: "('k, 'v) table \<Rightarrow> nat \<Rightarrow> nat option" where
  "find_free_slot t hash_value = free_slot_from t (hash_value AND tb_mask t)"

definition construct_at :: "nat \<Rightarrow> 'k \<Rightarrow> 'v \<Rightarrow> ('k, 'v) table \<Rightarrow> ('k, 'v) table" where
  "construct_at slot key val t =
     t\<lparr>tb_slots := (tb_slots t)[slot := Occupied key val], tb_live := tb_live t + 1,
       tb_used := (if tb_slots t ! slot = Slot_empty then tb_used t + 1 else tb_used t)\<rparr>"

section \<open>The map\<close>

record ('k, 'v) rehash_map =
  rm_current :: "('k, 'v) table"
  rm_next :: "('k, 'v) table"
  rm_migration_cursor :: nat
  rm_size :: nat

definition is_migrating :: "('k, 'v) rehash_map \<Rightarrow> bool" where
  "is_migrating m \<longleftrightarrow> 0 < tb_capacity (rm_next m)"

definition migration_slots_remaining :: "('k, 'v) rehash_map \<Rightarrow> nat" where
  "migration_slots_remaining m = (if is_migrating m then tb_capacity (rm_current m) - rm_migration_cursor m else 0)"

definition begin_migration :: "nat \<Rightarrow> ('k, 'v) rehash_map \<Rightarrow> ('k, 'v) rehash_map" where
  "begin_migration target_capacity m = m\<lparr>rm_next := allocate_table target_capacity, rm_migration_cursor := 0\<rparr>"

definition finish_migration :: "('k, 'v) rehash_map \<Rightarrow> ('k, 'v) rehash_map" where
  "finish_migration m = m\<lparr>rm_current := rm_next m, rm_next := no_table, rm_migration_cursor := 0\<rparr>"

definition move_slot :: "('k \<Rightarrow> nat) \<Rightarrow> nat \<Rightarrow> ('k, 'v) rehash_map \<Rightarrow> ('k, 'v) rehash_map option" where
  "move_slot hash slot m =
     (case tb_slots (rm_current m) ! slot of
        Occupied k v \<Rightarrow>
          Option.bind (find_free_slot (rm_next m) (hash k)) (\<lambda>destination.
            Some (m\<lparr>rm_next := (rm_next m)\<lparr>tb_slots := (tb_slots (rm_next m))[destination := Occupied k v],
                                       tb_live := tb_live (rm_next m) + 1, tb_used := tb_used (rm_next m) + 1\<rparr>,
                  rm_current := (rm_current m)\<lparr>tb_slots := (tb_slots (rm_current m))[slot := Tombstone],
                                          tb_live := tb_live (rm_current m) - 1\<rparr>\<rparr>))
      | _ \<Rightarrow> Some m)"

fun move_slots :: "('k \<Rightarrow> nat) \<Rightarrow> nat \<Rightarrow> ('k, 'v) rehash_map \<Rightarrow> ('k, 'v) rehash_map option" where
  "move_slots hash 0 m = Some m"
| "move_slots hash (Suc n) m =
     (if rm_migration_cursor m < tb_capacity (rm_current m)
      then Option.bind (move_slot hash (rm_migration_cursor m) m)
             (\<lambda>m. move_slots hash n (m\<lparr>rm_migration_cursor := rm_migration_cursor m + 1\<rparr>))
      else Some m)"

definition step_migration :: "('k \<Rightarrow> nat) \<Rightarrow> ('k, 'v) rehash_map \<Rightarrow> ('k, 'v) rehash_map option" where
  "step_migration hash m =
     (if \<not> is_migrating m then Some m
      else Option.bind (move_slots hash migration_slots_per_operation m) (\<lambda>m.
             Some (if tb_capacity (rm_current m) \<le> rm_migration_cursor m then finish_migration m else m)))"

partial_function (option) complete_migration :: "('k \<Rightarrow> nat) \<Rightarrow> ('k, 'v) rehash_map \<Rightarrow> ('k, 'v) rehash_map option" where
  "complete_migration hash m =
     (if is_migrating m then Option.bind (step_migration hash m) (complete_migration hash) else Some m)"

definition start_again :: "('k, 'v) rehash_map \<Rightarrow> ('k, 'v) rehash_map" where
  "start_again m =
     begin_migration (if tb_capacity (rm_current m) < tb_live (rm_current m) * 2 * 2 then tb_capacity (rm_current m) * 2
                      else tb_capacity (rm_current m)) m"

definition make_room_for_one :: "('k \<Rightarrow> nat) \<Rightarrow> ('k, 'v) rehash_map \<Rightarrow> ('k, 'v) rehash_map option" where
  "make_room_for_one hash m =
     (if tb_capacity (rm_current m) = 0 \<and> \<not> is_migrating m then Some (m\<lparr>rm_current := allocate_table minimum_capacity\<rparr>)
      else let target = (if is_migrating m then rm_next m else rm_current m)
           in if (tb_used target + 1) * 2 \<le> tb_capacity target then Some m
              else if is_migrating m then Option.bind (complete_migration hash m) (\<lambda>m. Some (start_again m))
              else Some (start_again m))"

section \<open>What its clients call\<close>

definition rm_reserve :: "nat \<Rightarrow> ('k, 'v) rehash_map \<Rightarrow> ('k, 'v) rehash_map" where
  "rm_reserve entry_count m =
     (let wanted = capacity_for entry_count
      in if rm_size m = 0 \<and> \<not> is_migrating m
         then if tb_capacity (rm_current m) < wanted then m\<lparr>rm_current := allocate_table wanted\<rparr> else m
         else if tb_capacity (rm_current m) < wanted \<and> \<not> is_migrating m then begin_migration wanted m else m)"

definition new_rehash_map :: "nat \<Rightarrow> ('k, 'v) rehash_map" where
  "new_rehash_map initial_capacity =
     (let m = \<lparr>rm_current = no_table, rm_next = no_table, rm_migration_cursor = 0, rm_size = 0\<rparr>
      in if 0 < initial_capacity then rm_reserve initial_capacity m else m)"

text \<open>A position of an iterator: the table, and the slot of it. The end is slot 0 of a third table.\<close>

type_synonym position = "nat \<times> nat"

definition end_position :: position where
  "end_position = (2, 0)"

definition table_for :: "nat \<Rightarrow> ('k, 'v) rehash_map \<Rightarrow> ('k, 'v) table" where
  "table_for table_index m = (if table_index = 0 then rm_current m else rm_next m)"

definition on_table_for :: "nat \<Rightarrow> (('k, 'v) table \<Rightarrow> ('k, 'v) table) \<Rightarrow> ('k, 'v) rehash_map \<Rightarrow> ('k, 'v) rehash_map" where
  "on_table_for table_index f m =
     (if table_index = 0 then m\<lparr>rm_current := f (rm_current m)\<rparr> else m\<lparr>rm_next := f (rm_next m)\<rparr>)"

function advance_to_occupied :: "('k, 'v) rehash_map \<Rightarrow> nat \<Rightarrow> nat \<Rightarrow> position" where
  "advance_to_occupied m table_index slot_index =
     (if table_index < 2 then
        if slot_index < tb_capacity (table_for table_index m) then
          if occupied (tb_slots (table_for table_index m) ! slot_index) then (table_index, slot_index)
          else advance_to_occupied m table_index (slot_index + 1)
        else advance_to_occupied m (table_index + 1) 0
      else end_position)"
  by pat_completeness auto
termination
  by (relation "measures [\<lambda>(m, table_index, slot_index). 2 - table_index,
                          \<lambda>(m, table_index, slot_index). tb_capacity (table_for table_index m) - slot_index]") auto

declare advance_to_occupied.simps [simp del]

definition rm_find :: "('k \<Rightarrow> nat) \<Rightarrow> 'k \<Rightarrow> ('k, 'v) rehash_map \<Rightarrow> position" where
  "rm_find hash key m =
     (let slot = find_slot (rm_next m) key (hash key)
      in if is_migrating m \<and> slot \<noteq> tb_capacity (rm_next m) then advance_to_occupied m 1 slot
         else let slot = find_slot (rm_current m) key (hash key)
              in if slot \<noteq> tb_capacity (rm_current m) then advance_to_occupied m 0 slot else end_position)"

definition value_at :: "nat \<Rightarrow> ('k, 'v) table \<Rightarrow> 'v option" where
  "value_at slot t = (case tb_slots t ! slot of Occupied k v \<Rightarrow> Some v | _ \<Rightarrow> None)"

definition find_value :: "('k \<Rightarrow> nat) \<Rightarrow> 'k \<Rightarrow> ('k, 'v) rehash_map \<Rightarrow> 'v option" where
  "find_value hash key m =
     (let slot = find_slot (rm_next m) key (hash key)
      in if is_migrating m \<and> slot \<noteq> tb_capacity (rm_next m) then value_at slot (rm_next m)
         else let slot = find_slot (rm_current m) key (hash key)
              in if slot \<noteq> tb_capacity (rm_current m) then value_at slot (rm_current m) else None)"

definition assign_at :: "nat \<Rightarrow> 'k \<Rightarrow> 'v \<Rightarrow> ('k, 'v) table \<Rightarrow> ('k, 'v) table" where
  "assign_at slot key val t = t\<lparr>tb_slots := (tb_slots t)[slot := Occupied key val]\<rparr>"

definition insert_entry ::
  "('k \<Rightarrow> nat) \<Rightarrow> bool \<Rightarrow> 'k \<Rightarrow> 'v \<Rightarrow> ('k, 'v) rehash_map \<Rightarrow> (position \<times> bool \<times> ('k, 'v) rehash_map) option" where
  "insert_entry hash assign_existing key val m =
     Option.bind (step_migration hash m) (\<lambda>m.
       let existing = find_slot (rm_next m) key (hash key)
       in if is_migrating m \<and> existing \<noteq> tb_capacity (rm_next m) then
            let m = (if assign_existing then on_table_for 1 (assign_at existing key val) m else m)
            in Some (advance_to_occupied m 1 existing, False, m)
          else let existing = find_slot (rm_current m) key (hash key)
          in if existing \<noteq> tb_capacity (rm_current m) then
               let m = (if assign_existing then on_table_for 0 (assign_at existing key val) m else m)
               in Some (advance_to_occupied m 0 existing, False, m)
          else Option.bind (make_room_for_one hash m) (\<lambda>m.
            let table_index = (if is_migrating m then 1 else 0)
            in Option.bind (find_free_slot (table_for table_index m) (hash key)) (\<lambda>slot.
              let m = (on_table_for table_index (construct_at slot key val) m)\<lparr>rm_size := rm_size m + 1\<rparr>
              in Some (advance_to_occupied m table_index slot, True, m))))"

definition rm_emplace where "rm_emplace hash key val m = insert_entry hash False key val m"

definition rm_insert_or_assign where "rm_insert_or_assign hash key val m = insert_entry hash True key val m"

definition erase_at :: "('k \<Rightarrow> nat) \<Rightarrow> position \<Rightarrow> ('k, 'v) rehash_map \<Rightarrow> (position \<times> ('k, 'v) rehash_map) option" where
  "erase_at hash pos m =
     (if pos = end_position then Some (end_position, m)
      else let m = (on_table_for (fst pos) (\<lambda>t. t\<lparr>tb_slots := (tb_slots t)[snd pos := Tombstone], tb_live := tb_live t - 1\<rparr>) m)
                     \<lparr>rm_size := rm_size m - 1\<rparr>;
               following = advance_to_occupied m (fst pos) (snd pos + 1)
           in Option.bind (step_migration hash m) (\<lambda>m. Some (following, m)))"

definition rm_erase :: "('k \<Rightarrow> nat) \<Rightarrow> 'k \<Rightarrow> ('k, 'v) rehash_map \<Rightarrow> (nat \<times> ('k, 'v) rehash_map) option" where
  "rm_erase hash key m =
     (if rm_find hash key m = end_position then Option.bind (step_migration hash m) (\<lambda>m. Some (0, m))
      else Option.bind (erase_at hash (rm_find hash key m) m) (\<lambda>(following, m). Some (1, m)))"

definition rm_clear :: "('k, 'v) rehash_map \<Rightarrow> ('k, 'v) rehash_map" where
  "rm_clear m = m\<lparr>rm_current := destroy_entries (rm_current m), rm_next := no_table, rm_migration_cursor := 0, rm_size := 0\<rparr>"

section \<open>Probing\<close>

text \<open>
  The slots a key is looked for in, in order, and what holds of a table: its capacity is a power of two, its counters
  count, a key is in one slot, and no empty slot lies between the slot a key hashes to and the slot it is in. One slot
  at least is never used, so that a search for a free one ends.
\<close>

definition slot_after :: "('k, 'v) table \<Rightarrow> nat \<Rightarrow> nat \<Rightarrow> nat" where
  "slot_after t start d = (start + d) mod tb_capacity t"

definition in_reach :: "('k \<Rightarrow> nat) \<Rightarrow> ('k, 'v) table \<Rightarrow> 'k \<Rightarrow> nat \<Rightarrow> bool" where
  "in_reach hash t key slot \<longleftrightarrow>
     (\<exists>d < tb_capacity t. slot = slot_after t (hash key) d \<and> (\<forall>e < d. tb_slots t ! slot_after t (hash key) e \<noteq> Slot_empty))"

definition table_ok :: "('k \<Rightarrow> nat) \<Rightarrow> ('k, 'v) table \<Rightarrow> bool" where
  "table_ok hash t \<longleftrightarrow>
     (tb_capacity t = 0 \<or> (\<exists>n. tb_capacity t = 2 ^ n) \<and> 1 < tb_capacity t \<and> tb_used t < tb_capacity t) \<and>
     tb_live t = length (filter occupied (tb_slots t)) \<and>
     length (filter (\<lambda>s. s \<noteq> Slot_empty) (tb_slots t)) \<le> tb_used t \<and>
     (\<forall>i j k v w. i < tb_capacity t \<longrightarrow> j < tb_capacity t \<longrightarrow> tb_slots t ! i = Occupied k v \<longrightarrow> tb_slots t ! j = Occupied k w \<longrightarrow> i = j) \<and>
     (\<forall>i k v. i < tb_capacity t \<longrightarrow> tb_slots t ! i = Occupied k v \<longrightarrow> in_reach hash t k i)"

lemma table_okD:
  assumes "table_ok hash t"
  shows "0 < tb_capacity t \<Longrightarrow> \<exists>n. tb_capacity t = 2 ^ n" "0 < tb_capacity t \<Longrightarrow> tb_used t < tb_capacity t"
      "0 < tb_capacity t \<Longrightarrow> 1 < tb_capacity t"
    and "tb_live t = length (filter occupied (tb_slots t))"
    and "length (filter (\<lambda>s. s \<noteq> Slot_empty) (tb_slots t)) \<le> tb_used t"
    and "\<And>i j k v w. i < tb_capacity t \<Longrightarrow> j < tb_capacity t \<Longrightarrow> tb_slots t ! i = Occupied k v \<Longrightarrow> tb_slots t ! j = Occupied k w \<Longrightarrow> i = j"
    and "\<And>i k v. i < tb_capacity t \<Longrightarrow> tb_slots t ! i = Occupied k v \<Longrightarrow> in_reach hash t k i"
  using assms unfolding table_ok_def by blast+

lemma occupied_iff: "occupied s \<longleftrightarrow> (\<exists>k v. s = Occupied k v)"
  by (cases s) simp_all

lemma and_mask_mod: "(\<exists>n. c = 2 ^ n) \<Longrightarrow> x AND (c - Suc 0) = x mod (c :: nat)"
  by (metis One_nat_def mask_nat_def take_bit_eq_mask take_bit_nat_def)

lemma slot_after_less [simp]: "0 < tb_capacity t \<Longrightarrow> slot_after t start d < tb_capacity t"
  by (simp add: slot_after_def)

lemma slot_after_0 [simp]: "start < tb_capacity t \<Longrightarrow> slot_after t start 0 = start"
  by (simp add: slot_after_def)

lemma slot_after_mod [simp]: "slot_after t (start mod tb_capacity t) d = slot_after t start d"
  by (simp add: slot_after_def mod_add_left_eq)

lemma slot_after_Suc: "slot_after t (Suc start) d = slot_after t start (Suc d)"
  by (simp add: slot_after_def)

text \<open>Every slot is probed from any start.\<close>

lemma slot_after_all:
  assumes "i < tb_capacity t"
  shows "\<exists>d < tb_capacity t. slot_after t start d = i"
proof -
  let ?c = "tb_capacity t"
  have "(start + (i + (?c - start mod ?c)) mod ?c) mod ?c = (start mod ?c + (i + (?c - start mod ?c))) mod ?c"
    by (simp add: mod_add_left_eq mod_add_right_eq)
  also have "start mod ?c + (i + (?c - start mod ?c)) = i + ?c"
    using mod_less_divisor [of ?c start] assms by linarith
  finally have "(start + (i + (?c - start mod ?c)) mod ?c) mod ?c = i" using assms by simp
  moreover have "0 < ?c" using assms by linarith
  ultimately show ?thesis using assms
    by (intro exI [of _ "(i + (?c - start mod ?c)) mod ?c"]) (simp add: slot_after_def)
qed

lemma probe_sound:
  assumes "\<exists>n. tb_capacity t = 2 ^ n" and "slot < tb_capacity t"
  shows "probe n t key slot = tb_capacity t \<or>
    (probe n t key slot < tb_capacity t \<and> (\<exists>v. tb_slots t ! probe n t key slot = Occupied key v))"
  using assms(2)
proof (induction n arbitrary: slot)
  case (Suc n)
  have "0 < tb_capacity t" using Suc.prems by linarith
  then have "(slot + 1) AND tb_mask t < tb_capacity t" by (simp add: and_mask_mod [OF assms(1)])
  from Suc.IH [OF this] Suc.prems show ?case by (auto split: table_slot.split)
qed simp

lemma probe_complete:
  assumes "\<exists>n. tb_capacity t = 2 ^ n" and "d < n" and "slot < tb_capacity t" and "tb_slots t ! slot_after t slot d = Occupied key v"
    and "\<forall>e < d. tb_slots t ! slot_after t slot e \<noteq> Slot_empty"
  shows "probe n t key slot < tb_capacity t"
  using assms(2-)
proof (induction n arbitrary: slot d)
  case (Suc n)
  have c: "0 < tb_capacity t" using Suc.prems(2) by linarith
  show ?case
  proof (cases d)
    case 0
    with Suc.prems show ?thesis by simp
  next
    case (Suc d')
    have "probe n t key ((slot + 1) AND tb_mask t) < tb_capacity t"
    proof (rule Suc.IH [of d'])
      show "\<forall>e < d'. tb_slots t ! slot_after t ((slot + 1) AND tb_mask t) e \<noteq> Slot_empty"
        using Suc.prems(4) Suc by (simp add: and_mask_mod [OF assms(1)] slot_after_Suc)
    qed (use Suc.prems Suc c in \<open>simp_all add: and_mask_mod [OF assms(1)] slot_after_Suc\<close>)
    moreover have "tb_slots t ! slot \<noteq> Slot_empty" using Suc.prems(2,4) Suc by force
    ultimately show ?thesis using Suc.prems(2) by (auto split: table_slot.split)
  qed
qed simp

text \<open>The entries of a table, and what a search of it finds.\<close>

definition table_entries :: "('k, 'v) table \<Rightarrow> ('k \<times> 'v) set" where
  "table_entries t = {(k, v). Occupied k v \<in> set (tb_slots t)}"

lemma table_entriesI: "i < tb_capacity t \<Longrightarrow> tb_slots t ! i = Occupied k v \<Longrightarrow> (k, v) \<in> table_entries t"
  by (force simp: table_entries_def in_set_conv_nth)

lemma table_entriesE:
  assumes "(k, v) \<in> table_entries t"
  obtains i where "i < tb_capacity t" "tb_slots t ! i = Occupied k v"
  using assms by (auto simp: table_entries_def in_set_conv_nth)

lemma table_entries_none [simp]: "table_entries no_table = {}"
  by (simp add: table_entries_def no_table_def)

lemma find_slot_found:
  assumes "table_ok hash t" and "(key, v) \<in> table_entries t"
  shows "find_slot t key (hash key) < tb_capacity t \<and> tb_slots t ! find_slot t key (hash key) = Occupied key v"
proof -
  obtain i where i: "i < tb_capacity t" "tb_slots t ! i = Occupied key v" by (rule table_entriesE [OF assms(2)])
  then have c: "0 < tb_capacity t" by linarith
  note pow = table_okD(1) [OF assms(1) c]
  let ?s = "hash key mod tb_capacity t"
  have s: "?s < tb_capacity t" and f: "find_slot t key (hash key) = probe (tb_capacity t) t key ?s"
    using c by (simp_all add: find_slot_def and_mask_mod [OF pow])
  obtain d where "d < tb_capacity t" "i = slot_after t (hash key) d" "\<forall>e < d. tb_slots t ! slot_after t (hash key) e \<noteq> Slot_empty"
    using table_okD(7) [OF assms(1) i] by (auto simp: in_reach_def)
  with i(2) probe_complete [OF pow _ s, of d "tb_capacity t" key v] have less: "probe (tb_capacity t) t key ?s < tb_capacity t" by simp
  with probe_sound [OF pow s, of "tb_capacity t" key] obtain w where w: "tb_slots t ! probe (tb_capacity t) t key ?s = Occupied key w" by auto
  have "probe (tb_capacity t) t key ?s = i" using table_okD(6) [OF assms(1) less i(1) w i(2)] .
  with less i f show ?thesis by simp
qed

lemma find_slot_absent:
  assumes "table_ok hash t" and "\<forall>v. (key, v) \<notin> table_entries t"
  shows "find_slot t key (hash key) = tb_capacity t"
proof (cases "tb_capacity t = 0")
  case False
  then have c: "0 < tb_capacity t" by simp
  note pow = table_okD(1) [OF assms(1) c]
  have s: "hash key mod tb_capacity t < tb_capacity t" using c by simp
  show ?thesis
    using probe_sound [OF pow s, of "tb_capacity t" key] assms(2) table_entriesI [of _ t key] c
    by (auto simp: find_slot_def and_mask_mod [OF pow])
qed (simp add: find_slot_def)

lemma entries_functional: "\<lbrakk>table_ok hash t; (k, v) \<in> table_entries t; (k, w) \<in> table_entries t\<rbrakk> \<Longrightarrow> v = w"
  using find_slot_found [of hash t k v] find_slot_found [of hash t k w] by simp

text \<open>A search for a free slot ends where one is free, at the first.\<close>

lemma free_slot_found:
  assumes "\<exists>n. tb_capacity t = 2 ^ n" and "start < tb_capacity t" and "\<not> occupied (tb_slots t ! slot_after t start d)"
  shows "\<exists>e \<le> d. free_slot_from t start = Some (slot_after t start e) \<and> \<not> occupied (tb_slots t ! slot_after t start e) \<and>
    (\<forall>f < e. occupied (tb_slots t ! slot_after t start f))"
  using assms(2,3)
proof (induction d arbitrary: start)
  case 0
  then show ?case by (simp add: free_slot_from.simps [of t start])
next
  case (Suc d)
  show ?case
  proof (cases "occupied (tb_slots t ! start)")
    case True
    let ?s = "Suc start mod tb_capacity t"
    have "?s < tb_capacity t" using Suc.prems(1) by (metis mod_less_divisor zero_less_iff_neq_zero not_less_zero)
    then obtain e where e: "e \<le> d" "free_slot_from t ?s = Some (slot_after t ?s e)" "\<not> occupied (tb_slots t ! slot_after t ?s e)"
        "\<forall>f < e. occupied (tb_slots t ! slot_after t ?s f)"
      using Suc.IH [of ?s] Suc.prems(2) by (auto simp: slot_after_Suc)
    have "\<forall>f < Suc e. occupied (tb_slots t ! slot_after t start f)"
      using e(4) True Suc.prems(1) by (simp add: slot_after_Suc All_less_Suc2)
    with e True show ?thesis
      by (intro exI [of _ "Suc e"]) (simp add: free_slot_from.simps [of t start] and_mask_mod [OF assms(1)] slot_after_Suc)
  next
    case False
    with Suc.prems(1) show ?thesis by (intro exI [of _ 0]) (simp add: free_slot_from.simps [of t start])
  qed
qed

lemma filter_length_less: "length (filter P xs) < length xs \<Longrightarrow> \<exists>i < length xs. \<not> P (xs ! i)"
  by (metis filter_True in_set_conv_nth less_irrefl)

lemma occupied_count: "length (filter occupied xs) \<le> length (filter (\<lambda>s. s \<noteq> Slot_empty) xs)"
  by (induction xs) (auto simp: occupied_iff)

definition free_for :: "('k \<Rightarrow> nat) \<Rightarrow> 'k \<Rightarrow> nat \<Rightarrow> ('k, 'v) table \<Rightarrow> bool" where
  "free_for hash key slot t \<longleftrightarrow> slot < tb_capacity t \<and> \<not> occupied (tb_slots t ! slot) \<and> in_reach hash t key slot"

lemma find_free_slot_found:
  assumes "table_ok hash t" and c: "0 < tb_capacity t"
  shows "\<exists>slot. find_free_slot t (hash key) = Some slot \<and> free_for hash key slot t"
proof -
  note pow = table_okD(1) [OF assms]
  have "length (filter occupied (tb_slots t)) < tb_capacity t"
    using table_okD(2) [OF assms] table_okD(5) [OF assms(1)] occupied_count [of "tb_slots t"] by simp
  then obtain i where i: "i < tb_capacity t" "\<not> occupied (tb_slots t ! i)" using filter_length_less by blast
  let ?s = "hash key mod tb_capacity t"
  obtain d where d: "d < tb_capacity t" "slot_after t ?s d = i" using slot_after_all [OF i(1)] by blast
  have "?s < tb_capacity t" using c by simp
  from free_slot_found [OF pow this, of d] i(2) d obtain e where "e \<le> d" "free_slot_from t ?s = Some (slot_after t ?s e)"
      "\<not> occupied (tb_slots t ! slot_after t ?s e)" "\<forall>f < e. occupied (tb_slots t ! slot_after t ?s f)" by blast
  moreover from this d have "in_reach hash t key (slot_after t ?s e)"
    unfolding in_reach_def by (intro exI [of _ e]) (force simp: occupied_iff)
  ultimately show ?thesis using c by (simp add: find_free_slot_def free_for_def and_mask_mod [OF pow])
qed

section \<open>Changing a table\<close>

lemma length_filter_update:
  "i < length xs \<Longrightarrow> length (filter P (xs[i := x])) + of_bool (P (xs ! i)) = length (filter P xs) + of_bool (P x)"
proof (induction xs arbitrary: i)
  case (Cons y ys)
  then show ?case
  proof (cases i)
    case (Suc j)
    with Cons.IH [of j] Cons.prems show ?thesis by (cases "P y") simp_all
  qed simp
qed simp

lemma entries_update:
  assumes "i < tb_capacity t" and "tb_slots t' = (tb_slots t)[i := s]"
  shows "(k, v) \<in> table_entries t' \<longleftrightarrow> s = Occupied k v \<or> (\<exists>j < tb_capacity t. j \<noteq> i \<and> tb_slots t ! j = Occupied k v)"
  unfolding table_entries_def assms(2) using assms(1) by (auto simp: in_set_conv_nth nth_list_update)

lemma entries_iff: "(k, v) \<in> table_entries t \<longleftrightarrow> (\<exists>j < tb_capacity t. tb_slots t ! j = Occupied k v)"
  by (auto simp: table_entries_def in_set_conv_nth)

lemma in_reach_mono:
  assumes "in_reach hash t k i" and "tb_capacity t' = tb_capacity t"
    and "\<And>j. j < tb_capacity t \<Longrightarrow> tb_slots t ! j \<noteq> Slot_empty \<Longrightarrow> tb_slots t' ! j \<noteq> Slot_empty"
  shows "in_reach hash t' k i"
proof -
  obtain d where d: "d < tb_capacity t" "i = slot_after t (hash k) d" "\<forall>e < d. tb_slots t ! slot_after t (hash k) e \<noteq> Slot_empty"
    using assms(1) by (auto simp: in_reach_def)
  then have "0 < tb_capacity t" by linarith
  with d assms(2,3) show ?thesis unfolding in_reach_def by (intro exI [of _ d]) (simp add: slot_after_def)
qed

lemma slot_of_key:
  assumes "table_ok hash t" and "slot < tb_capacity t" "tb_slots t ! slot = Occupied key val"
    and "j < tb_capacity t" "tb_slots t ! j = Occupied k v"
  shows "j = slot \<longleftrightarrow> k = key"
  using table_okD(6) [OF assms(1,4,2) _ assms(3)] assms(3,5) by auto

text \<open>Putting an entry whose key is not there into a free slot, whatever is then counted as used.\<close>

lemma table_ok_put:
  assumes ok: "table_ok hash t" and free: "free_for hash key slot t" and new: "\<forall>v. (key, v) \<notin> table_entries t"
    and t': "tb_slots t' = (tb_slots t)[slot := Occupied key val]" "tb_live t' = tb_live t + 1"
    and used: "tb_used t' < tb_capacity t" "tb_used t + of_bool (tb_slots t ! slot = Slot_empty) \<le> tb_used t'"
  shows "table_ok hash t'" and "table_entries t' = insert (key, val) (table_entries t)"
proof -
  have s: "slot < tb_capacity t" "\<not> occupied (tb_slots t ! slot)" using free by (simp_all add: free_for_def)
  have cap: "tb_capacity t' = tb_capacity t" by (simp add: t')
  have kept: "tb_slots t' ! j = Occupied key val \<and> j = slot \<or> tb_slots t' ! j = tb_slots t ! j \<and> j \<noteq> slot" if "j < tb_capacity t" for j
    using that s(1) by (cases "j = slot") (simp_all add: t')
  have reach: "in_reach hash t' k i" if "in_reach hash t k i" for k i
    using in_reach_mono [OF that cap] kept by (metis table_slot.distinct(1))
  have fresh: "k \<noteq> key" if "j < tb_capacity t" "tb_slots t ! j = Occupied k v" for j k v
    using new table_entriesI [OF that] by auto
  show "table_ok hash t'" unfolding table_ok_def
  proof (intro conjI allI impI)
    show "tb_capacity t' = 0 \<or> (\<exists>n. tb_capacity t' = 2 ^ n) \<and> 1 < tb_capacity t' \<and> tb_used t' < tb_capacity t'"
      using table_okD(1,3) [OF ok] s(1) used(1) cap by (cases "tb_capacity t = 0") simp_all
    show "tb_live t' = length (filter occupied (tb_slots t'))"
      using length_filter_update [OF s(1), of occupied "Occupied key val"] s(2) table_okD(4) [OF ok] by (simp add: t')
    show "length (filter (\<lambda>s. s \<noteq> Slot_empty) (tb_slots t')) \<le> tb_used t'"
      using length_filter_update [OF s(1), of "\<lambda>s. s \<noteq> Slot_empty" "Occupied key val"] used(2) table_okD(5) [OF ok]
      by (cases "tb_slots t ! slot = Slot_empty") (simp_all add: t')
  next
    fix i j k v w assume a: "i < tb_capacity t'" "j < tb_capacity t'" "tb_slots t' ! i = Occupied k v" "tb_slots t' ! j = Occupied k w"
    then show "i = j" using kept [of i] kept [of j] fresh [of i k v] fresh [of j k w] table_okD(6) [OF ok, of i j k v w] by (auto simp: cap)
  next
    fix i k v assume a: "i < tb_capacity t'" "tb_slots t' ! i = Occupied k v"
    then show "in_reach hash t' k i" using kept [of i] reach table_okD(7) [OF ok, of i k v] free by (auto simp: cap free_for_def)
  qed
  show "table_entries t' = insert (key, val) (table_entries t)"
  proof -
    have "(k, v) \<in> table_entries t' \<longleftrightarrow> (k, v) = (key, val) \<or> (k, v) \<in> table_entries t" for k v
      unfolding entries_update [OF s(1) t'(1)] entries_iff [of k v t] using s(2) by (cases "tb_slots t ! slot") auto
    then show ?thesis by auto
  qed
qed

lemma table_ok_tombstone:
  assumes ok: "table_ok hash t" and s: "slot < tb_capacity t" "tb_slots t ! slot = Occupied key val"
    and t': "tb_slots t' = (tb_slots t)[slot := Tombstone]" "tb_live t' = tb_live t - 1" "tb_used t' = tb_used t"
  shows "table_ok hash t'" and "table_entries t' = {p \<in> table_entries t. fst p \<noteq> key}" and "tb_live t = tb_live t' + 1"
proof -
  have cap: "tb_capacity t' = tb_capacity t" by (simp add: t')
  have kept: "tb_slots t' ! j = Tombstone \<and> j = slot \<or> tb_slots t' ! j = tb_slots t ! j \<and> j \<noteq> slot" if "j < tb_capacity t" for j
    using that s(1) by (cases "j = slot") (simp_all add: t')
  have reach: "in_reach hash t' k i" if "in_reach hash t k i" for k i
    using in_reach_mono [OF that cap] kept by (metis table_slot.distinct(3))
  have live: "length (filter occupied (tb_slots t')) + 1 = length (filter occupied (tb_slots t))"
    using length_filter_update [OF s(1), of occupied Tombstone] s(2) by (simp add: t')
  then show "tb_live t = tb_live t' + 1" using table_okD(4) [OF ok] by (simp add: t')
  show "table_ok hash t'" unfolding table_ok_def
  proof (intro conjI allI impI)
    show "tb_capacity t' = 0 \<or> (\<exists>n. tb_capacity t' = 2 ^ n) \<and> 1 < tb_capacity t' \<and> tb_used t' < tb_capacity t'"
      using table_okD(1,2,3) [OF ok] s(1) cap t'(3) by auto
    show "tb_live t' = length (filter occupied (tb_slots t'))" using live table_okD(4) [OF ok] by (simp add: t')
    show "length (filter (\<lambda>s. s \<noteq> Slot_empty) (tb_slots t')) \<le> tb_used t'"
      using length_filter_update [OF s(1), of "\<lambda>s. s \<noteq> Slot_empty" Tombstone] s(2) table_okD(5) [OF ok] by (simp add: t')
  next
    fix i j k v w assume a: "i < tb_capacity t'" "j < tb_capacity t'" "tb_slots t' ! i = Occupied k v" "tb_slots t' ! j = Occupied k w"
    then show "i = j" using kept [of i] kept [of j] table_okD(6) [OF ok, of i j k v w] by (auto simp: cap)
  next
    fix i k v assume a: "i < tb_capacity t'" "tb_slots t' ! i = Occupied k v"
    then show "in_reach hash t' k i" using kept [of i] reach table_okD(7) [OF ok, of i k v] by (auto simp: cap)
  qed
  note only = slot_of_key [OF ok s]
  have "(k, v) \<in> table_entries t' \<longleftrightarrow> (k, v) \<in> table_entries t \<and> k \<noteq> key" for k v
    unfolding entries_update [OF s(1) t'(1)] entries_iff [of k v t] using only by blast
  then show "table_entries t' = {p \<in> table_entries t. fst p \<noteq> key}" by auto
qed

lemma table_ok_assign:
  assumes ok: "table_ok hash t" and s: "slot < tb_capacity t" "tb_slots t ! slot = Occupied key old"
  shows "table_ok hash (assign_at slot key val t)"
    and "table_entries (assign_at slot key val t) = insert (key, val) {p \<in> table_entries t. fst p \<noteq> key}"
proof -
  let ?t = "assign_at slot key val t"
  have cap: "tb_capacity ?t = tb_capacity t" by (simp add: assign_at_def)
  have kept: "tb_slots ?t ! j = Occupied key val \<and> j = slot \<or> tb_slots ?t ! j = tb_slots t ! j \<and> j \<noteq> slot" if "j < tb_capacity t" for j
    using that s(1) by (cases "j = slot") (simp_all add: assign_at_def)
  have reach: "in_reach hash ?t k i" if "in_reach hash t k i" for k i
    using in_reach_mono [OF that cap] kept by (metis table_slot.distinct(1))
  show "table_ok hash ?t" unfolding table_ok_def
  proof (intro conjI allI impI)
    show "tb_capacity ?t = 0 \<or> (\<exists>n. tb_capacity ?t = 2 ^ n) \<and> 1 < tb_capacity ?t \<and> tb_used ?t < tb_capacity ?t"
      using table_okD(1,2,3) [OF ok] s(1) cap by (auto simp: assign_at_def)
    show "tb_live ?t = length (filter occupied (tb_slots ?t))"
      using length_filter_update [OF s(1), of occupied "Occupied key val"] s(2) table_okD(4) [OF ok] by (simp add: assign_at_def)
    show "length (filter (\<lambda>s. s \<noteq> Slot_empty) (tb_slots ?t)) \<le> tb_used ?t"
      using length_filter_update [OF s(1), of "\<lambda>s. s \<noteq> Slot_empty" "Occupied key val"] s(2) table_okD(5) [OF ok] by (simp add: assign_at_def)
  next
    fix i j k v w assume a: "i < tb_capacity ?t" "j < tb_capacity ?t" "tb_slots ?t ! i = Occupied k v" "tb_slots ?t ! j = Occupied k w"
    have only: "l = slot" if "l < tb_capacity t" "tb_slots ?t ! l = Occupied key x" for l x
      using kept [OF that(1)] that table_okD(6) [OF ok s(1) that(1) s(2), of x] by auto
    show "i = j"
    proof (cases "k = key")
      case True
      with only [of i v] only [of j w] a cap show ?thesis by simp
    next
      case False
      with kept [of i] kept [of j] a cap have "tb_slots t ! i = Occupied k v" "tb_slots t ! j = Occupied k w" by auto
      with table_okD(6) [OF ok] a cap show ?thesis by simp
    qed
  next
    fix i k v assume a: "i < tb_capacity ?t" "tb_slots ?t ! i = Occupied k v"
    then show "in_reach hash ?t k i" using kept [of i] reach table_okD(7) [OF ok, of i k v] table_okD(7) [OF ok s] by (auto simp: cap)
  qed
  note only = slot_of_key [OF ok s]
  have slots: "tb_slots ?t = (tb_slots t)[slot := Occupied key val]" by (simp add: assign_at_def)
  have "(k, v) \<in> table_entries ?t \<longleftrightarrow> k = key \<and> v = val \<or> (k, v) \<in> table_entries t \<and> k \<noteq> key" for k v
    unfolding entries_update [OF s(1) slots] entries_iff [of k v t] using only by blast
  then show "table_entries ?t = insert (key, val) {p \<in> table_entries t. fst p \<noteq> key}" by auto
qed

lemma fresh_table:
  assumes "c = 0 \<or> (\<exists>n. c = 2 ^ n) \<and> 1 < c"
  shows "table_ok hash \<lparr>tb_slots = replicate c Slot_empty, tb_live = 0, tb_used = 0\<rparr>"
    and "table_entries \<lparr>tb_slots = replicate c Slot_empty, tb_live = 0, tb_used = 0\<rparr> = {}"
  using assms by (auto simp: table_ok_def table_entries_def filter_replicate)

section \<open>Migrating\<close>

definition rm_entries :: "('k, 'v) rehash_map \<Rightarrow> ('k \<times> 'v) set" where
  "rm_entries m = table_entries (rm_current m) \<union> table_entries (rm_next m)"

text \<open>
  What holds while entries are moved: no key is in both tables, the slots already examined hold no entry, and the table
  moved into has room for all that is still to come, with a slot left over.
\<close>

definition moving :: "('k \<Rightarrow> nat) \<Rightarrow> ('k, 'v) rehash_map \<Rightarrow> bool" where
  "moving hash m \<longleftrightarrow>
     table_ok hash (rm_current m) \<and> table_ok hash (rm_next m) \<and> 0 < tb_capacity (rm_current m) \<and> 0 < tb_capacity (rm_next m) \<and>
     rm_size m = tb_live (rm_current m) + tb_live (rm_next m) \<and> rm_migration_cursor m \<le> tb_capacity (rm_current m) \<and>
     (\<forall>i < rm_migration_cursor m. \<not> occupied (tb_slots (rm_current m) ! i)) \<and>
     fst ` table_entries (rm_current m) \<inter> fst ` table_entries (rm_next m) = {} \<and>
     2 * tb_live (rm_current m) < tb_capacity (rm_next m) \<and>
     tb_used (rm_next m) + tb_live (rm_current m) < tb_capacity (rm_next m)"

definition rm_ok :: "('k \<Rightarrow> nat) \<Rightarrow> ('k, 'v) rehash_map \<Rightarrow> bool" where
  "rm_ok hash m \<longleftrightarrow>
     (if is_migrating m then moving hash m \<and> rm_migration_cursor m < tb_capacity (rm_current m)
      else table_ok hash (rm_current m) \<and> rm_next m = no_table \<and> rm_migration_cursor m = 0 \<and> rm_size m = tb_live (rm_current m))"

lemma entries_split:
  assumes "table_ok hash t" and "(k, v) \<in> table_entries t"
  shows "insert (k, v) {p \<in> table_entries t. fst p \<noteq> k} = table_entries t"
  using assms(2) by (auto dest: entries_functional [OF assms])

lemma movingD:
  assumes "moving hash m"
  shows "table_ok hash (rm_current m)" "table_ok hash (rm_next m)" "0 < tb_capacity (rm_current m)" "0 < tb_capacity (rm_next m)"
    "rm_size m = tb_live (rm_current m) + tb_live (rm_next m)" "rm_migration_cursor m \<le> tb_capacity (rm_current m)"
    "\<And>i. i < rm_migration_cursor m \<Longrightarrow> \<not> occupied (tb_slots (rm_current m) ! i)"
    "fst ` table_entries (rm_current m) \<inter> fst ` table_entries (rm_next m) = {}"
    "2 * tb_live (rm_current m) < tb_capacity (rm_next m)"
    "tb_used (rm_next m) + tb_live (rm_current m) < tb_capacity (rm_next m)"
  using assms unfolding moving_def by blast+

lemma move_slot_ok:
  assumes mv: "moving hash m" and less: "rm_migration_cursor m < tb_capacity (rm_current m)"
  shows "\<exists>m'. move_slot hash (rm_migration_cursor m) m = Some m' \<and> rm_migration_cursor m' = rm_migration_cursor m \<and>
    tb_capacity (rm_current m') = tb_capacity (rm_current m) \<and> rm_size m' = rm_size m \<and> rm_entries m' = rm_entries m \<and>
    moving hash (m'\<lparr>rm_migration_cursor := rm_migration_cursor m + 1\<rparr>)"
proof (cases "tb_slots (rm_current m) ! rm_migration_cursor m")
  case (Occupied k v)
  let ?c = "rm_current m" and ?n = "rm_next m" and ?i = "rm_migration_cursor m"
  note D = movingD [OF mv]
  obtain d where d: "find_free_slot ?n (hash k) = Some d" "free_for hash k d ?n" using find_free_slot_found [OF D(2,4)] by blast
  let ?c' = "?c\<lparr>tb_slots := (tb_slots ?c)[?i := Tombstone], tb_live := tb_live ?c - 1\<rparr>"
  let ?n' = "?n\<lparr>tb_slots := (tb_slots ?n)[d := Occupied k v], tb_live := tb_live ?n + 1, tb_used := tb_used ?n + 1\<rparr>"
  let ?m' = "m\<lparr>rm_next := ?n', rm_current := ?c'\<rparr>"
  have m': "move_slot hash ?i m = Some ?m'" by (simp add: move_slot_def Occupied d)
  have here: "(k, v) \<in> table_entries ?c" by (rule table_entriesI [OF less Occupied])
  have new: "\<forall>w. (k, w) \<notin> table_entries ?n"
  proof (intro allI notI)
    fix w assume "(k, w) \<in> table_entries ?n"
    with here have "k \<in> fst ` table_entries ?c \<inter> fst ` table_entries ?n" by force
    with D(8) show False by simp
  qed
  note T = table_ok_tombstone [OF D(1) less Occupied, of ?c', simplified]
  have "tb_used ?n + 1 < tb_capacity ?n" using T(3) D(10) by simp
  note P = table_ok_put [OF D(2) d(2) new, of ?n' v, simplified, OF this [simplified]]
  have "moving hash (?m'\<lparr>rm_migration_cursor := ?i + 1\<rparr>)" unfolding moving_def
  proof (intro conjI)
    show "\<forall>i < rm_migration_cursor (?m'\<lparr>rm_migration_cursor := ?i + 1\<rparr>).
        \<not> occupied (tb_slots (rm_current (?m'\<lparr>rm_migration_cursor := ?i + 1\<rparr>)) ! i)"
      using D(7) less by (auto simp: nth_list_update less_Suc_eq)
    show "fst ` table_entries (rm_current (?m'\<lparr>rm_migration_cursor := ?i + 1\<rparr>)) \<inter>
        fst ` table_entries (rm_next (?m'\<lparr>rm_migration_cursor := ?i + 1\<rparr>)) = {}"
      using D(8) by (auto simp: T(2) P(2))
  qed (use D T(1,3) P(1) less in simp_all)
  moreover have "rm_entries ?m' = rm_entries m"
    unfolding rm_entries_def using entries_split [OF D(1) here] by (simp add: T(2) P(2)) blast
  ultimately show ?thesis using m' by auto
next
  case Slot_empty
  with mv less show ?thesis by (auto simp: move_slot_def moving_def less_Suc_eq)
next
  case Tombstone
  with mv less show ?thesis by (auto simp: move_slot_def moving_def less_Suc_eq)
qed

lemma move_slots_ok:
  assumes "moving hash m"
  shows "\<exists>m'. move_slots hash n m = Some m' \<and> moving hash m' \<and> rm_size m' = rm_size m \<and> rm_entries m' = rm_entries m \<and>
    tb_capacity (rm_current m') = tb_capacity (rm_current m) \<and>
    rm_migration_cursor m' = min (rm_migration_cursor m + n) (tb_capacity (rm_current m))"
  using assms
proof (induction n arbitrary: m)
  case 0
  with movingD(6) [OF 0] show ?case by simp
next
  case (Suc n)
  show ?case
  proof (cases "rm_migration_cursor m < tb_capacity (rm_current m)")
    case True
    obtain m1 where 1: "move_slot hash (rm_migration_cursor m) m = Some m1" "rm_migration_cursor m1 = rm_migration_cursor m"
        "tb_capacity (rm_current m1) = tb_capacity (rm_current m)" "rm_size m1 = rm_size m" "rm_entries m1 = rm_entries m"
        "moving hash (m1\<lparr>rm_migration_cursor := rm_migration_cursor m + 1\<rparr>)"
      using move_slot_ok [OF Suc.prems True] by blast
    with Suc.IH [OF 1(6)] True show ?thesis by (auto simp: rm_entries_def)
  qed (use Suc.prems movingD(6) [OF Suc.prems] in simp)
qed

lemma rm_ok_settled:
  "\<not> is_migrating m \<Longrightarrow>
     rm_ok hash m \<longleftrightarrow> table_ok hash (rm_current m) \<and> rm_next m = no_table \<and> rm_migration_cursor m = 0 \<and> rm_size m = tb_live (rm_current m)"
  by (simp add: rm_ok_def)

lemma rm_ok_moving: "is_migrating m \<Longrightarrow> rm_ok hash m \<longleftrightarrow> moving hash m \<and> rm_migration_cursor m < tb_capacity (rm_current m)"
  by (simp add: rm_ok_def)

text \<open>What is the same after anything that only moves entries.\<close>

definition same_map :: "('k \<Rightarrow> nat) \<Rightarrow> ('k, 'v) rehash_map \<Rightarrow> ('k, 'v) rehash_map \<Rightarrow> bool" where
  "same_map hash m m' \<longleftrightarrow> rm_ok hash m' \<and> rm_size m' = rm_size m \<and> rm_entries m' = rm_entries m \<and>
     (0 < tb_capacity (rm_current m) \<longrightarrow> 0 < tb_capacity (rm_current m'))"

lemma finish_migration_ok:
  assumes mv: "moving hash m" and all: "tb_capacity (rm_current m) \<le> rm_migration_cursor m"
  shows "same_map hash m (finish_migration m)" and "\<not> is_migrating (finish_migration m)"
proof -
  have none: "\<not> occupied s" if "s \<in> set (tb_slots (rm_current m))" for s
    using that movingD(7) [OF mv] all by (auto simp: in_set_conv_nth)
  then have "table_entries (rm_current m) = {}" by (auto simp: table_entries_def occupied_iff)
  moreover have "tb_live (rm_current m) = 0" using none table_okD(4) [OF movingD(1) [OF mv]] by (simp add: filter_empty_conv)
  ultimately show "same_map hash m (finish_migration m)"
    using movingD [OF mv] by (simp add: same_map_def rm_ok_def finish_migration_def is_migrating_def no_table_def rm_entries_def table_entries_def)
  show "\<not> is_migrating (finish_migration m)" by (simp add: finish_migration_def is_migrating_def no_table_def)
qed

lemma step_migration_ok:
  assumes ok: "rm_ok hash m"
  shows "\<exists>m'. step_migration hash m = Some m' \<and> same_map hash m m' \<and>
    (is_migrating m \<longrightarrow> migration_slots_remaining m' < migration_slots_remaining m)"
proof (cases "is_migrating m")
  case True
  with ok have mv: "moving hash m" and less: "rm_migration_cursor m < tb_capacity (rm_current m)" by (simp_all add: rm_ok_moving)
  obtain m' where m': "move_slots hash migration_slots_per_operation m = Some m'" "moving hash m'" "rm_size m' = rm_size m"
      "rm_entries m' = rm_entries m" "tb_capacity (rm_current m') = tb_capacity (rm_current m)"
      "rm_migration_cursor m' = min (rm_migration_cursor m + migration_slots_per_operation) (tb_capacity (rm_current m))"
    using move_slots_ok [OF mv] by blast
  have mig: "is_migrating m'" using movingD(4) [OF m'(2)] by (simp add: is_migrating_def)
  show ?thesis
  proof (cases "tb_capacity (rm_current m') \<le> rm_migration_cursor m'")
    case True
    with finish_migration_ok [OF m'(2)] m' \<open>is_migrating m\<close> less show ?thesis
      by (simp add: step_migration_def same_map_def migration_slots_remaining_def)
  next
    case False
    then have "rm_ok hash m'" using mig m'(2) by (simp add: rm_ok_moving)
    moreover have "0 < tb_capacity (rm_current m')" by (rule movingD(3) [OF m'(2)])
    ultimately show ?thesis using False m' mig \<open>is_migrating m\<close> less
      by (auto simp: step_migration_def same_map_def migration_slots_remaining_def migration_slots_per_operation_def)
  qed
qed (use ok in \<open>simp add: step_migration_def same_map_def\<close>)

lemma complete_migration_ok:
  assumes "rm_ok hash m"
  shows "\<exists>m'. complete_migration hash m = Some m' \<and> same_map hash m m' \<and> \<not> is_migrating m'"
  using assms
proof (induction "migration_slots_remaining m" arbitrary: m rule: less_induct)
  case less
  show ?case
  proof (cases "is_migrating m")
    case True
    obtain m1 where 1: "step_migration hash m = Some m1" "same_map hash m m1"
        "is_migrating m \<longrightarrow> migration_slots_remaining m1 < migration_slots_remaining m"
      using step_migration_ok [OF less.prems] by blast
    with less.hyps [of m1] True show ?thesis by (auto simp: complete_migration.simps [of hash m] same_map_def)
  qed (use less.prems in \<open>simp add: complete_migration.simps [of hash m] same_map_def\<close>)
qed

lemma begin_migration_ok:
  assumes ok: "rm_ok hash m" and settled: "\<not> is_migrating m" and c: "0 < tb_capacity (rm_current m)"
    and target: "\<exists>n. c = 2 ^ n" "1 < c" "2 * tb_live (rm_current m) < c"
  shows "same_map hash m (begin_migration c m)" and "is_migrating (begin_migration c m)"
    and "rm_next (begin_migration c m) = allocate_table c"
proof -
  let ?n = "rm_next (begin_migration c m)"
  have "table_ok hash ?n" "table_entries ?n = {}"
    using fresh_table(1) [of c hash] fresh_table(2) [of c] target(1,2) by (simp_all add: begin_migration_def allocate_table_def)
  then show "same_map hash m (begin_migration c m)"
    using assms by (simp add: same_map_def rm_ok_settled [OF settled] rm_ok_def is_migrating_def begin_migration_def moving_def rm_entries_def
        allocate_table_def)
qed (use target in \<open>simp_all add: begin_migration_def is_migrating_def allocate_table_def\<close>)

lemma power_of_two_double: "\<exists>n. c = 2 ^ n \<Longrightarrow> \<exists>n. c * 2 = (2 :: nat) ^ n"
  by (metis power_Suc2)

lemma start_again_ok:
  assumes ok: "rm_ok hash m" and settled: "\<not> is_migrating m" and c: "0 < tb_capacity (rm_current m)"
  shows "same_map hash m (start_again m)" and "is_migrating (start_again m)"
    and "tb_used (rm_next (start_again m)) = 0" and "1 < tb_capacity (rm_next (start_again m))"
proof -
  let ?t = "rm_current m"
  let ?c = "if tb_capacity ?t < tb_live ?t * 2 * 2 then tb_capacity ?t * 2 else tb_capacity ?t"
  have t: "table_ok hash ?t" using ok by (simp add: rm_ok_settled [OF settled])
  have "tb_live ?t < tb_capacity ?t"
    using table_okD(2) [OF t c] table_okD(4,5) [OF t] occupied_count [of "tb_slots ?t"] by simp
  then have "2 * tb_live ?t < ?c" "1 < ?c" "\<exists>n. ?c = 2 ^ n"
    using table_okD(3) [OF t c] table_okD(1) [OF t c] power_of_two_double c by auto
  note B = begin_migration_ok [OF ok settled c this(3,2,1)]
  show "same_map hash m (start_again m)" "is_migrating (start_again m)" using B by (simp_all add: start_again_def)
  show "tb_used (rm_next (start_again m)) = 0" "1 < tb_capacity (rm_next (start_again m))"
    using B(3) \<open>1 < ?c\<close> by (simp_all add: start_again_def allocate_table_def split: if_splits)
qed

section \<open>Room for one more\<close>

definition target_of :: "('k, 'v) rehash_map \<Rightarrow> ('k, 'v) table" where
  "target_of m = (if is_migrating m then rm_next m else rm_current m)"

definition room_for_one :: "('k, 'v) rehash_map \<Rightarrow> bool" where
  "room_for_one m \<longleftrightarrow> 0 < tb_capacity (target_of m) \<and> (tb_used (target_of m) + 1) * 2 \<le> tb_capacity (target_of m)"

lemma minimum_is_power: "\<exists>n. minimum_capacity = 2 ^ n" "1 < minimum_capacity"
  by (auto simp: minimum_capacity_def intro!: exI [of _ 4])

lemma no_capacity: "tb_capacity t = 0 \<Longrightarrow> table_entries t = {}"
  by (simp add: table_entries_def)

lemma new_table_ok:
  assumes ok: "rm_ok hash m" and settled: "\<not> is_migrating m" and none: "rm_size m = 0"
    and c: "\<exists>n. c = 2 ^ n" "1 < c"
  shows "same_map hash m (m\<lparr>rm_current := allocate_table c\<rparr>)"
proof -
  let ?t = "rm_current (m\<lparr>rm_current := allocate_table c\<rparr>)"
  have t: "table_ok hash ?t" "table_entries ?t = {}"
    using fresh_table(1) [of c hash] fresh_table(2) [of c] c by (simp_all add: allocate_table_def)
  have old: "table_ok hash (rm_current m)" "tb_live (rm_current m) = 0" using ok none by (simp_all add: rm_ok_settled [OF settled])
  then have "filter occupied (tb_slots (rm_current m)) = []" using table_okD(4) [OF old(1)] by simp
  then have "table_entries (rm_current m) = {}" by (auto simp: table_entries_def filter_empty_conv)
  with t show ?thesis
    using ok settled none c(2) by (simp add: same_map_def rm_ok_def is_migrating_def rm_entries_def allocate_table_def)
qed

lemma make_room_ok:
  assumes ok: "rm_ok hash m"
  shows "\<exists>m'. make_room_for_one hash m = Some m' \<and> same_map hash m m' \<and> room_for_one m'"
proof (cases "tb_capacity (rm_current m) = 0 \<and> \<not> is_migrating m")
  case True
  then have settled: "\<not> is_migrating m" by simp
  have "rm_size m = 0" using ok True table_okD(4) [of hash "rm_current m"] by (simp add: rm_ok_settled [OF settled])
  from new_table_ok [OF ok settled this minimum_is_power] True show ?thesis
    by (simp add: make_room_for_one_def room_for_one_def target_of_def is_migrating_def allocate_table_def minimum_capacity_def)
next
  case False
  have again: "same_map hash m (start_again m')" "room_for_one (start_again m')"
    if "same_map hash m m'" "\<not> is_migrating m'" "0 < tb_capacity (rm_current m')" for m'
    using start_again_ok [of hash m'] that by (auto simp: same_map_def room_for_one_def target_of_def)
  show ?thesis
  proof (cases "(tb_used (target_of m) + 1) * 2 \<le> tb_capacity (target_of m)")
    case True
    with False have "make_room_for_one hash m = Some m" by (auto simp: make_room_for_one_def target_of_def Let_def)
    moreover have "0 < tb_capacity (target_of m)" using False by (auto simp: target_of_def is_migrating_def)
    ultimately show ?thesis using ok True by (simp add: same_map_def room_for_one_def)
  next
    case full: False
    show ?thesis
    proof (cases "is_migrating m")
      case True
      obtain m' where m': "complete_migration hash m = Some m'" "same_map hash m m'" "\<not> is_migrating m'"
        using complete_migration_ok [OF ok] by blast
      moreover have "0 < tb_capacity (rm_current m)" using ok True movingD(3) by (auto simp: rm_ok_moving)
      ultimately show ?thesis using again [of m'] full True
        by (auto simp: make_room_for_one_def target_of_def Let_def same_map_def)
    next
      case settled: False
      with again [of m] ok full False show ?thesis by (auto simp: make_room_for_one_def target_of_def Let_def same_map_def)
    qed
  qed
qed

section \<open>Looking up\<close>

lemma rm_ok_tables: "rm_ok hash m \<Longrightarrow> table_ok hash (rm_current m) \<and> table_ok hash (rm_next m)"
  using fresh_table(1) [of 0 hash] by (auto simp: rm_ok_def moving_def no_table_def split: if_splits)

lemma rm_ok_apart: "rm_ok hash m \<Longrightarrow> fst ` table_entries (rm_current m) \<inter> fst ` table_entries (rm_next m) = {}"
  by (auto simp: rm_ok_def moving_def split: if_splits)

lemma next_when_migrating: "rm_ok hash m \<Longrightarrow> (k, v) \<in> table_entries (rm_next m) \<Longrightarrow> is_migrating m"
  by (auto simp: rm_ok_def split: if_splits)

lemma rm_entries_functional:
  assumes ok: "rm_ok hash m" and "(k, v) \<in> rm_entries m" "(k, w) \<in> rm_entries m"
  shows "v = w"
proof -
  have "\<not> ((k, a) \<in> table_entries (rm_current m) \<and> (k, b) \<in> table_entries (rm_next m))" for a b
    using rm_ok_apart [OF ok] by force
  with assms rm_ok_tables [OF ok] show ?thesis unfolding rm_entries_def by (auto dest: entries_functional)
qed

text \<open>The table and the slot an entry is in.\<close>

definition names :: "('k, 'v) rehash_map \<Rightarrow> position \<Rightarrow> 'k \<Rightarrow> 'v \<Rightarrow> bool" where
  "names m pos k v \<longleftrightarrow> fst pos < 2 \<and> snd pos < tb_capacity (table_for (fst pos) m) \<and>
     tb_slots (table_for (fst pos) m) ! snd pos = Occupied k v"

lemma advance_here: "names m (i, s) k v \<Longrightarrow> advance_to_occupied m i s = (i, s)"
  by (simp add: names_def advance_to_occupied.simps [of m i s])

lemma names_entry: "names m pos k v \<Longrightarrow> (k, v) \<in> rm_entries m"
  by (auto simp: names_def rm_entries_def table_for_def split: if_splits dest: table_entriesI)

text \<open>The search that \<open>find\<close>, \<open>find_value\<close> and an insertion make: the incoming table, then the outgoing one.\<close>

lemma search_cases:
  assumes ok: "rm_ok hash m"
  obtains (incoming) v where "(key, v) \<in> rm_entries m" "is_migrating m"
      "find_slot (rm_next m) key (hash key) < tb_capacity (rm_next m)"
      "tb_slots (rm_next m) ! find_slot (rm_next m) key (hash key) = Occupied key v"
    | (outgoing) v where "(key, v) \<in> rm_entries m" "\<not> is_migrating m \<or> find_slot (rm_next m) key (hash key) = tb_capacity (rm_next m)"
      "find_slot (rm_current m) key (hash key) < tb_capacity (rm_current m)"
      "tb_slots (rm_current m) ! find_slot (rm_current m) key (hash key) = Occupied key v"
    | (absent) "\<forall>v. (key, v) \<notin> rm_entries m" "\<not> is_migrating m \<or> find_slot (rm_next m) key (hash key) = tb_capacity (rm_next m)"
      "find_slot (rm_current m) key (hash key) = tb_capacity (rm_current m)"
proof (cases "\<exists>v. (key, v) \<in> table_entries (rm_next m)")
  case True
  then obtain v where v: "(key, v) \<in> table_entries (rm_next m)" ..
  with find_slot_found [of hash "rm_next m" key v] rm_ok_tables [OF ok] next_when_migrating [OF ok v] show ?thesis
    by (intro incoming [of v]) (auto simp: rm_entries_def)
next
  case False
  note n = find_slot_absent [of hash "rm_next m" key]
  show ?thesis
  proof (cases "\<exists>v. (key, v) \<in> table_entries (rm_current m)")
    case True
    then obtain v where "(key, v) \<in> table_entries (rm_current m)" ..
    with find_slot_found [of hash "rm_current m" key v] rm_ok_tables [OF ok] n False show ?thesis
      by (intro outgoing [of v]) (auto simp: rm_entries_def)
  next
    case none: False
    with find_slot_absent [of hash "rm_current m" key] rm_ok_tables [OF ok] n False show ?thesis
      by (intro absent) (auto simp: rm_entries_def)
  qed
qed

lemma find_value_iff:
  assumes ok: "rm_ok hash m"
  shows "find_value hash key m = Some v \<longleftrightarrow> (key, v) \<in> rm_entries m"
proof -
  note one = rm_entries_functional [OF ok]
  show ?thesis
    by (rule search_cases [OF ok, of key]) (auto simp: find_value_def value_at_def Let_def dest: one)
qed

lemma rm_find_names:
  assumes ok: "rm_ok hash m" and here: "(key, v) \<in> rm_entries m"
  shows "names m (rm_find hash key m) key v"
proof (rule search_cases [OF ok, of key])
  fix w assume "(key, w) \<in> rm_entries m" "is_migrating m" and
    f: "find_slot (rm_next m) key (hash key) < tb_capacity (rm_next m)"
      "tb_slots (rm_next m) ! find_slot (rm_next m) key (hash key) = Occupied key w"
  moreover from this have "w = v" using rm_entries_functional [OF ok] here by blast
  moreover have "names m (1, find_slot (rm_next m) key (hash key)) key w" using f by (simp add: names_def table_for_def)
  ultimately show ?thesis using advance_here by (fastforce simp: rm_find_def Let_def)
next
  fix w assume "(key, w) \<in> rm_entries m" and
    n: "\<not> is_migrating m \<or> find_slot (rm_next m) key (hash key) = tb_capacity (rm_next m)" and
    f: "find_slot (rm_current m) key (hash key) < tb_capacity (rm_current m)"
      "tb_slots (rm_current m) ! find_slot (rm_current m) key (hash key) = Occupied key w"
  moreover from this have "w = v" using rm_entries_functional [OF ok] here by blast
  moreover have "names m (0, find_slot (rm_current m) key (hash key)) key w" using f by (simp add: names_def table_for_def)
  ultimately show ?thesis using advance_here by (fastforce simp: rm_find_def Let_def)
qed (use here in simp)

lemma rm_find_absent:
  assumes "rm_ok hash m" and "\<forall>v. (key, v) \<notin> rm_entries m"
  shows "rm_find hash key m = end_position"
  by (rule search_cases [OF assms(1), of key]) (use assms(2) in \<open>auto simp: rm_find_def Let_def\<close>)

section \<open>Inserting and erasing\<close>

lemma outgoing_changed:
  assumes ok: "rm_ok hash m" and t: "table_ok hash t" "tb_capacity t = tb_capacity (rm_current m)"
    and fewer: "is_migrating m \<Longrightarrow> tb_live t \<le> tb_live (rm_current m) \<and> fst ` table_entries t \<subseteq> fst ` table_entries (rm_current m)"
    and moved: "\<And>i. is_migrating m \<Longrightarrow> i < tb_capacity t \<Longrightarrow> occupied (tb_slots t ! i) \<Longrightarrow> occupied (tb_slots (rm_current m) ! i)"
    and size: "n = tb_live t + tb_live (rm_next m)"
  shows "rm_ok hash (m\<lparr>rm_current := t, rm_size := n\<rparr>)"
proof (cases "is_migrating m")
  case True
  then have mig: "is_migrating (m\<lparr>rm_current := t, rm_size := n\<rparr>)" by (simp add: is_migrating_def)
  have mv: "moving hash m" and less: "rm_migration_cursor m < tb_capacity (rm_current m)" using ok True by (simp_all add: rm_ok_moving)
  note D = movingD [OF mv]
  have "moving hash (m\<lparr>rm_current := t, rm_size := n\<rparr>)" unfolding moving_def
  proof (intro conjI)
    show "\<forall>i < rm_migration_cursor (m\<lparr>rm_current := t, rm_size := n\<rparr>).
        \<not> occupied (tb_slots (rm_current (m\<lparr>rm_current := t, rm_size := n\<rparr>)) ! i)"
      using D(7) less moved [OF True] t(2) by fastforce
    show "fst ` table_entries (rm_current (m\<lparr>rm_current := t, rm_size := n\<rparr>)) \<inter>
        fst ` table_entries (rm_next (m\<lparr>rm_current := t, rm_size := n\<rparr>)) = {}"
      using D(8) fewer [OF True] by simp blast
  qed (use D t fewer [OF True] size in auto)
  with less t(2) show ?thesis by (simp add: rm_ok_moving [OF mig])
next
  case False
  then have mig: "\<not> is_migrating (m\<lparr>rm_current := t, rm_size := n\<rparr>)" by (simp add: is_migrating_def)
  from ok t size show ?thesis unfolding rm_ok_settled [OF mig] rm_ok_settled [OF False] by (simp add: no_table_def)
qed

lemma incoming_changed:
  assumes ok: "rm_ok hash m" and mig: "is_migrating m" and t: "table_ok hash t" "tb_capacity t = tb_capacity (rm_next m)"
    and apart: "fst ` table_entries (rm_current m) \<inter> fst ` table_entries t = {}"
    and room: "tb_used t + tb_live (rm_current m) < tb_capacity t"
    and size: "n = tb_live (rm_current m) + tb_live t"
  shows "rm_ok hash (m\<lparr>rm_next := t, rm_size := n\<rparr>)"
proof -
  have mig': "is_migrating (m\<lparr>rm_next := t, rm_size := n\<rparr>)" using mig t(2) by (simp add: is_migrating_def)
  have mv: "moving hash m" using ok mig by (simp add: rm_ok_moving)
  have "moving hash (m\<lparr>rm_next := t, rm_size := n\<rparr>)"
    using movingD [OF mv] t apart room size unfolding moving_def by simp
  with ok mig show ?thesis by (simp add: rm_ok_moving [OF mig] rm_ok_moving [OF mig'])
qed

lemma rm_size_live: "rm_ok hash m \<Longrightarrow> rm_size m = tb_live (rm_current m) + tb_live (rm_next m)"
  by (auto simp: rm_ok_def moving_def no_table_def split: if_splits)

definition erased :: "position \<Rightarrow> ('k, 'v) rehash_map \<Rightarrow> ('k, 'v) rehash_map" where
  "erased pos m =
     (on_table_for (fst pos) (\<lambda>t. t\<lparr>tb_slots := (tb_slots t)[snd pos := Tombstone], tb_live := tb_live t - 1\<rparr>) m)\<lparr>rm_size := rm_size m - 1\<rparr>"

lemma erased_ok:
  assumes ok: "rm_ok hash m" and n: "names m pos k v"
  shows "rm_ok hash (erased pos m)" and "rm_entries (erased pos m) = {p \<in> rm_entries m. fst p \<noteq> k}" and "rm_size m = rm_size (erased pos m) + 1"
proof -
  let ?t = "table_for (fst pos) m"
  let ?t' = "?t\<lparr>tb_slots := (tb_slots ?t)[snd pos := Tombstone], tb_live := tb_live ?t - 1\<rparr>"
  have pos: "fst pos < 2" "snd pos < tb_capacity ?t" "tb_slots ?t ! snd pos = Occupied k v" using n by (simp_all add: names_def)
  have t: "table_ok hash ?t" using rm_ok_tables [OF ok] by (simp add: table_for_def)
  note T = table_ok_tombstone [OF t pos(2,3), of ?t', simplified]
  have here: "(k, v) \<in> table_entries ?t" by (rule table_entriesI [OF pos(2,3)])
  have size: "rm_size m = tb_live (rm_current m) + tb_live (rm_next m)" by (rule rm_size_live [OF ok])
  have "rm_ok hash (erased pos m) \<and> rm_entries (erased pos m) = {p \<in> rm_entries m. fst p \<noteq> k} \<and> rm_size m = rm_size (erased pos m) + 1"
  proof (cases "fst pos = 0")
    case True
    then have m': "erased pos m = m\<lparr>rm_current := ?t', rm_size := rm_size m - 1\<rparr>" by (simp add: erased_def on_table_for_def table_for_def)
    have cur: "?t = rm_current m" using True by (simp add: table_for_def)
    have "rm_ok hash (erased pos m)" unfolding m'
      using T size pos(2) by (intro outgoing_changed [OF ok]) (auto simp: cur nth_list_update split: if_splits)
    moreover have "\<forall>w. (k, w) \<notin> table_entries (rm_next m)" using rm_ok_apart [OF ok] here unfolding cur by force
    then have "rm_entries (erased pos m) = {p \<in> rm_entries m. fst p \<noteq> k}" using T(2) by (auto simp: m' rm_entries_def cur)
    ultimately show ?thesis using T(3) size by (simp add: m' cur)
  next
    case False
    then have m': "erased pos m = m\<lparr>rm_next := ?t', rm_size := rm_size m - 1\<rparr>" by (simp add: erased_def on_table_for_def table_for_def)
    have nxt: "?t = rm_next m" using False by (simp add: table_for_def)
    have mig: "is_migrating m" using next_when_migrating [OF ok] here unfolding nxt by blast
    then have "tb_used (rm_next m) + tb_live (rm_current m) < tb_capacity (rm_next m)" using ok movingD(10) by (auto simp: rm_ok_moving)
    then have "rm_ok hash (erased pos m)" unfolding m'
      using T size rm_ok_apart [OF ok] by (intro incoming_changed [OF ok mig]) (auto simp: nxt)
    moreover have "\<forall>w. (k, w) \<notin> table_entries (rm_current m)" using rm_ok_apart [OF ok] here unfolding nxt by force
    then have "rm_entries (erased pos m) = {p \<in> rm_entries m. fst p \<noteq> k}" using T(2) by (auto simp: m' rm_entries_def nxt)
    ultimately show ?thesis using T(3) size by (simp add: m' nxt)
  qed
  then show "rm_ok hash (erased pos m)" "rm_entries (erased pos m) = {p \<in> rm_entries m. fst p \<noteq> k}" "rm_size m = rm_size (erased pos m) + 1"
    by simp_all
qed

lemma erase_at_step:
  "pos \<noteq> end_position \<Longrightarrow>
     erase_at hash pos m = Option.bind (step_migration hash (erased pos m)) (\<lambda>m'. Some (advance_to_occupied (erased pos m) (fst pos) (snd pos + 1), m'))"
  by (simp add: erase_at_def erased_def Let_def)

lemma rm_erase_ok:
  assumes ok: "rm_ok hash m"
  shows "\<exists>n m'. rm_erase hash key m = Some (n, m') \<and> rm_ok hash m' \<and> rm_entries m' = {p \<in> rm_entries m. fst p \<noteq> key} \<and>
    rm_size m = rm_size m' + n \<and> n = (if \<exists>v. (key, v) \<in> rm_entries m then 1 else 0)"
proof (cases "\<exists>v. (key, v) \<in> rm_entries m")
  case True
  then obtain v where v: "(key, v) \<in> rm_entries m" ..
  let ?pos = "rm_find hash key m"
  have n: "names m ?pos key v" by (rule rm_find_names [OF ok v])
  then have "?pos \<noteq> end_position" by (auto simp: names_def end_position_def)
  with step_migration_ok [OF erased_ok(1) [OF ok n]] erased_ok(2,3) [OF ok n] True show ?thesis
    by (auto simp: rm_erase_def erase_at_step same_map_def)
next
  case False
  then have "rm_find hash key m = end_position" using rm_find_absent [OF ok] by blast
  moreover have "{p \<in> rm_entries m. fst p \<noteq> key} = rm_entries m" using False by auto
  ultimately show ?thesis using step_migration_ok [OF ok] False by (auto simp: rm_erase_def same_map_def)
qed

lemma assigned_ok:
  assumes ok: "rm_ok hash m" and n: "names m (i, s) k old"
  shows "rm_ok hash (on_table_for i (assign_at s k v) m)" and "rm_size (on_table_for i (assign_at s k v) m) = rm_size m"
    and "rm_entries (on_table_for i (assign_at s k v) m) = insert (k, v) {p \<in> rm_entries m. fst p \<noteq> k}"
proof -
  let ?t = "table_for i m"
  let ?t' = "assign_at s k v ?t"
  have pos: "i < 2" "s < tb_capacity ?t" "tb_slots ?t ! s = Occupied k old" using n by (simp_all add: names_def)
  have t: "table_ok hash ?t" using rm_ok_tables [OF ok] by (simp add: table_for_def)
  note A = table_ok_assign [OF t pos(2,3)]
  have same: "tb_capacity ?t' = tb_capacity ?t" "tb_live ?t' = tb_live ?t" "tb_used ?t' = tb_used ?t" by (simp_all add: assign_at_def)
  have here: "(k, old) \<in> table_entries ?t" by (rule table_entriesI [OF pos(2,3)])
  then have keys: "fst ` table_entries ?t' = fst ` table_entries ?t" by (force simp: A(2))
  have size: "rm_size m = tb_live (rm_current m) + tb_live (rm_next m)" by (rule rm_size_live [OF ok])
  show "rm_size (on_table_for i (assign_at s k v) m) = rm_size m" by (simp add: on_table_for_def)
  have "rm_ok hash (on_table_for i (assign_at s k v) m) \<and>
    rm_entries (on_table_for i (assign_at s k v) m) = insert (k, v) {p \<in> rm_entries m. fst p \<noteq> k}"
  proof (cases "i = 0")
    case True
    have cur: "?t = rm_current m" using True by (simp add: table_for_def)
    have m': "on_table_for i (assign_at s k v) m = m\<lparr>rm_current := ?t', rm_size := rm_size m\<rparr>"
      using True by (simp add: on_table_for_def table_for_def)
    have "rm_ok hash (on_table_for i (assign_at s k v) m)" unfolding m'
    proof (rule outgoing_changed [OF ok])
      show "occupied (tb_slots (rm_current m) ! j)" if "j < tb_capacity ?t'" "occupied (tb_slots ?t' ! j)" for j
        using that pos(2,3) by (cases "j = s") (simp_all add: assign_at_def cur)
    qed (use A(1) same keys size cur in simp_all)
    moreover have "\<forall>w. (k, w) \<notin> table_entries (rm_next m)" using rm_ok_apart [OF ok] here unfolding cur by force
    then have "rm_entries (on_table_for i (assign_at s k v) m) = insert (k, v) {p \<in> rm_entries m. fst p \<noteq> k}"
      using A(2) by (auto simp: m' rm_entries_def cur)
    ultimately show ?thesis by blast
  next
    case False
    have nxt: "?t = rm_next m" using False by (simp add: table_for_def)
    have m': "on_table_for i (assign_at s k v) m = m\<lparr>rm_next := ?t', rm_size := rm_size m\<rparr>"
      using False by (simp add: on_table_for_def table_for_def)
    have mig: "is_migrating m" using next_when_migrating [OF ok] here unfolding nxt by blast
    then have "tb_used (rm_next m) + tb_live (rm_current m) < tb_capacity (rm_next m)" using ok movingD(10) by (auto simp: rm_ok_moving)
    then have "rm_ok hash (on_table_for i (assign_at s k v) m)" unfolding m'
      by (intro incoming_changed [OF ok mig]) (use A(1) same keys size nxt rm_ok_apart [OF ok] in simp_all)
    moreover have "\<forall>w. (k, w) \<notin> table_entries (rm_current m)" using rm_ok_apart [OF ok] here unfolding nxt by force
    then have "rm_entries (on_table_for i (assign_at s k v) m) = insert (k, v) {p \<in> rm_entries m. fst p \<noteq> k}"
      using A(2) by (auto simp: m' rm_entries_def nxt)
    ultimately show ?thesis by blast
  qed
  then show "rm_ok hash (on_table_for i (assign_at s k v) m)"
    "rm_entries (on_table_for i (assign_at s k v) m) = insert (k, v) {p \<in> rm_entries m. fst p \<noteq> k}" by simp_all
qed

definition placed :: "nat \<Rightarrow> 'k \<Rightarrow> 'v \<Rightarrow> ('k, 'v) rehash_map \<Rightarrow> ('k, 'v) rehash_map" where
  "placed slot key val m =
     (on_table_for (if is_migrating m then 1 else 0) (construct_at slot key val) m)\<lparr>rm_size := rm_size m + 1\<rparr>"

lemma placed_ok:
  assumes ok: "rm_ok hash m" and new: "\<forall>v. (key, v) \<notin> rm_entries m" and room: "room_for_one m"
    and free: "free_for hash key slot (target_of m)"
  shows "rm_ok hash (placed slot key val m)" and "rm_entries (placed slot key val m) = insert (key, val) (rm_entries m)"
proof -
  let ?t = "target_of m"
  let ?t' = "construct_at slot key val ?t"
  have t: "table_ok hash ?t" using rm_ok_tables [OF ok] by (simp add: target_of_def)
  have no: "\<forall>v. (key, v) \<notin> table_entries ?t" using new by (auto simp: target_of_def rm_entries_def)
  have r: "(tb_used ?t + 1) * 2 \<le> tb_capacity ?t" "0 < tb_capacity ?t" using room by (simp_all add: room_for_one_def)
  have t': "tb_slots ?t' = (tb_slots ?t)[slot := Occupied key val]" "tb_live ?t' = tb_live ?t + 1"
      "tb_used ?t' \<le> tb_used ?t + 1" "tb_used ?t + of_bool (tb_slots ?t ! slot = Slot_empty) \<le> tb_used ?t'"
    by (simp_all add: construct_at_def)
  have "tb_used ?t' < tb_capacity ?t" using r t'(3) by simp
  note P = table_ok_put [OF t free no t'(1,2) this t'(4)]
  have cap: "tb_capacity ?t' = tb_capacity ?t" by (simp add: t')
  have size: "rm_size m = tb_live (rm_current m) + tb_live (rm_next m)" by (rule rm_size_live [OF ok])
  have "rm_ok hash (placed slot key val m) \<and> rm_entries (placed slot key val m) = insert (key, val) (rm_entries m)"
  proof (cases "is_migrating m")
    case True
    then have nxt: "?t = rm_next m" and m': "placed slot key val m = m\<lparr>rm_next := ?t', rm_size := rm_size m + 1\<rparr>"
      by (simp_all add: target_of_def placed_def on_table_for_def)
    have "2 * tb_live (rm_current m) < tb_capacity (rm_next m)" using ok True movingD(9) by (auto simp: rm_ok_moving)
    then have "tb_used ?t' + tb_live (rm_current m) < tb_capacity ?t'" using r t'(3) cap by (simp add: nxt)
    moreover have "key \<notin> fst ` table_entries (rm_current m)" using new by (auto simp: rm_entries_def)
    then have "fst ` table_entries (rm_current m) \<inter> fst ` table_entries ?t' = {}"
      unfolding P(2) unfolding nxt using rm_ok_apart [OF ok] by simp
    ultimately have "rm_ok hash (placed slot key val m)" unfolding m'
      by (intro incoming_changed [OF ok True]) (use P(1) cap t'(2) size nxt in simp_all)
    then show ?thesis using P(2) nxt by (auto simp: m' rm_entries_def)
  next
    case False
    then have cur: "?t = rm_current m" and m': "placed slot key val m = m\<lparr>rm_current := ?t', rm_size := rm_size m + 1\<rparr>"
      by (simp_all add: target_of_def placed_def on_table_for_def)
    have "rm_ok hash (placed slot key val m)" unfolding m'
      by (rule outgoing_changed [OF ok]) (use False P(1) cap t'(2) size cur in simp_all)
    then show ?thesis using P(2) cur by (auto simp: m' rm_entries_def)
  qed
  then show "rm_ok hash (placed slot key val m)" "rm_entries (placed slot key val m) = insert (key, val) (rm_entries m)" by simp_all
qed

lemma insert_entry_ok:
  assumes ok: "rm_ok hash m"
  shows "\<exists>pos b m'. insert_entry hash assign key val m = Some (pos, b, m') \<and> rm_ok hash m' \<and>
    b = (\<forall>v. (key, v) \<notin> rm_entries m) \<and> rm_size m' = rm_size m + of_bool b \<and>
    rm_entries m' = (if b \<or> assign then insert (key, val) {p \<in> rm_entries m. fst p \<noteq> key} else rm_entries m)"
proof -
  obtain m1 where 1: "step_migration hash m = Some m1" "rm_ok hash m1" "rm_size m1 = rm_size m" "rm_entries m1 = rm_entries m"
    using step_migration_ok [OF ok] by (auto simp: same_map_def)
  show ?thesis
  proof (rule search_cases [OF 1(2), of key])
    fix v assume v: "(key, v) \<in> rm_entries m1" "is_migrating m1" "find_slot (rm_next m1) key (hash key) < tb_capacity (rm_next m1)"
      "tb_slots (rm_next m1) ! find_slot (rm_next m1) key (hash key) = Occupied key v"
    then have "names m1 (1, find_slot (rm_next m1) key (hash key)) key v" by (simp add: names_def table_for_def)
    from assigned_ok [OF 1(2) this, of val] v 1 show ?thesis by (auto simp: insert_entry_def Let_def)
  next
    fix v assume v: "(key, v) \<in> rm_entries m1" "\<not> is_migrating m1 \<or> find_slot (rm_next m1) key (hash key) = tb_capacity (rm_next m1)"
      "find_slot (rm_current m1) key (hash key) < tb_capacity (rm_current m1)"
      "tb_slots (rm_current m1) ! find_slot (rm_current m1) key (hash key) = Occupied key v"
    then have "names m1 (0, find_slot (rm_current m1) key (hash key)) key v" by (simp add: names_def table_for_def)
    from assigned_ok [OF 1(2) this, of val] v 1 show ?thesis by (auto simp: insert_entry_def Let_def)
  next
    assume a: "\<forall>v. (key, v) \<notin> rm_entries m1" "\<not> is_migrating m1 \<or> find_slot (rm_next m1) key (hash key) = tb_capacity (rm_next m1)"
      "find_slot (rm_current m1) key (hash key) = tb_capacity (rm_current m1)"
    obtain m2 where 2: "make_room_for_one hash m1 = Some m2" "rm_ok hash m2" "rm_size m2 = rm_size m1" "rm_entries m2 = rm_entries m1" "room_for_one m2"
      using make_room_ok [OF 1(2)] by (auto simp: same_map_def)
    have t: "table_ok hash (target_of m2)" "0 < tb_capacity (target_of m2)"
      using rm_ok_tables [OF 2(2)] 2(5) by (simp_all add: target_of_def room_for_one_def)
    obtain slot where s: "find_free_slot (target_of m2) (hash key) = Some slot" "free_for hash key slot (target_of m2)"
      using find_free_slot_found [OF t] by blast
    have new: "\<forall>v. (key, v) \<notin> rm_entries m2" using a(1) 2(4) by simp
    note P = placed_ok [OF 2(2) new 2(5) s(2), of val]
    have "table_for (if is_migrating m2 then 1 else 0) m2 = target_of m2" by (simp add: table_for_def target_of_def)
    then have "insert_entry hash assign key val m = Some
        (advance_to_occupied (placed slot key val m2) (if is_migrating m2 then 1 else 0) slot, True, placed slot key val m2)"
      using 1(1) a(2,3) 2(1) s(1) by (auto simp: insert_entry_def Let_def placed_def)
    moreover have "{p \<in> rm_entries m. fst p \<noteq> key} = rm_entries m" using a(1) 1(4) by auto
    moreover have "rm_size (placed slot key val m2) = rm_size m + 1" using 1(3) 2(3) by (simp add: placed_def)
    ultimately show ?thesis using P 1(4) 2(4) a(1) by auto
  qed
qed

section \<open>Reserving, clearing and a new map\<close>

lemma capacity_from_ok:
  "\<exists>n. w = 2 ^ n \<Longrightarrow> (\<exists>n. capacity_from w c = 2 ^ n) \<and> w \<le> capacity_from w c \<and> c \<le> capacity_from w c div 2"
proof (induction w c rule: capacity_from.induct)
  case (1 w c)
  have "w \<noteq> 0" using "1.prems" by auto
  show ?case
  proof (cases "w div 2 < c")
    case True
    with "1.IH" [OF \<open>w \<noteq> 0\<close> True power_of_two_double [OF "1.prems"]] \<open>w \<noteq> 0\<close> show ?thesis
      by (simp add: capacity_from.simps [of w c])
  next
    case False
    with "1.prems" \<open>w \<noteq> 0\<close> show ?thesis by (simp add: capacity_from.simps [of w c])
  qed
qed

lemma capacity_for_ok: "\<exists>n. capacity_for c = 2 ^ n" "1 < capacity_for c" "c * 2 \<le> capacity_for c"
  using capacity_from_ok [OF minimum_is_power(1), of c] minimum_is_power(2) by (auto simp: capacity_for_def)

lemma next_power_of_two:
  assumes "\<exists>n. a = 2 ^ n" and "\<exists>n. b = 2 ^ n" and "a < (b :: nat)"
  shows "a * 2 \<le> b"
proof -
  obtain x y where xy: "a = 2 ^ x" "b = 2 ^ y" using assms(1,2) by blast
  then have "Suc x \<le> y" using assms(3) by simp
  then have "(2 :: nat) ^ Suc x \<le> 2 ^ y" by (rule power_increasing) simp
  with xy show ?thesis by simp
qed

lemma live_less: "table_ok hash t \<Longrightarrow> 0 < tb_capacity t \<Longrightarrow> tb_live t < tb_capacity t"
  using table_okD(2,4,5) [of hash t] occupied_count [of "tb_slots t"] by simp

lemma rm_reserve_ok:
  assumes ok: "rm_ok hash m"
  shows "same_map hash m (rm_reserve entry_count m)"
proof -
  let ?w = "capacity_for entry_count" and ?t = "rm_current m"
  consider (new) "rm_size m = 0" "\<not> is_migrating m" "tb_capacity ?t < ?w"
    | (grow) "rm_size m \<noteq> 0" "\<not> is_migrating m" "tb_capacity ?t < ?w" | (same) "rm_reserve entry_count m = m"
    unfolding rm_reserve_def Let_def by (cases "tb_capacity ?t < ?w"; cases "is_migrating m"; cases "rm_size m = 0"; simp)
  then show ?thesis
  proof cases
    case new
    with new_table_ok [OF ok _ _ capacity_for_ok(1,2)] show ?thesis by (simp add: rm_reserve_def)
  next
    case grow
    have t: "table_ok hash ?t" "tb_live ?t \<noteq> 0" using ok grow(1) by (simp_all add: rm_ok_settled [OF grow(2)])
    have c: "0 < tb_capacity ?t" using t table_okD(4) [OF t(1)] by (cases "tb_slots ?t") auto
    have "2 * tb_live ?t < ?w"
      using next_power_of_two [OF table_okD(1) [OF t(1) c] capacity_for_ok(1) grow(3)] live_less [OF t(1) c] by linarith
    from begin_migration_ok(1) [OF ok grow(2) c capacity_for_ok(1,2) this] grow show ?thesis by (simp add: rm_reserve_def)
  qed (use ok in \<open>simp add: same_map_def\<close>)
qed

lemma new_rehash_map_ok:
  fixes hash :: "'k \<Rightarrow> nat" and m :: "('k, 'v) rehash_map"
  assumes "m = new_rehash_map c"
  shows "rm_ok hash m" and "rm_entries m = {}" and "rm_size m = 0"
proof -
  define b :: "('k, 'v) rehash_map" where "b = \<lparr>rm_current = no_table, rm_next = no_table, rm_migration_cursor = 0, rm_size = 0\<rparr>"
  have b: "rm_ok hash b" "rm_entries b = {}" "rm_size b = 0"
    using fresh_table(1) [of 0 hash] by (simp_all add: b_def rm_ok_def is_migrating_def no_table_def rm_entries_def table_entries_def)
  have "m = b \<or> m = rm_reserve c b" using assms by (simp add: new_rehash_map_def b_def Let_def)
  with b rm_reserve_ok [OF b(1), of c] show "rm_ok hash m" "rm_entries m = {}" "rm_size m = 0" by (auto simp: same_map_def)
qed

lemma rm_clear_ok:
  assumes ok: "rm_ok hash m"
  shows "rm_ok hash (rm_clear m)" "rm_entries (rm_clear m) = {}" "rm_size (rm_clear m) = 0"
proof -
  let ?t = "rm_current (rm_clear m)"
  have t: "table_ok hash ?t" "table_entries ?t = {}"
    using fresh_table(1) [of "tb_capacity (rm_current m)" hash] fresh_table(2) [of "tb_capacity (rm_current m)"]
      table_okD(1,3) [of hash "rm_current m"] rm_ok_tables [OF ok]
    by (cases "tb_capacity (rm_current m) = 0"; simp add: rm_clear_def destroy_entries_def)+
  then show "rm_ok hash (rm_clear m)" by (simp add: rm_ok_def is_migrating_def) (simp add: rm_clear_def no_table_def destroy_entries_def)
  show "rm_entries (rm_clear m) = {}" using t(2) by (simp add: rm_entries_def rm_clear_def)
  show "rm_size (rm_clear m) = 0" by (simp add: rm_clear_def)
qed

end
