(* ===== verification/RehashMapRuns.thy ===== *)
theory RehashMapRuns
  imports RehashMap
begin

text \<open>
  What \<open>IncrementalRehashMap\<close> promises those who use it: it is a map, it grows a few slots at a time, and its iterators visit
  every entry. It also has a run in which an iterator it returns names no entry.
\<close>

section \<open>It is a map\<close>

text \<open>What its clients rely on: the interface of a map, which the association lists of \<open>std_map\<close> provide as well.\<close>

definition rm_put :: "('k \<Rightarrow> nat) \<Rightarrow> 'k \<Rightarrow> 'v \<Rightarrow> ('k, 'v) rehash_map \<Rightarrow> ('k, 'v) rehash_map" where
  "rm_put hash key val m = snd (snd (the (rm_insert_or_assign hash key val m)))"

definition rm_delete :: "('k \<Rightarrow> nat) \<Rightarrow> 'k \<Rightarrow> ('k, 'v) rehash_map \<Rightarrow> ('k, 'v) rehash_map" where
  "rm_delete hash key m = snd (the (rm_erase hash key m))"

lemma rm_put_ok:
  assumes "rm_ok hash m"
  shows "rm_ok hash (rm_put hash k v m)" and "rm_entries (rm_put hash k v m) = insert (k, v) {p \<in> rm_entries m. fst p \<noteq> k}"
proof -
  obtain pos b m' where "insert_entry hash True k v m = Some (pos, b, m')" "rm_ok hash m'" "rm_entries m' = insert (k, v) {p \<in> rm_entries m. fst p \<noteq> k}"
    using insert_entry_ok [OF assms, of True k v] by (simp del: split_paired_Ex) blast
  then show "rm_ok hash (rm_put hash k v m)" "rm_entries (rm_put hash k v m) = insert (k, v) {p \<in> rm_entries m. fst p \<noteq> k}"
    by (simp_all add: rm_put_def rm_insert_or_assign_def)
qed

lemma rm_delete_ok:
  assumes "rm_ok hash m"
  shows "rm_ok hash (rm_delete hash k m)" and "rm_entries (rm_delete hash k m) = {p \<in> rm_entries m. fst p \<noteq> k}"
proof -
  obtain n m' where "rm_erase hash k m = Some (n, m')" "rm_ok hash m'" "rm_entries m' = {p \<in> rm_entries m. fst p \<noteq> k}"
    using rm_erase_ok [OF assms, of k] by blast
  then show "rm_ok hash (rm_delete hash k m)" "rm_entries (rm_delete hash k m) = {p \<in> rm_entries m. fst p \<noteq> k}"
    by (simp_all add: rm_delete_def)
qed

lemma find_value_by_entries:
  assumes "rm_ok hash m" and "rm_ok hash m'" and "\<And>v. (k, v) \<in> rm_entries m' \<longleftrightarrow> (k, v) \<in> rm_entries m"
  shows "find_value hash k m' = find_value hash k m"
  using find_value_iff [OF assms(1), of k] find_value_iff [OF assms(2), of k] assms(3) by (metis option.exhaust)

lemma find_value_None: "rm_ok hash m \<Longrightarrow> \<forall>v. (k, v) \<notin> rm_entries m \<Longrightarrow> find_value hash k m = None"
  by (metis find_value_iff option.exhaust)

lemma find_value_new:
  assumes "m = new_rehash_map c"
  shows "find_value hash k m = None"
  by (rule find_value_None [OF new_rehash_map_ok(1) [OF assms]]) (simp add: new_rehash_map_ok(2) [OF assms])

lemma find_value_put:
  assumes ok: "rm_ok hash m"
  shows "find_value hash k' (rm_put hash k v m) = (if k' = k then Some v else find_value hash k' m)"
proof (cases "k' = k")
  case True
  with find_value_iff [OF rm_put_ok(1) [OF ok], of k k v v] rm_put_ok(2) [OF ok, of k v] show ?thesis by simp
next
  case False
  have "find_value hash k' (rm_put hash k v m) = find_value hash k' m"
    by (rule find_value_by_entries [OF ok rm_put_ok(1) [OF ok]]) (use False in \<open>simp add: rm_put_ok(2) [OF ok]\<close>)
  with False show ?thesis by simp
qed

lemma find_value_delete:
  assumes ok: "rm_ok hash m"
  shows "find_value hash k' (rm_delete hash k m) = (if k' = k then None else find_value hash k' m)"
proof (cases "k' = k")
  case True
  with find_value_None [OF rm_delete_ok(1) [OF ok], of k] rm_delete_ok(2) [OF ok, of k] show ?thesis by simp
next
  case False
  have "find_value hash k' (rm_delete hash k m) = find_value hash k' m"
    by (rule find_value_by_entries [OF ok rm_delete_ok(1) [OF ok]]) (use False in \<open>simp add: rm_delete_ok(2) [OF ok]\<close>)
  with False show ?thesis by simp
qed

interpretation rehash: keyed_map "new_rehash_map c" "rm_put hash" "\<lambda>m k. find_value hash k m" "rm_delete hash" rm_entries "rm_ok hash"
  by unfold_locales
    (simp_all add: find_value_new [OF refl] find_value_put find_value_delete find_value_iff new_rehash_map_ok(1) [OF refl] rm_put_ok(1)
      rm_delete_ok(1))

section \<open>Iterating\<close>

text \<open>A loop from \<open>begin\<close> to \<open>end\<close>, with the entry it reads at each position.\<close>

definition begin_position :: "('k, 'v) rehash_map \<Rightarrow> position" where
  "begin_position m = advance_to_occupied m 0 0"

definition next_position :: "('k, 'v) rehash_map \<Rightarrow> position \<Rightarrow> position" where
  "next_position m pos = advance_to_occupied m (fst pos) (snd pos + 1)"

fun slot_entries :: "('k, 'v) table_slot \<Rightarrow> ('k \<times> 'v) list" where
  "slot_entries (Occupied k v) = [(k, v)]"
| "slot_entries _ = []"

definition entry_at_position :: "('k, 'v) rehash_map \<Rightarrow> position \<Rightarrow> ('k \<times> 'v) list" where
  "entry_at_position m pos = slot_entries (tb_slots (table_for (fst pos) m) ! snd pos)"

partial_function (option) visit_from :: "('k, 'v) rehash_map \<Rightarrow> position \<Rightarrow> ('k \<times> 'v) list option" where
  "visit_from m pos =
     (if pos = end_position then Some []
      else Option.bind (visit_from m (next_position m pos)) (\<lambda>visited. Some (entry_at_position m pos @ visited)))"

definition all_entries :: "('k, 'v) table_slot list \<Rightarrow> ('k \<times> 'v) list" where
  "all_entries slots = concat (map slot_entries slots)"

lemma all_entries_simps [simp]: "all_entries [] = []" "all_entries (s # slots) = slot_entries s @ all_entries slots"
  by (simp_all add: all_entries_def)

definition entries_from :: "('k, 'v) rehash_map \<Rightarrow> position \<Rightarrow> ('k \<times> 'v) list" where
  "entries_from m pos =
     (if fst pos = 0 then all_entries (drop (snd pos) (tb_slots (rm_current m))) @ all_entries (tb_slots (rm_next m))
      else if fst pos = 1 then all_entries (drop (snd pos) (tb_slots (rm_next m))) else [])"

lemma drop_occupied: "i < length xs \<Longrightarrow> drop i xs = xs ! i # drop (Suc i) xs"
  by (simp add: Cons_nth_drop_Suc)

lemma advance_entries:
  "entries_from m (advance_to_occupied m i s) = entries_from m (i, s) \<and>
     (advance_to_occupied m i s = end_position \<or> (\<exists>k v. names m (advance_to_occupied m i s) k v))"
proof (induction m i s rule: advance_to_occupied.induct)
  case (1 m i s)
  consider (there) "i < 2" "s < tb_capacity (table_for i m)" "occupied (tb_slots (table_for i m) ! s)"
    | (on) "i < 2" "s < tb_capacity (table_for i m)" "\<not> occupied (tb_slots (table_for i m) ! s)"
    | (over) "i < 2" "\<not> s < tb_capacity (table_for i m)" | (out) "\<not> i < 2" by blast
  then show ?case
  proof cases
    case there
    then show ?thesis by (simp add: advance_to_occupied.simps [of m i s] names_def occupied_iff)
  next
    case on
    have "slot_entries (tb_slots (table_for i m) ! s) = []" using on(3) by (cases "tb_slots (table_for i m) ! s") simp_all
    then have "entries_from m (i, s + 1) = entries_from m (i, s)"
      using on(1,2) drop_occupied [of s "tb_slots (table_for i m)"] by (auto simp: entries_from_def table_for_def less_2_cases_iff split: if_splits)
    with 1(1) [OF on] on show ?thesis by (simp add: advance_to_occupied.simps [of m i s])
  next
    case over
    then have "entries_from m (i + 1, 0) = entries_from m (i, s)" by (auto simp: entries_from_def table_for_def less_2_cases_iff)
    with 1(2) [OF over] over show ?thesis by (simp add: advance_to_occupied.simps [of m i s])
  next
    case out
    then show ?thesis by (simp add: advance_to_occupied.simps [of m i s] entries_from_def end_position_def)
  qed
qed

lemma visit_from_entries:
  assumes "pos = end_position \<or> (\<exists>k v. names m pos k v)"
  shows "visit_from m pos = Some (entries_from m pos)"
  using assms
proof (induction "length (entries_from m pos)" arbitrary: pos rule: less_induct)
  case less
  show ?case
  proof (cases "pos = end_position")
    case True
    have "visit_from m end_position = Some []" by (subst visit_from.simps) simp
    with True show ?thesis by (simp add: entries_from_def end_position_def)
  next
    case False
    then obtain k v where n: "names m pos k v" using less.prems by blast
    let ?next = "next_position m pos"
    have now: "entry_at_position m pos = [(k, v)]" using n by (simp add: names_def entry_at_position_def)
    have "entries_from m pos = (k, v) # entries_from m (fst pos, snd pos + 1)"
      using n drop_occupied [of "snd pos" "tb_slots (table_for (fst pos) m)"]
      by (auto simp: names_def entries_from_def table_for_def less_2_cases_iff split: if_splits)
    then have split: "entries_from m pos = (k, v) # entries_from m ?next"
      using advance_entries [of m "fst pos" "snd pos + 1"] by (simp add: next_position_def)
    have "visit_from m ?next = Some (entries_from m ?next)"
      using less.hyps [of ?next] split advance_entries [of m "fst pos" "snd pos + 1"] by (simp add: next_position_def)
    with False split now show ?thesis by (simp add: visit_from.simps [of m pos])
  qed
qed

lemma set_all_entries: "set (all_entries (tb_slots t)) = table_entries t"
proof -
  have "(k, v) \<in> set (slot_entries s) \<longleftrightarrow> s = Occupied k v" for k v and s :: "('a, 'b) table_slot" by (cases s) auto
  then show ?thesis by (auto simp: all_entries_def table_entries_def)
qed

lemma length_all_entries: "length (all_entries xs) = length (filter occupied xs)"
proof (induction xs)
  case (Cons s xs)
  then show ?case by (cases s) simp_all
qed simp

lemma distinct_all_entries:
  assumes "\<And>i j k v w. i < length xs \<Longrightarrow> j < length xs \<Longrightarrow> xs ! i = Occupied k v \<Longrightarrow> xs ! j = Occupied k w \<Longrightarrow> i = j"
  shows "distinct (map fst (all_entries xs))"
  using assms
proof (induction xs)
  case (Cons s xs)
  have "distinct (map fst (all_entries xs))"
  proof (rule Cons.IH)
    fix i j k v w assume "i < length xs" "j < length xs" "xs ! i = Occupied k v" "xs ! j = Occupied k w"
    with Cons.prems [of "Suc i" "Suc j" k v w] show "i = j" by simp
  qed
  moreover have "k \<notin> fst ` set (all_entries xs)" if s: "s = Occupied k v" for k v
  proof
    assume "k \<in> fst ` set (all_entries xs)"
    then obtain w j where "j < length xs" "xs ! j = Occupied k w"
      using set_all_entries [of "\<lparr>tb_slots = xs, tb_live = 0, tb_used = 0\<rparr>"] by (auto simp: table_entries_def in_set_conv_nth)
    with Cons.prems [of 0 "Suc j" k v w] s show False by simp
  qed
  ultimately show ?case by (cases s) simp_all
qed simp

lemma rm_ok_listed:
  fixes m :: "('a, 'b) rehash_map"
  assumes ok: "rm_ok hash m"
  shows "visit_from m (begin_position m) = Some (entries_from m (0, 0))" and "set (entries_from m (0, 0)) = rm_entries m"
    and "distinct (map fst (entries_from m (0, 0)))" and "length (entries_from m (0, 0)) = rm_size m"
proof -
  note t = rm_ok_tables [OF ok]
  have "pos = end_position \<or> (\<exists>k v. names m pos k v)" "entries_from m pos = entries_from m (0, 0)" if "pos = begin_position m" for pos
    using advance_entries [of m 0 0] that by (simp_all add: begin_position_def)
  with visit_from_entries show "visit_from m (begin_position m) = Some (entries_from m (0, 0))" by metis
  have list: "entries_from m (0, 0) = all_entries (tb_slots (rm_current m)) @ all_entries (tb_slots (rm_next m))"
    by (simp add: entries_from_def)
  then show "set (entries_from m (0, 0)) = rm_entries m" by (simp add: set_all_entries rm_entries_def)
  show "length (entries_from m (0, 0)) = rm_size m"
    using table_okD(4) [OF conjunct1 [OF t]] table_okD(4) [OF conjunct2 [OF t]] rm_size_live [OF ok]
    by (simp add: list length_all_entries)
  show "distinct (map fst (entries_from m (0, 0)))"
  proof -
    have "distinct (map fst (all_entries (tb_slots t)))" if "table_ok hash t" for t :: "('a, 'b) table"
      by (rule distinct_all_entries) (rule table_okD(6) [OF that])
    with t rm_ok_apart [OF ok] show ?thesis by (simp add: list set_all_entries)
  qed
qed

section \<open>Runs of calls\<close>

datatype ('k, 'v) map_call = Emplace 'k 'v | Insert_or_assign 'k 'v | Erase 'k | Reserve nat | Clear

fun rm_call :: "('k \<Rightarrow> nat) \<Rightarrow> ('k, 'v) map_call \<Rightarrow> ('k, 'v) rehash_map \<Rightarrow> ('k, 'v) rehash_map option" where
  "rm_call hash (Emplace k v) m = map_option (\<lambda>(pos, inserted, m'). m') (rm_emplace hash k v m)"
| "rm_call hash (Insert_or_assign k v) m = map_option (\<lambda>(pos, inserted, m'). m') (rm_insert_or_assign hash k v m)"
| "rm_call hash (Erase k) m = map_option snd (rm_erase hash k m)"
| "rm_call hash (Reserve n) m = Some (rm_reserve n m)"
| "rm_call hash Clear m = Some (rm_clear m)"

fun rm_calls :: "('k \<Rightarrow> nat) \<Rightarrow> ('k, 'v) map_call list \<Rightarrow> ('k, 'v) rehash_map \<Rightarrow> ('k, 'v) rehash_map option" where
  "rm_calls hash [] m = Some m"
| "rm_calls hash (c # cs) m = Option.bind (rm_call hash c m) (rm_calls hash cs)"

text \<open>What each call means to a map.\<close>

fun map_call_spec :: "('k, 'v) map_call \<Rightarrow> ('k \<rightharpoonup> 'v) \<Rightarrow> ('k \<rightharpoonup> 'v)" where
  "map_call_spec (Emplace k v) M = (if M k = None then M(k \<mapsto> v) else M)"
| "map_call_spec (Insert_or_assign k v) M = M(k \<mapsto> v)"
| "map_call_spec (Erase k) M = M(k := None)"
| "map_call_spec (Reserve n) M = M"
| "map_call_spec Clear M = Map.empty"

definition rm_map :: "('k \<Rightarrow> nat) \<Rightarrow> ('k, 'v) rehash_map \<Rightarrow> ('k \<rightharpoonup> 'v)" where
  "rm_map hash m = (\<lambda>k. find_value hash k m)"

lemma rm_map_iff: "rm_ok hash m \<Longrightarrow> rm_map hash m k = Some v \<longleftrightarrow> (k, v) \<in> rm_entries m"
  by (simp add: rm_map_def find_value_iff)

lemma rm_map_eqI:
  assumes ok: "rm_ok hash m" and same: "\<And>k v. (k, v) \<in> rm_entries m \<longleftrightarrow> M k = Some v"
  shows "rm_map hash m = M"
proof
  fix k show "rm_map hash m k = M k" using rm_map_iff [OF ok, of k] same [of k] by (cases "M k"; cases "rm_map hash m k") auto
qed

lemma rm_map_put:
  assumes ok: "rm_ok hash m" "rm_ok hash m'" and "rm_entries m' = insert (k, v) {p \<in> rm_entries m. fst p \<noteq> k}"
  shows "rm_map hash m' = (rm_map hash m)(k \<mapsto> v)"
  by (rule rm_map_eqI [OF ok(2)]) (use assms(3) rm_map_iff [OF ok(1)] in auto)

lemma rm_map_none: "rm_ok hash m \<Longrightarrow> rm_map hash m k = None \<longleftrightarrow> (\<forall>v. (k, v) \<notin> rm_entries m)"
  using rm_map_iff [of hash m k] by (cases "rm_map hash m k") auto

lemma rm_call_ok:
  assumes ok: "rm_ok hash m"
  shows "\<exists>m'. rm_call hash c m = Some m' \<and> rm_ok hash m' \<and> rm_map hash m' = map_call_spec c (rm_map hash m)"
proof (cases c)
  case (Emplace k v)
  obtain pos b m' where i: "insert_entry hash False k v m = Some (pos, b, m')" "rm_ok hash m'" "b = (\<forall>v. (k, v) \<notin> rm_entries m)"
      "rm_entries m' = (if b then insert (k, v) {p \<in> rm_entries m. fst p \<noteq> k} else rm_entries m)"
    using insert_entry_ok [OF ok, of False k v] by simp blast
  have "rm_map hash m' = map_call_spec c (rm_map hash m)"
  proof (cases b)
    case True
    with i(3) have "rm_map hash m k = None" unfolding rm_map_none [OF ok] by simp
    moreover have "rm_entries m' = insert (k, v) {p \<in> rm_entries m. fst p \<noteq> k}" using i(4) True by simp
    ultimately show ?thesis using rm_map_put [OF ok i(2)] Emplace by simp
  next
    case False
    then have "(rm_map hash m k = None) = False" unfolding rm_map_none [OF ok] using i(3) by blast
    moreover have "rm_map hash m' = rm_map hash m" by (rule rm_map_eqI [OF i(2)]) (use i(4) False rm_map_iff [OF ok] in simp)
    ultimately show ?thesis unfolding Emplace map_call_spec.simps by (simp only: if_False)
  qed
  with i show ?thesis by (simp add: Emplace rm_emplace_def)
next
  case (Insert_or_assign k v)
  obtain pos b m' where i: "insert_entry hash True k v m = Some (pos, b, m')" "rm_ok hash m'"
      "rm_entries m' = insert (k, v) {p \<in> rm_entries m. fst p \<noteq> k}"
    using insert_entry_ok [OF ok, of True k v] by simp blast
  with rm_map_put [OF ok i(2,3)] show ?thesis by (simp add: Insert_or_assign rm_insert_or_assign_def)
next
  case (Erase k)
  obtain n m' where e: "rm_erase hash k m = Some (n, m')" "rm_ok hash m'" "rm_entries m' = {p \<in> rm_entries m. fst p \<noteq> k}"
    using rm_erase_ok [OF ok, of k] by blast
  have "rm_map hash m' = (rm_map hash m)(k := None)" by (rule rm_map_eqI [OF e(2)]) (use e(3) rm_map_iff [OF ok] in auto)
  with e show ?thesis by (simp add: Erase)
next
  case (Reserve n)
  have r: "rm_ok hash (rm_reserve n m)" "rm_entries (rm_reserve n m) = rm_entries m" using rm_reserve_ok [OF ok, of n] by (simp_all add: same_map_def)
  have "rm_map hash (rm_reserve n m) = rm_map hash m" by (rule rm_map_eqI [OF r(1)]) (use r(2) rm_map_iff [OF ok] in simp)
  with r show ?thesis by (simp add: Reserve)
next
  case Clear
  have "rm_map hash (rm_clear m) = Map.empty" by (rule rm_map_eqI [OF rm_clear_ok(1) [OF ok]]) (simp add: rm_clear_ok(2) [OF ok])
  with rm_clear_ok [OF ok] show ?thesis by (simp add: Clear)
qed

lemma rm_calls_ok:
  assumes "rm_ok hash m"
  shows "\<exists>m'. rm_calls hash cs m = Some m' \<and> rm_ok hash m' \<and> rm_map hash m' = fold map_call_spec cs (rm_map hash m)"
  using assms
proof (induction cs arbitrary: m)
  case (Cons c cs)
  obtain m1 where "rm_call hash c m = Some m1" "rm_ok hash m1" "rm_map hash m1 = map_call_spec c (rm_map hash m)"
    using rm_call_ok [OF Cons.prems] by blast
  with Cons.IH [of m1] show ?case by auto
qed simp

text \<open>
  C21. The hash map is a map, whatever is asked of it and in whatever order. Any run of insertions, assignments, erasures,
  reservations and clearings ends, also the loops that look for a free slot and that complete a migration; a key is then
  found with the value a map would hold for it, and the size is the number of keys. An iteration from \<open>begin\<close> to \<open>end\<close>
  visits each entry exactly once, also in the middle of a migration. It holds for any hash function.
\<close>

theorem rehash_map_is_a_map:
  "\<exists>m visited. rm_calls hash calls (new_rehash_map initial_capacity) = Some m \<and>
     (\<forall>key. find_value hash key m = fold map_call_spec calls Map.empty key) \<and>
     rm_size m = card (dom (fold map_call_spec calls Map.empty)) \<and>
     visit_from m (begin_position m) = Some visited \<and> distinct (map fst visited) \<and>
     map_of visited = fold map_call_spec calls Map.empty"
proof -
  obtain e :: "('a, 'b) rehash_map" where e: "e = new_rehash_map initial_capacity" by blast
  note new = new_rehash_map_ok(1) [OF e, of hash] new_rehash_map_ok(2) [OF e]
  have "rm_map hash e = Map.empty" by (rule rm_map_eqI [OF new(1)]) (simp add: new(2))
  then obtain m where m: "rm_calls hash calls e = Some m" "rm_ok hash m" "rm_map hash m = fold map_call_spec calls Map.empty"
    using rm_calls_ok [OF new(1), of calls] by auto
  let ?M = "fold map_call_spec calls Map.empty"
  note L = rm_ok_listed [OF m(2)]
  have "?M k = Some v \<longleftrightarrow> (k, v) \<in> set (entries_from m (0, 0))" for k v
    using rm_map_iff [OF m(2), of k v] unfolding L(2) m(3) .
  then have "map_of (entries_from m (0, 0)) k = ?M k" for k
    using L(3) by (metis map_of_eq_Some_iff option.exhaust)
  then have M: "map_of (entries_from m (0, 0)) = ?M" by blast
  then have "dom ?M = fst ` set (entries_from m (0, 0))" using dom_map_of_conv_image_fst by metis
  then have "card (dom ?M) = rm_size m" using L(3,4) by (metis distinct_card length_map list.set_map)
  moreover have "\<forall>key. find_value hash key m = ?M key" using m(3) unfolding rm_map_def by metis
  ultimately show ?thesis using m(1) L M unfolding e by auto
qed

section \<open>The cost of growing\<close>

text \<open>
  The load that a migration paced at eight slots an operation keeps: a table that is not migrated out of is at most half
  used, and one being filled has room for what is still to come at that pace.
\<close>

definition paced :: "('k, 'v) rehash_map \<Rightarrow> bool" where
  "paced m \<longleftrightarrow>
     (if is_migrating m
      then 16 \<le> tb_capacity (rm_current m) \<and> tb_capacity (rm_current m) \<le> tb_capacity (rm_next m) \<and>
           8 * (tb_used (rm_next m) + tb_live (rm_current m)) \<le> rm_migration_cursor m + 8 + 2 * tb_capacity (rm_next m)
      else 2 * tb_used (rm_current m) \<le> tb_capacity (rm_current m) \<and> (tb_capacity (rm_current m) = 0 \<or> 16 \<le> tb_capacity (rm_current m)))"

text \<open>The slack after a step of the migration, which the insertion that follows takes up.\<close>

definition paced_after_step :: "('k, 'v) rehash_map \<Rightarrow> bool" where
  "paced_after_step m \<longleftrightarrow>
     paced m \<and> (is_migrating m \<longrightarrow>
       8 * (tb_used (rm_next m) + tb_live (rm_current m)) \<le> rm_migration_cursor m + 2 * tb_capacity (rm_next m))"

definition load_of :: "('k, 'v) rehash_map \<Rightarrow> nat \<times> nat \<times> nat" where
  "load_of m = (tb_used (rm_next m) + tb_live (rm_current m), tb_capacity (rm_current m), tb_capacity (rm_next m))"

lemma move_slot_load:
  assumes mv: "moving hash m" and less: "rm_migration_cursor m < tb_capacity (rm_current m)"
    and m': "move_slot hash (rm_migration_cursor m) m = Some m'"
  shows "load_of m' = load_of m"
proof (cases "tb_slots (rm_current m) ! rm_migration_cursor m")
  case (Occupied k v)
  note D = movingD [OF mv]
  have "tb_live (rm_current m) \<noteq> 0"
    using table_okD(4) [OF D(1)] Occupied nth_mem [OF less] by (force simp: filter_empty_conv occupied_iff)
  with m' Occupied show ?thesis by (auto simp: move_slot_def load_of_def bind_eq_Some_conv)
qed (use m' in \<open>auto simp: move_slot_def\<close>)

lemma move_slots_load:
  assumes "moving hash m" and "move_slots hash n m = Some m'"
  shows "load_of m' = load_of m"
  using assms
proof (induction n arbitrary: m)
  case (Suc n)
  show ?case
  proof (cases "rm_migration_cursor m < tb_capacity (rm_current m)")
    case True
    obtain m1 where 1: "move_slot hash (rm_migration_cursor m) m = Some m1" "rm_migration_cursor m1 = rm_migration_cursor m"
        "moving hash (m1\<lparr>rm_migration_cursor := rm_migration_cursor m + 1\<rparr>)"
      using move_slot_ok [OF Suc.prems(1) True] by blast
    with Suc.IH [OF 1(3)] Suc.prems(2) True have "load_of m' = load_of (m1\<lparr>rm_migration_cursor := rm_migration_cursor m + 1\<rparr>)" by simp
    with move_slot_load [OF Suc.prems(1) True 1(1)] show ?thesis by (simp add: load_of_def)
  qed (use Suc.prems in simp)
qed simp

lemma half_at_the_end:
  fixes used :: nat
  assumes "used \<le> load" and "16 \<le> c" and "c \<le> n" and "8 * load \<le> k + 8 + 2 * n" and "k < c"
  shows "2 * used \<le> n"
  using assms by presburger

lemma step_migration_paced:
  assumes ok: "rm_ok hash m" and p: "paced m" and m': "step_migration hash m = Some m'"
  shows "paced_after_step m'" and "migration_slots_remaining m \<le> migration_slots_remaining m' + 8"
proof -
  have "paced_after_step m' \<and> migration_slots_remaining m \<le> migration_slots_remaining m' + 8"
  proof (cases "is_migrating m")
    case True
    with ok have mv: "moving hash m" and less: "rm_migration_cursor m < tb_capacity (rm_current m)" by (simp_all add: rm_ok_moving)
    obtain m1 where m1: "move_slots hash 8 m = Some m1" "moving hash m1" "tb_capacity (rm_current m1) = tb_capacity (rm_current m)"
        "rm_migration_cursor m1 = min (rm_migration_cursor m + 8) (tb_capacity (rm_current m))"
      using move_slots_ok [OF mv, of 8] by blast
    have load: "tb_used (rm_next m1) + tb_live (rm_current m1) = tb_used (rm_next m) + tb_live (rm_current m)"
        "tb_capacity (rm_next m1) = tb_capacity (rm_next m)"
      using move_slots_load [OF mv m1(1)] by (simp_all add: load_of_def)
    have mig: "is_migrating m1" using movingD(4) [OF m1(2)] by (simp add: is_migrating_def)
    have P: "16 \<le> tb_capacity (rm_current m)" "tb_capacity (rm_current m) \<le> tb_capacity (rm_next m)"
        "8 * (tb_used (rm_next m) + tb_live (rm_current m)) \<le> rm_migration_cursor m + 8 + 2 * tb_capacity (rm_next m)"
      using p True by (simp_all add: paced_def)
    show ?thesis
    proof (cases "tb_capacity (rm_current m1) \<le> rm_migration_cursor m1")
      case fin: True
      then have "m' = finish_migration m1" using m' m1(1) True by (simp add: step_migration_def migration_slots_per_operation_def)
      moreover have "tb_used (rm_next m1) \<le> tb_used (rm_next m) + tb_live (rm_current m)" using load(1) by simp
      then have "2 * tb_used (rm_next m1) \<le> tb_capacity (rm_next m1)" using half_at_the_end [OF _ P less] load(2) by simp
      ultimately show ?thesis
        using P less load m1(3,4) fin True by (simp add: paced_after_step_def paced_def finish_migration_def is_migrating_def no_table_def
            migration_slots_remaining_def)
    next
      case False
      then have "m' = m1" using m' m1(1) True by (simp add: step_migration_def migration_slots_per_operation_def)
      with False P less load m1(3,4) mig True show ?thesis
        by (simp add: paced_after_step_def paced_def migration_slots_remaining_def)
    qed
  qed (use m' p in \<open>auto simp: step_migration_def paced_after_step_def migration_slots_remaining_def\<close>)
  then show "paced_after_step m'" "migration_slots_remaining m \<le> migration_slots_remaining m' + 8" by simp_all
qed

lemma start_again_paced:
  assumes ok: "rm_ok hash m" and settled: "\<not> is_migrating m" and c: "16 \<le> tb_capacity (rm_current m)"
    and p: "2 * tb_used (rm_current m) \<le> tb_capacity (rm_current m)"
  shows "paced_after_step (start_again m)"
proof -
  have t: "table_ok hash (rm_current m)" using ok by (simp add: rm_ok_settled [OF settled])
  have "tb_live (rm_current m) \<le> tb_used (rm_current m)" using table_okD(4,5) [OF t] occupied_count [of "tb_slots (rm_current m)"] by simp
  with c p show ?thesis
    by (auto simp: paced_after_step_def paced_def start_again_def begin_migration_def is_migrating_def allocate_table_def)
qed

text \<open>What an insertion does when its key is new: nothing but allocate, at most.\<close>

lemma make_room_paced:
  assumes ok: "rm_ok hash m" and p: "paced_after_step m" and m': "make_room_for_one hash m = Some m'"
  shows "paced_after_step m'" and "m' \<in> {m, m\<lparr>rm_current := allocate_table minimum_capacity\<rparr>, start_again m}"
proof -
  have "paced_after_step m' \<and> m' \<in> {m, m\<lparr>rm_current := allocate_table minimum_capacity\<rparr>, start_again m}"
  proof (cases "is_migrating m")
    case True
    then have "rm_migration_cursor m < tb_capacity (rm_current m)" using ok by (simp add: rm_ok_moving)
    then have "(tb_used (rm_next m) + 1) * 2 \<le> tb_capacity (rm_next m)"
      using p True by (simp add: paced_after_step_def paced_def)
    with True m' p show ?thesis by (auto simp: make_room_for_one_def)
  next
    case False
    then have P: "2 * tb_used (rm_current m) \<le> tb_capacity (rm_current m)" "tb_capacity (rm_current m) = 0 \<or> 16 \<le> tb_capacity (rm_current m)"
      using p by (simp_all add: paced_after_step_def paced_def)
    show ?thesis
    proof (cases "tb_capacity (rm_current m) = 0")
      case True
      with False m' show ?thesis
        by (auto simp: make_room_for_one_def paced_after_step_def paced_def is_migrating_def allocate_table_def minimum_capacity_def)
    next
      case c: False
      with start_again_paced [OF ok False _ P(1)] P(2) p False m' show ?thesis by (auto simp: make_room_for_one_def Let_def split: if_splits)
    qed
  qed
  then show "paced_after_step m'" "m' \<in> {m, m\<lparr>rm_current := allocate_table minimum_capacity\<rparr>, start_again m}" by simp_all
qed

lemma placed_paced:
  assumes ok: "rm_ok hash m" and p: "paced_after_step m" and room: "room_for_one m"
  shows "paced (placed slot key val m)"
proof (cases "is_migrating m")
  case True
  then have "is_migrating (placed slot key val m)" by (simp add: placed_def on_table_for_def is_migrating_def construct_at_def)
  with True p show ?thesis by (simp add: paced_after_step_def paced_def placed_def on_table_for_def construct_at_def)
next
  case False
  then have "\<not> is_migrating (placed slot key val m)" by (simp add: placed_def on_table_for_def is_migrating_def)
  with False p room show ?thesis
    by (simp add: paced_after_step_def paced_def placed_def on_table_for_def construct_at_def room_for_one_def target_of_def)
qed

lemma paced_same_load:
  assumes "paced m" and "is_migrating m' = is_migrating m" and "tb_capacity (rm_current m') = tb_capacity (rm_current m)"
    and "tb_capacity (rm_next m') = tb_capacity (rm_next m)" and "rm_migration_cursor m' = rm_migration_cursor m"
    and "tb_used (rm_next m') = tb_used (rm_next m)" and "tb_used (rm_current m') = tb_used (rm_current m)"
    and "tb_live (rm_current m') \<le> tb_live (rm_current m)"
  shows "paced m'"
  using assms by (auto simp: paced_def split: if_splits)

lemma assigned_paced: "paced m \<Longrightarrow> paced (on_table_for i (assign_at s k v) m)"
  by (erule paced_same_load) (simp_all add: on_table_for_def assign_at_def is_migrating_def)

lemma erased_paced: "paced m \<Longrightarrow> paced (erased pos m)"
  by (erule paced_same_load) (simp_all add: erased_def on_table_for_def is_migrating_def)

lemma insert_entry_paced:
  assumes ok: "rm_ok hash m" and p: "paced m" and m': "insert_entry hash assign key val m = Some (pos, b, m')"
  shows "paced m'"
proof -
  obtain m1 where 1: "step_migration hash m = Some m1" "rm_ok hash m1" using step_migration_ok [OF ok] by (auto simp: same_map_def)
  have p1: "paced_after_step m1" "paced m1" using step_migration_paced(1) [OF ok p 1(1)] by (simp_all add: paced_after_step_def)
  show ?thesis
  proof (cases "is_migrating m1 \<and> find_slot (rm_next m1) key (hash key) \<noteq> tb_capacity (rm_next m1) \<or>
      find_slot (rm_current m1) key (hash key) \<noteq> tb_capacity (rm_current m1)")
    case True
    with m' 1(1) assigned_paced [OF p1(2)] p1(2) show ?thesis by (auto simp: insert_entry_def Let_def split: if_splits)
  next
    case False
    then obtain m2 slot where 2: "make_room_for_one hash m1 = Some m2" "m' = placed slot key val m2"
      using m' 1(1) by (auto simp: insert_entry_def Let_def placed_def bind_eq_Some_conv)
    then have "rm_ok hash m2" "room_for_one m2" using make_room_ok [OF 1(2)] by (auto simp: same_map_def)
    from placed_paced [OF this(1) make_room_paced(1) [OF 1(2) p1(1) 2(1)] this(2)] 2(2) show ?thesis by simp
  qed
qed

lemma rm_erase_paced:
  assumes ok: "rm_ok hash m" and p: "paced m" and m': "rm_erase hash key m = Some (n, m')"
  shows "paced m'"
proof (cases "\<exists>v. (key, v) \<in> rm_entries m")
  case True
  then obtain v where "(key, v) \<in> rm_entries m" ..
  then have n: "names m (rm_find hash key m) key v" by (rule rm_find_names [OF ok])
  then have "rm_find hash key m \<noteq> end_position" by (auto simp: names_def end_position_def)
  with m' have "step_migration hash (erased (rm_find hash key m) m) = Some m'"
    by (auto simp: rm_erase_def erase_at_step bind_eq_Some_conv)
  with step_migration_paced(1) [OF erased_ok(1) [OF ok n] erased_paced [OF p]] show ?thesis by (simp add: paced_after_step_def)
next
  case False
  then have "rm_find hash key m = end_position" using rm_find_absent [OF ok] by blast
  with m' have "step_migration hash m = Some m'" by (auto simp: rm_erase_def bind_eq_Some_conv)
  with step_migration_paced(1) [OF ok p] show ?thesis by (simp add: paced_after_step_def)
qed

lemma capacity_for_minimum: "16 \<le> capacity_for n"
  using capacity_from_ok [OF minimum_is_power(1), of n] by (simp add: capacity_for_def minimum_capacity_def)

lemma rm_reserve_paced:
  assumes ok: "rm_ok hash m" and p: "paced m"
  shows "paced (rm_reserve n m)"
proof -
  let ?w = "capacity_for n" and ?t = "rm_current m"
  consider (new) "rm_reserve n m = m\<lparr>rm_current := allocate_table ?w\<rparr>" "\<not> is_migrating m"
    | (grow) "rm_reserve n m = begin_migration ?w m" "\<not> is_migrating m" "tb_capacity ?t < ?w" "rm_size m \<noteq> 0" | (same) "rm_reserve n m = m"
    unfolding rm_reserve_def Let_def by (cases "tb_capacity ?t < ?w"; cases "is_migrating m"; cases "rm_size m = 0"; simp)
  then show ?thesis
  proof cases
    case new
    with capacity_for_minimum [of n] show ?thesis by (simp add: paced_def is_migrating_def allocate_table_def)
  next
    case grow
    have t: "table_ok hash ?t" "tb_live ?t \<noteq> 0" using ok grow(4) by (simp_all add: rm_ok_settled [OF grow(2)])
    have c: "0 < tb_capacity ?t" using t table_okD(4) [OF t(1)] by (cases "tb_slots ?t") auto
    have P: "2 * tb_used ?t \<le> tb_capacity ?t" "16 \<le> tb_capacity ?t" using p grow(2) c by (simp_all add: paced_def)
    have "tb_live ?t \<le> tb_used ?t" using table_okD(4,5) [OF t(1)] occupied_count [of "tb_slots ?t"] by simp
    then have "8 * tb_live ?t \<le> 2 * ?w" using P(1) next_power_of_two [OF table_okD(1) [OF t(1) c] capacity_for_ok(1) grow(3)] by linarith
    with grow P(2) c show ?thesis by (simp add: paced_def begin_migration_def is_migrating_def allocate_table_def)
  qed (use p in simp)
qed

lemma rm_call_paced:
  assumes ok: "rm_ok hash m" and p: "paced m" and m': "rm_call hash c m = Some m'"
  shows "paced m'"
proof (cases c)
  case (Emplace k v)
  with m' insert_entry_paced [OF ok p, of False k v] show ?thesis by (auto simp: rm_emplace_def)
next
  case (Insert_or_assign k v)
  with m' insert_entry_paced [OF ok p, of True k v] show ?thesis by (auto simp: rm_insert_or_assign_def)
next
  case (Erase k)
  with m' rm_erase_paced [OF ok p, of k] show ?thesis by auto
next
  case (Reserve n)
  with m' rm_reserve_paced [OF ok p, of n] show ?thesis by auto
next
  case Clear
  with m' p show ?thesis by (auto simp: rm_clear_def paced_def is_migrating_def no_table_def destroy_entries_def split: if_splits)
qed

lemma rm_calls_paced:
  "\<lbrakk>rm_ok hash m; paced m; rm_calls hash cs m = Some m'\<rbrakk> \<Longrightarrow> rm_ok hash m' \<and> paced m'"
proof (induction cs arbitrary: m)
  case (Cons c cs)
  then obtain m1 where 1: "rm_call hash c m = Some m1" "rm_calls hash cs m1 = Some m'" by (auto simp: bind_eq_Some_conv)
  have "rm_ok hash m1" using rm_call_ok [OF Cons.prems(1), of c] 1(1) by auto
  from Cons.IH [OF this rm_call_paced [OF Cons.prems(1,2) 1(1)] 1(2)] show ?case .
qed simp


section \<open>Erasing through an iterator\<close>

declare free_slot_from.simps [code] complete_migration.simps [code] visit_from.simps [code]

lemma nine_entries_erased:
  "case rm_calls id (map (\<lambda>n. Emplace n (n * 10)) [0..<9]) (new_rehash_map 0) of
     None \<Rightarrow> False
   | Some m \<Rightarrow> (case erase_at id (0, 0) m of
       None \<Rightarrow> False
     | Some (following, m') \<Rightarrow> begin_position m = (0, 0) \<and> following = (0, 1) \<and> entry_at_position m (0, 1) = [(1, 10)] \<and>
         entry_at_position m' (0, 1) = [] \<and> find_value id 1 m' = Some 10)"
  by code_simp


end
