(* ===== verification/Spec2Isabelle.thy ===== *)
theory Spec2Isabelle
  imports AgentRun PromiseGaps EngineAnswers EngineDeaf RehashMapRuns
begin

text \<open>
  A verification library for the matching venue under \<open>src/\<close>: its leader election, and its matching engine.

  \<^bold>\<open>The program.\<close> Members send orders through gateways. A pair of sequencers writes every command to a write-ahead log
  (WAL), which gives it its sequence number, and hands it to a pair of matching engines. One engine leads: it applies the
  commands to its book and sends execution reports back through the sequencers. The other follows the same log, applies
  the same commands and sends nothing, but keeps its reports and compares them with the leader's. Which instance of a pair
  leads is decided by a lease, granted by a majority of three voters: the two instances and an arbiter, or, for the pair
  of arbiters, the witness. An engine's book is in a memory-mapped file, so that a restart needs only what the log has
  since the book was last published.

  \<^bold>\<open>Conventions.\<close> Each class is a record with a prefix of its own, and each member function a definition over it that
  returns the record updated. What a class tells another is a value it returns, or an event in a list, in order. A throw
  is \<open>Inl\<close> of an error, or an error beside the state where the state changed before it is seen. Times, sequence numbers
  and epochs are integers, with the range or the wrap-around of the C++ type written out where the code can reach it
  (\<open>wrap32\<close>, \<open>wrap64\<close>, \<open>int32_max\<close>). A \<open>std::map\<close> is a sorted association list (\<open>sm_put\<close>, \<open>sm_get\<close>) used through the
  interface \<open>keyed_map\<close>. Code that is not under \<open>src/\<close> is a parameter: the block cipher and the hash of the
  identifiers, the reader of the configuration file, the sizes the encoder gives groups, and which sends fail.

  \<^bold>\<open>Leader election\<close> (\<open>src/libraries/pubsub_itc_fw/include/pubsub_itc_fw\<close>).
  \<^item> \<open>LeaderIdentity\<close>: \<open>LeaderEpoch.hpp\<close>, \<open>LeaderStatement.hpp\<close> and \<open>PeerStatementsFlag.hpp\<close>.
  \<^item> \<open>LeaseVoter\<close>, \<open>LeaseHolder\<close>, \<open>LeaseParticipant\<close>: the three classes of the rules, every operation, with what each
    keeps. \<open>LeaseSystem\<close> composes two participants, a third voter and a network that loses, delays, repeats and reorders
    messages, and shows that two instances never act as leader at once.
  \<^item> \<open>LeaseTiming\<close>: the settings and the checks made of them (\<open>LeaseTiming.hpp\<close>, \<open>VotingPair.hpp\<close>).
  \<^item> \<open>PromiseRecorder\<close>: the record of a promise and the thread that writes it.
  \<^item> \<open>PairLeaseAgent\<close>: every handler of the agent. \<open>AgentHandlers\<close> shows that each is a sequence of steps of a
    participant, \<open>AgentRecord\<close> that what it believes of its record is so, and \<open>AgentSystem\<close> that two agents, restarts
    included, refine \<open>LeaseSystem\<close>. \<open>AgentLeading\<close> says what the owner of an agent may rely on.
  \<^item> \<open>ComponentLeaseVoters\<close>: the arbiter pool's votes, which pass from one arbiter to the other, as a third voter.
  \<^item> \<open>AgentRun\<close> is a run in which an agent comes to lead. \<open>PromiseGaps\<close> has two runs in which a promise is forgotten at a
    restart; each breaks a condition of \<open>AgentSystem\<close>'s steps that the code does not enforce.

  \<^bold>\<open>The matching engine\<close> (\<open>src/applications/matching_engine\<close>, and the parts of the library it stands on).
  \<^item> \<open>SlotStore\<close>: \<open>MappedSlotStore\<close>, an operation also as the individual stores it makes, so that a process may die
    between any two of them.
  \<^item> \<open>RehashMap\<close>: \<open>IncrementalRehashMap\<close>, the hash map that indexes the book, which moves its entries to a larger table a few
    at a time. \<open>RehashMapRuns\<close> shows that it is a map, at what cost it grows, and what its iterators visit.
  \<^item> \<open>OrderBook\<close>: the book over it, its check of itself and its recovery. \<open>VoidedCommands\<close>: the list of voided ranges.
  \<^item> \<open>GroupEcho\<close>: \<open>BumpAllocator\<close> and the groups an acknowledgement repeats.
  \<^item> \<open>Ff1Cipher\<close>, \<open>Decimals\<close>, \<open>ReportIdentifiers\<close>: OrderIDs and ExecIDs, which hide a position of the log.
  \<^item> \<open>MatchingEngine\<close>: \<open>MatchingEngineStateMachine\<close>, every command with its refusals and its failures. \<open>EngineAgreement\<close>
    shows that two engines given the same commands, live or caught up, agree on orders and reports; \<open>EngineAnswers\<close> says
    what a member is told.
  \<^item> \<open>ReportSending\<close>, \<open>ReportComparison\<close>, \<open>CatchUpTally\<close>, \<open>DiedApplying\<close>, \<open>EngineRole\<close>, \<open>EngineCatchUp\<close>,
    \<open>PeerSettings\<close>: the classes of the engine's thread, one theory each.
  \<^item> \<open>EngineThread\<close>: \<open>MatchingEngineThread\<close>, every handler, composed of them. \<open>EngineLeading\<close> gives it anything that can
    reach it, in any order, and shows that only the instance that holds the lease speaks to members; \<open>EngineDeaf\<close> follows
    an instance that loses the lease while it catches up.

  \<^bold>\<open>Interfaces.\<close> \<open>keyed_map\<close>, a map, provided by the model of \<open>std::map\<close> and by the hash map; \<open>recency\<close>, the order of statements; \<open>voting\<close>, a third voter, provided
  by the witness and by the arbiter pool; \<open>background_recording\<close>, the hand-over of a record to its writer.

  \<^bold>\<open>Bounds.\<close> No definition is cut off by fuel. The hash map's loops that need not end are partial functions, and are shown to
  end; its sizes are natural numbers, since a table of 2 to the 63 slots cannot be allocated. The loop that makes room for the echoed groups ends because the size of its
  arena doubles up to a limit, and the loops over digits and rounds are over lists. The properties name the ranges they
  need: sequence numbers and places that fit an identifier, timings of 32 bits, and epochs below the last.

  \<^bold>\<open>Not modelled.\<close> The reactor, its event loop, timers and threads, the connection managers, sockets and TLS: they deliver
  what the handlers here are given, and their behaviour is the operating system's. Logging, metrics, test events and
  processor pinning, which change nothing the program does. The memory pools and the slab allocators, whose subject is
  concurrent access to raw memory. The log's own files and their replication, the sequencer, the gateways, the
  authentication service, the publisher of market data and the codecs: they are other processes, whose records and
  messages are the inputs of the engine here. The configuration loaders other than the lease's; the Java and Python
  tools, the scripts and the database schema.
\<close>

section \<open>At most one instance of a pair leads\<close>


lemma fresh_pool_ok: "0 < period \<Longrightarrow> pool_ok (make_component_voters period)"
  by (simp add: pool_ok_def make_component_voters_def pool_highest_epoch_def)

lemma run_with_the_arbiter_pool:
  "\<exists>w. agent_reachable run_clocks (pool_decide 7) (pool_restarted (ms (lt_period run_timing))) (pool_tended 7)
     (\<lambda>s. pool_ok s \<and> cv_lease_period s = ms (lt_period run_timing)) run_timing
     (run_state run_leading run_time w run_leading_net)"
proof -
  let ?P = "ms (lt_period run_timing)"
  let ?pool = "became_active (make_component_voters ?P) 0"
  have ok: "pool_ok (make_component_voters ?P)" by (simp add: fresh_pool_ok ms_def run_timing_def)
  have v: "pair_voter ?pool 7 = make_voter ?P 0 0"
    by (simp add: pair_voter_def became_active_def make_component_voters_def pool_highest_epoch_def pool_statement_def
        voter_restore_recorded_statement_def make_voter_def)
  have active: "cv_active ?pool" by (simp add: became_active_def)
  obtain w where w: "pool_consider ?pool 7 1 1 run_time = Inr (fst (voter_consider (make_voter ?P 0 0) 1 1 run_time), w)"
    using pool_consider_active [OF became_ok(1) [OF ok] active, of 7 1 1 run_time] v by metis
  have "agent_reachable run_clocks (pool_decide 7) (pool_restarted ?P) (pool_tended 7)
      (\<lambda>s. pool_ok s \<and> cv_lease_period s = ?P) run_timing (run_state run_leading run_time w run_leading_net)"
  proof (rule run_reachable [where v = "make_component_voters ?P" and third = ?pool])
    show "pool_restarted ?P (make_component_voters ?P) 0 ?pool"
      by (rule pool_restarted.intros [OF ok]) (simp add: make_component_voters_def)
    show "pool_decide 7 ?pool 1 1 run_time = Some (fst (voter_consider (make_voter ?P 0 0) 1 1 run_time), w)"
      by (simp add: pool_decide_def w)
  qed (use ok in \<open>simp_all add: make_component_voters_def voter_consider_def make_voter_def voter_defs no_statement_def
      instance_that_may_not_lead_def run_time_def ms_def run_timing_def\<close>)
  then show ?thesis by blast
qed

lemma run_clocks_agree_late:
  "clocks_agree run_clocks (ms (lt_period run_timing)) (ms (lt_drift_allowance run_timing) - ms tick_interval)"
  by (rule run_clocks_agree) (simp add: ms_def run_timing_def tick_interval_def)



lemma run_with_the_witness:
  "\<exists>w. agent_reachable run_clocks (\<lambda>v c e now. Some (voter_consider v c e now)) (voter_restarted (ms (lt_period run_timing))) voter_tended
     (\<lambda>v. lv_lease_period v = ms (lt_period run_timing)) run_timing (run_state run_leading run_time w run_leading_net)"
proof -
  let ?v = "make_voter (ms (lt_period run_timing)) 0 0"
  show ?thesis
    by (rule exI, rule run_reachable [where v = ?v and third = ?v and ans = "fst (voter_consider ?v 1 1 run_time)"
          and w = "snd (voter_consider ?v 1 1 run_time)"])
      (auto simp: new_voter_def voter_consider_def make_voter_def voter_defs no_statement_def
        instance_that_may_not_lead_def run_time_def ms_def run_timing_def intro!: voter_restarted.intros [where e = 0])
qed


text \<open>
  C3. An instance that leads or asks to lead does so in an epoch that records its own id, so no epoch is
  ever shared by the two instances.
\<close>

theorem epoch_is_of_one_instance:
  assumes "agent_reachable clk (pool_decide pair) (pool_restarted (ms (lt_period timing))) (pool_tended pair)
      (\<lambda>s. pool_ok s \<and> cv_lease_period s = ms (lt_period timing)) timing s"
    and "clocks_agree clk (ms (lt_period timing)) (ms (lt_drift_allowance timing))" and "is_instance i"
    and "lh_state (lp_holder (pa_participant (as_agent s i))) \<noteq> Idle"
  shows "lh_epoch (lp_holder (pa_participant (as_agent s i))) mod 4 = i"
  using arbiter_pool.epoch_names_its_candidate [OF agents_refine_lease_system(1) [OF assms(1) clocks_agreeD(2) [OF assms(2)]] assms(2,3)] assms(4) by simp

theorem epoch_is_of_one_instance_witness:
  "\<exists>s. agent_reachable run_clocks (pool_decide 7) (pool_restarted (ms (lt_period run_timing))) (pool_tended 7)
      (\<lambda>s. pool_ok s \<and> cv_lease_period s = ms (lt_period run_timing)) run_timing s \<and>
     lh_state (lp_holder (pa_participant (as_agent s 1))) = Leading \<and>
     lh_epoch (lp_holder (pa_participant (as_agent s 1))) mod 4 = 1"
proof -
  obtain w where w: "agent_reachable run_clocks (pool_decide 7) (pool_restarted (ms (lt_period run_timing))) (pool_tended 7)
      (\<lambda>s. pool_ok s \<and> cv_lease_period s = ms (lt_period run_timing)) run_timing (run_state run_leading run_time w run_leading_net)"
    using run_with_the_arbiter_pool by blast
  have "clocks_agree run_clocks (ms (lt_period run_timing)) (ms (lt_drift_allowance run_timing))"
    by (rule run_clocks_agree) (simp add: ms_def run_timing_def)
  from epoch_is_of_one_instance [OF w this, of 1] run_leading_holds(1) w show ?thesis by auto
qed

end
